(* ===== verification/Channel_Prelude.thy ===== *)
theory Channel_Prelude
  imports Main
begin

text \<open>
  Shared vocabulary of the development: the fact collections that the component
  theories fill and unfold, the names of the identifiers the JavaScript heap hands out,
  and the list facts (queues are lists, and the history of a channel is described with
  \<open>drop\<close> and \<open>[i..<j]\<close>) that more than one component proof needs.
\<close>

section \<open>Fact collections\<close>

named_theorems js_defs "definitions of the modelled JavaScript built-ins"
named_theorems chan_defs "definitions of the channel operations"
named_theorems inv_defs "definitions of the invariants and of their conjuncts"
named_theorems hist_simps "equations of the history functions on extended call sequences"

section \<open>Identifiers\<close>

text \<open>
  A promise is named by the position at which it was allocated in the promise store.
  The \<open>resolve\<close> function that the \<open>Promise\<close> constructor hands to its executor is
  determined by the promise it settles, so a resolver is named by that promise.
\<close>

type_synonym promise = nat
type_synonym resolver = nat

section \<open>Results of an operation\<close>

text \<open>
  An operation returns its result, the caller's variables after the call and the store
  after the call, as a triple.
\<close>

abbreviation ret_of :: "'r \<times> 'c \<times> 'h \<Rightarrow> 'r" where
  "ret_of x \<equiv> fst x"

abbreviation chan_of :: "'r \<times> 'c \<times> 'h \<Rightarrow> 'c" where
  "chan_of x \<equiv> fst (snd x)"

abbreviation store_of :: "'r \<times> 'c \<times> 'h \<Rightarrow> 'h" where
  "store_of x \<equiv> snd (snd x)"

section \<open>Queues as lists\<close>

lemma drop_eq_Cons_nth:
  "drop n xs = y # ys \<Longrightarrow> n < length xs \<and> y = xs ! n \<and> ys = drop (Suc n) xs"
proof -
  assume eq: "drop n xs = y # ys"
  then have n: "n < length xs"
    by (cases "n < length xs") simp_all
  from n have "drop n xs = xs ! n # drop (Suc n) xs"
    by (rule Cons_nth_drop_Suc [symmetric])
  with eq n show ?thesis by simp
qed

lemma list_all_upt: "list_all P [i..<j] \<longleftrightarrow> (\<forall>k. i \<le> k \<and> k < j \<longrightarrow> P k)"
  by (auto simp: list_all_iff)

text \<open>Lists of records updated in one place: predicates and sums over them.\<close>

lemma list_all_update: "list_all P xs \<Longrightarrow> P y \<Longrightarrow> list_all P (xs[i := y])"
  using set_update_subset_insert [of xs i y] by (auto simp: list_all_iff)

lemma sum_list_map_update:
  fixes f :: "'a \<Rightarrow> 'b :: comm_monoid_add"
  shows "i < length xs \<Longrightarrow>
    sum_list (map f (xs[i := y])) + f (xs ! i) = sum_list (map f xs) + f y"
proof (induction xs arbitrary: i)
  case Nil
  then show ?case by simp
next
  case (Cons x xs)
  then show ?case by (cases i) (simp_all add: ac_simps)
qed

text \<open>
  Queues whose entries are found in several lists: an entry of a concatenation without
  repetition lies in one list only, a filter that at most one entry passes keeps at most
  one, and replacing every entry of a sorted list by itself or by nothing keeps it sorted.
\<close>

lemma distinct_concat_nth:
  "distinct (concat xss) \<Longrightarrow> j < length xss \<Longrightarrow> k < length xss \<Longrightarrow>
   x \<in> set (xss ! j) \<Longrightarrow> x \<in> set (xss ! k) \<Longrightarrow> j = k"
proof (induction xss arbitrary: j k)
  case Nil
  then show ?case by simp
next
  case (Cons xs xss)
  then show ?case by (cases j; cases k) (auto simp: disjoint_iff)
qed

lemma filter_unique:
  "distinct xs \<Longrightarrow> (\<And>x y. x \<in> set xs \<Longrightarrow> y \<in> set xs \<Longrightarrow> P x \<Longrightarrow> P y \<Longrightarrow> x = y) \<Longrightarrow>
   length (filter P xs) \<le> 1"
proof (induction xs)
  case Nil
  show ?case by simp
next
  case (Cons x xs)
  then have "P x \<Longrightarrow> filter P xs = []" by (auto simp: filter_empty_conv)
  with Cons show ?case by auto
qed

lemma sorted_concat_sub:
  fixes f :: "'x :: linorder \<Rightarrow> 'x list"
  assumes "\<And>x. f x = [] \<or> f x = [x]" and "sorted_wrt (<) xs"
  shows "sorted_wrt (<) (concat (map f xs)) \<and> set (concat (map f xs)) \<subseteq> set xs"
  using assms(2)
proof (induction xs)
  case Nil
  show ?case by simp
next
  case (Cons x xs)
  then have "sorted_wrt (<) (concat (map f xs))" and "set (concat (map f xs)) \<subseteq> set xs"
    and "\<forall>y \<in> set xs. x < y" by simp_all
  with assms(1) [of x] show ?case by (auto simp: sorted_wrt_append)
qed

text \<open>A queue that grows by two segments at its end, one rule for each conjunct.\<close>

lemma sorted_wrt_append3:
  assumes "sorted_wrt P xs" and "sorted_wrt P ys" and "sorted_wrt P zs"
    and "\<And>x y. x \<in> set xs \<Longrightarrow> y \<in> set ys \<Longrightarrow> P x y"
    and "\<And>x z. x \<in> set xs \<or> x \<in> set ys \<Longrightarrow> z \<in> set zs \<Longrightarrow> P x z"
  shows "sorted_wrt P (xs @ ys @ zs)"
  using assms by (auto simp: sorted_wrt_append)

lemma list_all_append3:
  assumes "\<And>x. x \<in> set xs \<Longrightarrow> P x" and "\<And>x. x \<in> set ys \<Longrightarrow> P x"
    and "\<And>x. x \<in> set zs \<Longrightarrow> P x"
  shows "list_all P (xs @ ys @ zs)"
  using assms by (auto simp: list_all_iff)

end
