(* ===== verification/JS_Array.thy ===== *)
theory JS_Array
  imports Channel_Prelude
begin

text \<open>
  The part of JavaScript's \<open>Array\<close> that \<^verbatim>\<open>src/index.js\<close> calls: \<open>push\<close>, \<open>shift\<close>,
  \<open>map\<close> and the truth value of \<open>length\<close>. An array is a list; \<open>shift\<close> of an empty
  array is \<open>undefined\<close>, written \<open>None\<close>, and not an unspecified head.
\<close>

section \<open>Operations\<close>

text \<open>
  \<^verbatim>\<open>xs.push(x)\<close> appends at the end. JavaScript returns the new length, which both call
  sites of the channel discard; the model returns the updated array.
\<close>

definition push :: "'a list \<Rightarrow> 'a \<Rightarrow> 'a list" where
  "push xs x = xs @ [x]"

text \<open>
  \<^verbatim>\<open>xs.shift()\<close> removes and returns the first element; on an empty array it returns
  \<open>undefined\<close> and leaves the array empty.
\<close>

fun shift :: "'a list \<Rightarrow> 'a option \<times> 'a list" where
  "shift [] = (None, [])"
| "shift (x # xs) = (Some x, xs)"

text \<open>
  A number in a condition (\<^verbatim>\<open>if (xs.length)\<close>) is true unless it is zero.
\<close>

definition truthy :: "nat \<Rightarrow> bool" where
  "truthy n \<longleftrightarrow> n \<noteq> 0"

text \<open>
  \<^verbatim>\<open>xs.map(f)\<close> calls \<open>f\<close> on every element from the first to the last and collects
  the results in a new array. The callback may have an effect, so it takes and returns
  the state \<open>'s\<close> it acts on; the array itself is not changed.
\<close>

primrec array_map :: "('a \<Rightarrow> 's \<Rightarrow> 'b \<times> 's) \<Rightarrow> 'a list \<Rightarrow> 's \<Rightarrow> 'b list \<times> 's" where
  "array_map f [] s = ([], s)"
| "array_map f (x # xs) s =
     (case f x s of (y, s') \<Rightarrow>
        (case array_map f xs s' of (ys, s'') \<Rightarrow> (y # ys, s'')))"

lemmas [js_defs] = push_def truthy_def

section \<open>Facts\<close>

lemma truthy_length [simp]: "truthy (length xs) \<longleftrightarrow> xs \<noteq> []"
  by (simp add: truthy_def)

lemma truthy_0 [simp]: "\<not> truthy 0"
  by (simp add: truthy_def)

lemma truthy_Suc [simp]: "truthy (Suc n)"
  by (simp add: truthy_def)

lemma length_push [simp]: "length (push xs x) = Suc (length xs)"
  by (simp add: push_def)

lemma set_push [simp]: "set (push xs x) = insert x (set xs)"
  by (simp add: push_def)

lemma push_neq_Nil [simp]: "push xs x \<noteq> []"
  by (simp add: push_def)

lemma shift_Nil_iff: "fst (shift xs) = None \<longleftrightarrow> xs = []"
  by (cases xs) simp_all

lemma shift_Some: "shift xs = (Some x, ys) \<longleftrightarrow> xs = x # ys"
  by (cases xs) auto

lemma shift_None: "shift xs = (None, ys) \<longleftrightarrow> xs = [] \<and> ys = []"
  by (cases xs) auto

lemma shift_conv: "shift xs = (if xs = [] then (None, []) else (Some (hd xs), tl xs))"
  by (cases xs) simp_all

fun_cases shift_SomeE: "shift xs = (Some x, ys)"

text \<open>An array used with \<open>push\<close> and \<open>shift\<close> only is a first-in first-out queue.\<close>

lemma shift_push:
  "shift (push xs x) = (if xs = [] then (Some x, []) else (Some (hd xs), push (tl xs) x))"
  by (cases xs) (simp_all add: push_def)

lemma length_shift: "length (snd (shift xs)) = length xs - 1"
  by (cases xs) simp_all

lemma foldl_push: "foldl push ys xs = ys @ xs"
  by (induction xs arbitrary: ys) (simp_all add: push_def)

text \<open>
  An array filled by \<open>push\<close> gives its elements back to \<open>shift\<close> in
  the order they were pushed: after pushing \<open>x\<close> and then \<open>xs\<close> onto an empty array,
  \<open>shift\<close> returns \<open>x\<close> and leaves the array that pushing \<open>xs\<close> alone makes.
\<close>

lemma push_shift_fifo:
  "shift (foldl push [] (x # xs)) = (Some x, foldl push [] xs)"
  by (simp add: foldl_push push_def)

text \<open>
  The effect of \<open>map\<close> on the state is the left fold of the callback's effect; the
  result array has one entry per element.
\<close>

lemma snd_array_map_Cons:
  "snd (array_map f (x # xs) s) = snd (array_map f xs (snd (f x s)))"
  by (simp split: prod.splits)

lemma snd_array_map: "snd (array_map f xs s) = foldl (\<lambda>s x. snd (f x s)) s xs"
proof (induction xs arbitrary: s)
  case Nil
  show ?case by simp
next
  case (Cons x xs)
  have "snd (array_map f (x # xs) s) = snd (array_map f xs (snd (f x s)))"
    by (rule snd_array_map_Cons)
  also have "\<dots> = foldl (\<lambda>s x. snd (f x s)) (snd (f x s)) xs"
    by (rule Cons.IH)
  finally show ?case by simp
qed

lemma length_fst_array_map: "length (fst (array_map f xs s)) = length xs"
proof (induction xs arbitrary: s)
  case Nil
  show ?case by simp
next
  case (Cons x xs)
  obtain y s' where f: "f x s = (y, s')" by (cases "f x s")
  obtain ys s'' where m: "array_map f xs s' = (ys, s'')" by (cases "array_map f xs s'")
  from Cons [of s'] m have "length ys = length xs" by simp
  with f m show ?case by simp
qed

lemma array_map_append:
  "snd (array_map f (xs @ ys) s) = snd (array_map f ys (snd (array_map f xs s)))"
  by (simp add: snd_array_map)

end
