(* ===== verification/JS_Promise.thy ===== *)
theory JS_Promise
  imports Channel_Prelude
begin

text \<open>
  The part of JavaScript's \<open>Promise\<close> that \<^verbatim>\<open>src/index.js\<close> uses: \<open>Promise.resolve(v)\<close>,
  \<open>new Promise(executor)\<close> and the \<open>resolve\<close> function handed to the executor. The
  promises of a program live in a store, a list indexed by the promise's identifier;
  allocation appends. A promise is pending or fulfilled with a value, and once it is
  fulfilled a further call of its \<open>resolve\<close> function does nothing. Values are not
  promises here (\<open>JS_Promise_Full\<close> has those), and the channel never rejects.
\<close>

section \<open>The store\<close>

datatype 'v settle = Pending | Fulfilled 'v

type_synonym 'v store = "'v settle list"

text \<open>\<open>Promise.resolve(v)\<close>: a new promise, already fulfilled with \<open>v\<close>.\<close>

definition Promise_resolve :: "'v \<Rightarrow> 'v store \<Rightarrow> promise \<times> 'v store" where
  "Promise_resolve v h = (length h, h @ [Fulfilled v])"

text \<open>
  \<open>new Promise(executor)\<close>: a new pending promise is allocated, the executor is called at
  once with the promise's \<open>resolve\<close> function and acts on the caller's variables \<open>'c\<close>,
  and the promise is returned.
\<close>

definition new_Promise ::
  "(resolver \<Rightarrow> 'c \<Rightarrow> 'c) \<Rightarrow> 'c \<Rightarrow> 'v store \<Rightarrow> promise \<times> 'c \<times> 'v store" where
  "new_Promise executor c h = (length h, executor (length h) c, h @ [Pending])"

text \<open>
  \<open>resolve(v)\<close>, for the resolver of promise \<open>p\<close>: fulfils \<open>p\<close> if it is pending; does
  nothing if \<open>p\<close> is settled already. A resolver of no allocated promise does not exist
  in JavaScript; the model leaves the store as it is.
\<close>

definition resolve_fn :: "resolver \<Rightarrow> 'v \<Rightarrow> 'v store \<Rightarrow> 'v store" where
  "resolve_fn p v h = (if p < length h \<and> h ! p = Pending then h[p := Fulfilled v] else h)"

text \<open>
  What \<^verbatim>\<open>await p\<close> yields once the caller is resumed: the value of a fulfilled promise.
  \<open>None\<close> is a caller that is still suspended (or a promise that does not exist).
\<close>

definition await :: "promise \<Rightarrow> 'v store \<Rightarrow> 'v option" where
  "await p h = (if p < length h then (case h ! p of Pending \<Rightarrow> None | Fulfilled v \<Rightarrow> Some v)
                else None)"

definition pending :: "'v store \<Rightarrow> promise \<Rightarrow> bool" where
  "pending h p \<longleftrightarrow> p < length h \<and> h ! p = Pending"

definition fulfilled_with :: "'v store \<Rightarrow> 'v \<Rightarrow> promise \<Rightarrow> bool" where
  "fulfilled_with h v p \<longleftrightarrow> p < length h \<and> h ! p = Fulfilled v"

text \<open>
  Calling a list of resolvers in turn with one value: what \<open>rs.map(r => r(v))\<close> does to
  the store.
\<close>

definition settle_all :: "'v \<Rightarrow> resolver list \<Rightarrow> 'v store \<Rightarrow> 'v store" where
  "settle_all v rs h = foldl (\<lambda>h r. resolve_fn r v h) h rs"

lemmas [js_defs] = Promise_resolve_def new_Promise_def resolve_fn_def await_def
  pending_def fulfilled_with_def

section \<open>Settlement as an order\<close>

text \<open>
  A promise only ever moves from pending to fulfilled: \<open>Pending\<close> is below everything, and
  two fulfilled states are comparable only if they are equal. A store \<open>h'\<close> extends \<open>h\<close>
  when it keeps every promise of \<open>h\<close> and every settled promise of \<open>h\<close> is unchanged.
\<close>

instantiation settle :: (type) order
begin

definition less_eq_settle :: "'a settle \<Rightarrow> 'a settle \<Rightarrow> bool" where
  "less_eq_settle x y \<longleftrightarrow> x = Pending \<or> x = y"

definition less_settle :: "'a settle \<Rightarrow> 'a settle \<Rightarrow> bool" where
  "less_settle x y \<longleftrightarrow> x = Pending \<and> y \<noteq> Pending"

instance
  by standard (auto simp: less_eq_settle_def less_settle_def)

end

definition store_le :: "'v store \<Rightarrow> 'v store \<Rightarrow> bool" where
  "store_le h h' \<longleftrightarrow> length h \<le> length h' \<and> list_all2 (\<le>) h (take (length h) h')"

lemma Pending_le [simp]: "Pending \<le> x"
  by (simp add: less_eq_settle_def)

lemma Fulfilled_le_iff [simp]: "Fulfilled v \<le> x \<longleftrightarrow> x = Fulfilled v"
  by (auto simp: less_eq_settle_def)

lemma le_Pending_iff [simp]: "x \<le> Pending \<longleftrightarrow> x = Pending"
  by (auto simp: less_eq_settle_def)

lemma store_le_iff:
  "store_le h h' \<longleftrightarrow> length h \<le> length h' \<and> (\<forall>p < length h. h ! p \<le> h' ! p)"
  by (auto simp: store_le_def list_all2_conv_all_nth)

lemma store_le_refl [simp, intro]: "store_le h h"
  by (simp add: store_le_iff)

lemma store_le_trans [trans]: "store_le h1 h2 \<Longrightarrow> store_le h2 h3 \<Longrightarrow> store_le h1 h3"
  unfolding store_le_iff by (meson order_trans less_le_trans)

lemma store_le_fulfilled:
  "store_le h h' \<Longrightarrow> fulfilled_with h v p \<Longrightarrow> fulfilled_with h' v p"
  by (auto simp: store_le_iff fulfilled_with_def)

lemma store_le_await: "store_le h h' \<Longrightarrow> await p h = Some v \<Longrightarrow> await p h' = Some v"
  by (auto simp: store_le_iff await_def split: if_splits settle.splits)

lemma store_le_length: "store_le h h' \<Longrightarrow> length h \<le> length h'"
  by (simp add: store_le_iff)

section \<open>Allocation\<close>

lemma pending_lt: "pending h p \<Longrightarrow> p < length h"
  by (simp add: pending_def)

lemma fulfilled_lt: "fulfilled_with h v p \<Longrightarrow> p < length h"
  by (simp add: fulfilled_with_def)

lemma pending_snoc: "pending (h @ [x]) p \<longleftrightarrow> pending h p \<or> (p = length h \<and> x = Pending)"
  by (auto simp: pending_def nth_append)

lemma fulfilled_snoc:
  "fulfilled_with (h @ [x]) v p \<longleftrightarrow> fulfilled_with h v p \<or> (p = length h \<and> x = Fulfilled v)"
  by (auto simp: fulfilled_with_def nth_append)

lemma pending_not_fulfilled: "pending h p \<Longrightarrow> \<not> fulfilled_with h v p"
  by (simp add: pending_def fulfilled_with_def)

lemma fst_Promise_resolve [simp]: "fst (Promise_resolve v h) = length h"
  by (simp add: Promise_resolve_def)

lemma snd_Promise_resolve [simp]: "snd (Promise_resolve v h) = h @ [Fulfilled v]"
  by (simp add: Promise_resolve_def)

lemma Promise_resolve_fresh: "Promise_resolve v h = (p, h') \<Longrightarrow> \<not> p < length h"
  by (auto simp: Promise_resolve_def)

lemma Promise_resolve_await: "Promise_resolve v h = (p, h') \<Longrightarrow> await p h' = Some v"
  by (auto simp: Promise_resolve_def await_def)

lemma store_le_snoc [simp, intro]: "store_le h (h @ [x])"
  by (simp add: store_le_iff nth_append)

lemma new_Promise_pending: "new_Promise ex c h = (p, c', h') \<Longrightarrow> pending h' p"
  by (auto simp: new_Promise_def pending_def)

section \<open>The resolve function\<close>

lemma length_resolve_fn [simp]: "length (resolve_fn p v h) = length h"
  by (simp add: resolve_fn_def)

lemma resolve_fn_pending: "pending h p \<Longrightarrow> resolve_fn p v h = h[p := Fulfilled v]"
  by (simp add: resolve_fn_def pending_def)

lemma resolve_fn_settled: "\<not> pending h p \<Longrightarrow> resolve_fn p v h = h"
  by (auto simp: resolve_fn_def pending_def)

lemma nth_resolve_fn:
  "q < length h \<Longrightarrow>
   resolve_fn p v h ! q = (if q = p \<and> h ! p = Pending then Fulfilled v else h ! q)"
  by (simp add: resolve_fn_def)

lemma resolve_fn_other: "q \<noteq> p \<Longrightarrow> resolve_fn p v h ! q = h ! q"
  by (simp add: resolve_fn_def)

lemma store_le_resolve_fn [simp, intro]: "store_le h (resolve_fn p v h)"
  by (simp add: store_le_iff nth_resolve_fn)

lemma pending_resolve_fn: "pending (resolve_fn p v h) q \<longleftrightarrow> pending h q \<and> q \<noteq> p"
  by (auto simp: pending_def nth_resolve_fn split: if_splits)

lemma fulfilled_resolve_fn:
  "pending h p \<Longrightarrow> fulfilled_with (resolve_fn p v h) v p"
  by (simp add: pending_def fulfilled_with_def resolve_fn_def)

lemma resolve_fn_snoc:
  "p < length h \<Longrightarrow> resolve_fn p v (h @ [x]) = resolve_fn p v h @ [x]"
  by (simp add: resolve_fn_def nth_append list_update_append)

section \<open>Settling a list of resolvers\<close>

lemma settle_all_Nil [simp]: "settle_all v [] h = h"
  by (simp add: settle_all_def)

lemma settle_all_Cons [simp]: "settle_all v (r # rs) h = settle_all v rs (resolve_fn r v h)"
  by (simp add: settle_all_def)

lemma settle_all_snoc: "settle_all v (rs @ [r]) h = resolve_fn r v (settle_all v rs h)"
  by (simp add: settle_all_def)

lemma length_settle_all [simp]: "length (settle_all v rs h) = length h"
  by (induction rs arbitrary: h) simp_all

lemma nth_settle_all:
  "q < length h \<Longrightarrow>
   settle_all v rs h ! q = (if q \<in> set rs \<and> h ! q = Pending then Fulfilled v else h ! q)"
  by (induction rs arbitrary: h) (auto simp: nth_resolve_fn)

lemma store_le_settle_all [simp, intro]: "store_le h (settle_all v rs h)"
  by (simp add: store_le_iff nth_settle_all)

lemma pending_settle_all: "pending (settle_all v rs h) q \<longleftrightarrow> pending h q \<and> q \<notin> set rs"
  by (auto simp: pending_def nth_settle_all split: if_splits)

lemma fulfilled_settle_all:
  "pending h q \<Longrightarrow> q \<in> set rs \<Longrightarrow> fulfilled_with (settle_all v rs h) v q"
  by (simp add: pending_def fulfilled_with_def nth_settle_all)

lemma settle_all_twice: "settle_all w rs (settle_all v rs h) = settle_all v rs h"
  by (rule nth_equalityI) (auto simp: nth_settle_all)

lemma await_pending: "pending h p \<Longrightarrow> await p h = None"
  by (simp add: await_def pending_def)

lemma await_fulfilled: "fulfilled_with h v p \<Longrightarrow> await p h = Some v"
  by (simp add: await_def fulfilled_with_def)

lemma await_Some_iff: "await p h = Some v \<longleftrightarrow> fulfilled_with h v p"
  by (auto simp: await_def fulfilled_with_def split: settle.splits)

lemma await_resolve_fn:
  "await q (resolve_fn r v h) = (if q = r \<and> pending h r then Some v else await q h)"
  by (auto simp: await_def pending_def nth_resolve_fn)

lemma await_settle_all:
  "await q (settle_all v rs h) = (if q \<in> set rs \<and> pending h q then Some v else await q h)"
  by (auto simp: await_def pending_def nth_settle_all)

lemma await_snoc:
  "await q (h @ [x]) =
     (if q = length h then (case x of Pending \<Rightarrow> None | Fulfilled v \<Rightarrow> Some v) else await q h)"
  by (auto simp: await_def nth_append)

text \<open>
  A resolve function settles its promise at most once: the first
  call on a pending promise fulfils it, and a call on a settled promise, with the same
  or another value, changes nothing.
\<close>

lemma resolve_once:
  "resolve_fn p w (resolve_fn p v h) = resolve_fn p v h \<and>
   await p (resolve_fn p v h) = (if pending h p then Some v else await p h)"
  by (simp add: await_resolve_fn) (simp add: resolve_fn_def)

end
