(* ===== verification/Channel.thy ===== *)
theory Channel
  imports JS_Array JS_Promise
begin

text \<open>
  The channel of \<^verbatim>\<open>src/index.js\<close>: the sentinel \<open>CLOSED\<close>, the three variables that
  \<open>createChannel\<close> closes over, and the functions \<open>put\<close>, \<open>take\<close> and \<open>close\<close>, each as a
  function from the channel's variables and the promise store to its result and the
  updated variables and store. The theory then gives the behaviour of each function
  on each of its branches, the invariant of the channel with its preservation by each
  function, and what each function does to the promises of the store.
\<close>

section \<open>Values\<close>

text \<open>
  The values that travel through a channel. \<open>CLOSED\<close> is the symbol that the module
  creates once (\<^verbatim>\<open>Symbol('CLOSED')\<close>): a symbol is equal to itself only, so it is a
  constructor of its own. \<open>Undefined\<close> is what \<open>shift\<close> yields on an empty array. Every
  other value is a payload, which the channel never inspects.
\<close>

datatype 'a jsval = Undefined | CLOSED | Payload 'a

text \<open>The only exception the channel's code could raise: calling what is not a function.\<close>

datatype js_error = TypeError

text \<open>The result of \<open>shift\<close> as a value.\<close>

definition of_shifted :: "'a jsval option \<Rightarrow> 'a jsval" where
  "of_shifted m = (case m of None \<Rightarrow> Undefined | Some v \<Rightarrow> v)"

section \<open>State\<close>

record 'a chan =
  isClosed :: bool
  messageQueue :: "'a jsval list"
  resolveQueue :: "resolver list"

definition createChannel :: "'a chan" where
  "createChannel = \<lparr>isClosed = False, messageQueue = [], resolveQueue = []\<rparr>"

section \<open>Operations\<close>

text \<open>
  \<open>put(value)\<close>. The call \<^verbatim>\<open>resolveQueue.shift()(value)\<close> applies the result of \<open>shift\<close>;
  if that were \<open>undefined\<close> the call would raise a \<open>TypeError\<close> and leave the variables
  as they are.
\<close>

definition put ::
  "'a jsval \<Rightarrow> 'a chan \<Rightarrow> 'a jsval store \<Rightarrow> (js_error + bool) \<times> 'a chan \<times> 'a jsval store" where
  "put v c h =
     (if isClosed c then (Inr False, c, h)
      else if truthy (length (resolveQueue c)) then
        (case shift (resolveQueue c) of
           (None, rq) \<Rightarrow> (Inl TypeError, c\<lparr>resolveQueue := rq\<rparr>, h)
         | (Some resolve, rq) \<Rightarrow> (Inr True, c\<lparr>resolveQueue := rq\<rparr>, resolve_fn resolve v h))
      else (Inr True, c\<lparr>messageQueue := push (messageQueue c) v\<rparr>, h))"

text \<open>\<open>take()\<close>. The name \<open>take\<close> is a list function of the library, hence the suffix.\<close>

definition take_chan :: "'a chan \<Rightarrow> 'a jsval store \<Rightarrow> promise \<times> 'a chan \<times> 'a jsval store" where
  "take_chan c h =
     (if isClosed c \<and> \<not> truthy (length (messageQueue c)) then
        (case Promise_resolve CLOSED h of (p, h') \<Rightarrow> (p, c, h'))
      else if truthy (length (messageQueue c)) then
        (case shift (messageQueue c) of (m, mq) \<Rightarrow>
           (case Promise_resolve (of_shifted m) h of (p, h') \<Rightarrow>
              (p, c\<lparr>messageQueue := mq\<rparr>, h')))
      else new_Promise (\<lambda>resolve c. c\<lparr>resolveQueue := push (resolveQueue c) resolve\<rparr>) c h)"

text \<open>
  \<open>close()\<close>. The callback of \<open>map\<close> calls each resolver with \<open>CLOSED\<close> and returns
  \<open>undefined\<close>; the array that \<open>map\<close> builds is discarded, and \<open>resolveQueue\<close> itself is
  not changed.
\<close>

definition resolve_closed :: "resolver \<Rightarrow> 'a jsval store \<Rightarrow> 'a jsval \<times> 'a jsval store" where
  "resolve_closed resolve h = (Undefined, resolve_fn resolve CLOSED h)"

definition close :: "'a chan \<Rightarrow> 'a jsval store \<Rightarrow> bool \<times> 'a chan \<times> 'a jsval store" where
  "close c h =
     (if isClosed c then (False, c, h)
      else (let c' = c\<lparr>isClosed := True\<rparr> in
        if truthy (length (resolveQueue c'))
        then (True, c', snd (array_map resolve_closed (resolveQueue c') h))
        else (True, c', h)))"

lemmas [chan_defs] = put_def take_chan_def close_def createChannel_def of_shifted_def
  resolve_closed_def

section \<open>The invariant\<close>

text \<open>
  \<open>exclusive\<close> is the invariant I1 of the specification: a buffered message and a waiting
  consumer never exist together. \<open>waiters_ok\<close> says what the channel knows of the
  resolvers it keeps: no resolver is queued twice, and the promise of each is pending
  while the channel is open and fulfilled with \<open>CLOSED\<close> once it is closed.
\<close>

definition exclusive :: "'a chan \<Rightarrow> bool" where
  "exclusive c \<longleftrightarrow> messageQueue c = [] \<or> resolveQueue c = []"

definition waiters_ok :: "'a chan \<Rightarrow> 'a jsval store \<Rightarrow> bool" where
  "waiters_ok c h \<longleftrightarrow>
     distinct (resolveQueue c) \<and>
     list_all (if isClosed c then fulfilled_with h CLOSED else pending h) (resolveQueue c)"

definition chan_inv :: "'a chan \<Rightarrow> 'a jsval store \<Rightarrow> bool" where
  "chan_inv c h \<longleftrightarrow> exclusive c \<and> waiters_ok c h"

lemmas [inv_defs] = exclusive_def waiters_ok_def chan_inv_def

section \<open>Behaviour of each operation, branch by branch\<close>

text \<open>The three situations \<open>put\<close> and \<open>close\<close> distinguish, and the three of \<open>take\<close>.\<close>

lemma producer_cases [case_names closed handoff buffer]:
  obtains (closed) "isClosed c"
  | (handoff) r rs where "\<not> isClosed c" and "resolveQueue c = r # rs"
  | (buffer) "\<not> isClosed c" and "resolveQueue c = []"
  by (cases "resolveQueue c") auto

lemma consumer_cases [case_names drained buffered wait]:
  obtains (drained) "isClosed c" and "messageQueue c = []"
  | (buffered) m ms where "messageQueue c = m # ms"
  | (wait) "\<not> isClosed c" and "messageQueue c = []"
  by (cases "messageQueue c") auto

lemma put_closed: "isClosed c \<Longrightarrow> put v c h = (Inr False, c, h)"
  by (simp add: put_def)

lemma put_handoff:
  "\<not> isClosed c \<Longrightarrow> resolveQueue c = r # rs \<Longrightarrow>
   put v c h = (Inr True, c\<lparr>resolveQueue := rs\<rparr>, resolve_fn r v h)"
  by (simp add: put_def)

lemma put_buffer:
  "\<not> isClosed c \<Longrightarrow> resolveQueue c = [] \<Longrightarrow>
   put v c h = (Inr True, c\<lparr>messageQueue := messageQueue c @ [v]\<rparr>, h)"
  by (simp add: put_def push_def)

lemma take_drained:
  "isClosed c \<Longrightarrow> messageQueue c = [] \<Longrightarrow>
   take_chan c h = (length h, c, h @ [Fulfilled CLOSED])"
  by (simp add: take_chan_def Promise_resolve_def)

lemma take_buffered:
  "messageQueue c = m # ms \<Longrightarrow>
   take_chan c h = (length h, c\<lparr>messageQueue := ms\<rparr>, h @ [Fulfilled m])"
  by (simp add: take_chan_def Promise_resolve_def of_shifted_def)

lemma take_wait:
  "\<not> isClosed c \<Longrightarrow> messageQueue c = [] \<Longrightarrow>
   take_chan c h = (length h, c\<lparr>resolveQueue := resolveQueue c @ [length h]\<rparr>, h @ [Pending])"
  by (simp add: take_chan_def new_Promise_def push_def)

lemma close_closed: "isClosed c \<Longrightarrow> close c h = (False, c, h)"
  by (simp add: close_def)

lemma close_map: "snd (array_map resolve_closed rs h) = settle_all CLOSED rs h"
  by (simp add: snd_array_map settle_all_def resolve_closed_def)

lemma close_open:
  "\<not> isClosed c \<Longrightarrow>
   close c h = (True, c\<lparr>isClosed := True\<rparr>, settle_all CLOSED (resolveQueue c) h)"
  by (cases "resolveQueue c = []") (simp_all add: close_def Let_def close_map)

lemmas put_simps = put_closed put_handoff put_buffer
lemmas take_simps = take_drained take_buffered take_wait
lemmas close_simps = close_closed close_open
lemmas op_simps = put_simps take_simps close_simps

section \<open>Results\<close>

lemma put_returns: "ret_of (put v c h) = Inr (\<not> isClosed c)"
  by (cases c rule: producer_cases) (simp_all add: put_simps)

lemma close_returns: "ret_of (close c h) = (\<not> isClosed c)"
  by (cases "isClosed c") (simp_all add: close_simps)

lemma take_returns: "ret_of (take_chan c h) = length h"
  by (cases c rule: consumer_cases) (simp_all add: take_simps)

section \<open>The closed flag\<close>

lemma isClosed_put: "isClosed (chan_of (put v c h)) = isClosed c"
  by (cases c rule: producer_cases) (simp_all add: put_simps)

lemma isClosed_take: "isClosed (chan_of (take_chan c h)) = isClosed c"
  by (cases c rule: consumer_cases) (simp_all add: take_simps)

lemma isClosed_close: "isClosed (chan_of (close c h))"
  by (cases "isClosed c") (simp_all add: close_simps)

section \<open>The store\<close>

text \<open>
  No operation unsettles or resettles a promise, \<open>take\<close> allocates exactly one promise
  and touches no other, and \<open>put\<close> and \<open>close\<close> touch only promises whose resolver is in
  \<open>resolveQueue\<close>.
\<close>

lemma store_le_put: "store_le h (store_of (put v c h))"
  by (cases c rule: producer_cases) (simp_all add: put_simps)

lemma store_le_take: "store_le h (store_of (take_chan c h))"
  by (cases c rule: consumer_cases) (simp_all add: take_simps)

lemma store_le_close: "store_le h (store_of (close c h))"
  by (cases "isClosed c") (simp_all add: close_simps)

lemma length_put: "length (store_of (put v c h)) = length h"
  by (cases c rule: producer_cases) (simp_all add: put_simps)

lemma length_take: "length (store_of (take_chan c h)) = Suc (length h)"
  by (cases c rule: consumer_cases) (simp_all add: take_simps)

lemma length_close: "length (store_of (close c h)) = length h"
  by (cases "isClosed c") (simp_all add: close_simps)

lemma put_frame: "q \<notin> set (resolveQueue c) \<Longrightarrow> store_of (put v c h) ! q = h ! q"
  by (cases c rule: producer_cases) (auto simp: put_simps resolve_fn_other)

lemma take_frame: "take (length h) (store_of (take_chan c h)) = h"
  by (cases c rule: consumer_cases) (simp_all add: take_simps)

lemma close_frame:
  "q < length h \<Longrightarrow> q \<notin> set (resolveQueue c) \<Longrightarrow> store_of (close c h) ! q = h ! q"
  by (cases "isClosed c") (simp_all add: close_simps nth_settle_all)

lemmas store_le_ops = store_le_put store_le_take store_le_close
lemmas length_ops = length_put length_take length_close

section \<open>Preservation of the invariant\<close>

lemma chan_inv_create: "chan_inv createChannel h"
  by (simp add: inv_defs createChannel_def)

lemma waiters_lt: "waiters_ok c h \<Longrightarrow> r \<in> set (resolveQueue c) \<Longrightarrow> r < length h"
  by (auto simp: waiters_ok_def list_all_iff pending_def fulfilled_with_def split: if_splits)

lemma chan_inv_put:
  assumes "chan_inv c h"
  shows "chan_inv (chan_of (put v c h)) (store_of (put v c h))"
proof (cases c rule: producer_cases)
  case closed
  with assms show ?thesis by (simp add: put_simps)
next
  case (handoff r rs)
  with assms show ?thesis
    by (auto simp: put_simps inv_defs list_all_iff pending_resolve_fn)
next
  case buffer
  with assms show ?thesis by (simp add: put_simps inv_defs)
qed

lemma chan_inv_take:
  assumes "chan_inv c h"
  shows "chan_inv (chan_of (take_chan c h)) (store_of (take_chan c h))"
proof (cases c rule: consumer_cases)
  case drained
  with assms show ?thesis
    by (auto simp: take_simps inv_defs list_all_iff fulfilled_snoc)
next
  case (buffered m ms)
  with assms show ?thesis
    by (auto simp: take_simps inv_defs)
next
  case wait
  with assms show ?thesis
    by (auto simp: take_simps inv_defs list_all_iff pending_snoc dest: pending_lt)
qed

lemma chan_inv_close:
  assumes "chan_inv c h"
  shows "chan_inv (chan_of (close c h)) (store_of (close c h))"
proof (cases "isClosed c")
  case True
  with assms show ?thesis by (simp add: close_simps)
next
  case False
  with assms show ?thesis
    by (auto simp: close_simps inv_defs list_all_iff fulfilled_settle_all)
qed

lemmas chan_inv_ops = chan_inv_put chan_inv_take chan_inv_close

section \<open>The matching of producers and consumers\<close>

lemma waiters_pending:
  "chan_inv c h \<Longrightarrow> \<not> isClosed c \<Longrightarrow> r \<in> set (resolveQueue c) \<Longrightarrow> pending h r"
  by (simp add: inv_defs list_all_iff)

text \<open>
  Claim C2 (functional). The hand-off of \<open>put\<close>. When the channel is open and consumers are waiting,
  \<open>put(v)\<close> returns \<open>true\<close>, fulfils the promise of the consumer that has waited longest
  with \<open>v\<close>, removes that consumer from the queue and leaves the others waiting in their
  order; it buffers nothing and changes no other promise.
\<close>

theorem put_hands_to_oldest:
  assumes "chan_inv c h" and "\<not> isClosed c" and "resolveQueue c = r # rs"
  shows "ret_of (put v c h) = Inr True \<and>
         await r (store_of (put v c h)) = Some v \<and>
         resolveQueue (chan_of (put v c h)) = rs \<and>
         messageQueue (chan_of (put v c h)) = [] \<and>
         (\<forall>q. q \<noteq> r \<longrightarrow> await q (store_of (put v c h)) = await q h)"
proof -
  from assms have "pending h r" and "messageQueue c = []"
    by (auto simp: inv_defs)
  with assms(2,3) show ?thesis
    by (simp add: put_handoff await_resolve_fn)
qed

theorem put_hands_to_oldest_witness:
  "chan_inv \<lparr>isClosed = False, messageQueue = [], resolveQueue = [0, 1]\<rparr>
     [Pending, Pending :: nat jsval settle] \<and>
   await 0 (store_of (put (Payload (5::nat))
     \<lparr>isClosed = False, messageQueue = [], resolveQueue = [0, 1]\<rparr> [Pending, Pending]))
     = Some (Payload 5) \<and>
   await 1 (store_of (put (Payload (5::nat))
     \<lparr>isClosed = False, messageQueue = [], resolveQueue = [0, 1]\<rparr> [Pending, Pending]))
     = None \<and>
   resolveQueue (chan_of (put (Payload (5::nat))
     \<lparr>isClosed = False, messageQueue = [], resolveQueue = [0, 1]\<rparr> [Pending, Pending]))
     = [1]"
  using put_hands_to_oldest [of "\<lparr>isClosed = False, messageQueue = [], resolveQueue = [0, 1]\<rparr>"
      "[Pending, Pending :: nat jsval settle]" 0 "[1]" "Payload (5::nat)"]
  by (simp add: inv_defs pending_def await_def)

text \<open>
  Claim C4 (functional). \<open>close\<close> on an open channel returns \<open>true\<close>, closes the channel, fulfils the
  promise of every waiting consumer with \<open>CLOSED\<close> before it returns, and leaves the
  buffered messages where they are.
\<close>

theorem close_settles_waiters:
  assumes "chan_inv c h" and "\<not> isClosed c"
  shows "ret_of (close c h) = True \<and>
         isClosed (chan_of (close c h)) \<and>
         messageQueue (chan_of (close c h)) = messageQueue c \<and>
         (\<forall>r \<in> set (resolveQueue c). await r (store_of (close c h)) = Some CLOSED)"
  using assms by (auto simp: close_open await_settle_all dest: waiters_pending)

theorem close_settles_waiters_witness:
  "chan_inv \<lparr>isClosed = False, messageQueue = [], resolveQueue = [0, 1, 2]\<rparr>
     [Pending, Pending, Pending :: nat jsval settle] \<and>
   map (\<lambda>r. await r (store_of (close
       \<lparr>isClosed = False, messageQueue = [], resolveQueue = [0, 1, 2]\<rparr>
       [Pending, Pending, Pending :: nat jsval settle]))) [0, 1, 2]
     = [Some CLOSED, Some CLOSED, Some CLOSED]"
  using close_settles_waiters [of "\<lparr>isClosed = False, messageQueue = [], resolveQueue = [0, 1, 2]\<rparr>"
      "[Pending, Pending, Pending :: nat jsval settle]"]
  by (simp add: inv_defs pending_def)

text \<open>
  Claim C5 (functional). The priorities of \<open>take\<close>. The promise that \<open>take\<close> returns is new. If a message
  is buffered, the promise is fulfilled with the oldest one and that message leaves the
  buffer, whether the channel is closed or not: closing discards nothing. If no
  message is buffered, the promise is fulfilled with \<open>CLOSED\<close> when the channel is
  closed; when it is open the promise is pending and its resolver joins the end of the
  queue of waiters.
\<close>

theorem take_priority:
  "ret_of (take_chan c h) = length h \<and>
   await (length h) (store_of (take_chan c h)) =
     (case messageQueue c of m # ms \<Rightarrow> Some m
      | [] \<Rightarrow> if isClosed c then Some CLOSED else None) \<and>
   messageQueue (chan_of (take_chan c h)) = tl (messageQueue c) \<and>
   resolveQueue (chan_of (take_chan c h)) =
     (if messageQueue c = [] \<and> \<not> isClosed c then resolveQueue c @ [length h]
      else resolveQueue c)"
  by (cases c rule: consumer_cases) (simp_all add: take_simps await_snoc)

end
