(* ===== verification/Channel_System.thy ===== *)
theory Channel_System
  imports Channel
begin

text \<open>
  The channel as its callers see it. \<open>createChannel\<close> returns a frozen object with the
  three methods \<open>put\<close>, \<open>take\<close> and \<open>close\<close>, so everything a program can do to a
  channel is a sequence of calls of these methods: \<open>call\<close> dispatches one call, \<open>run\<close>
  makes a sequence of calls. The second half of the theory is the specification of
  that behaviour in terms of the calls made so far (the history): which puts were
  accepted, which promises were issued by \<open>take\<close>, and whether \<open>close\<close> was called. The
  relation \<open>tracks\<close> says how the channel's variables and the store are determined by
  the history; every call keeps it, and what a consumer observes follows from it.
\<close>

section \<open>The handle and sequences of calls\<close>

datatype 'a operation = Put "'a jsval" | Take | Close

datatype ret = RBool bool | RPromise promise

fun call ::
  "'a operation \<Rightarrow> 'a chan \<Rightarrow> 'a jsval store \<Rightarrow> (js_error + ret) \<times> 'a chan \<times> 'a jsval store" where
  "call (Put v) c h = (case put v c h of (r, c', h') \<Rightarrow> (map_sum id RBool r, c', h'))"
| "call Take c h = (case take_chan c h of (p, c', h') \<Rightarrow> (Inr (RPromise p), c', h'))"
| "call Close c h = (case close c h of (b, c', h') \<Rightarrow> (Inr (RBool b), c', h'))"

text \<open>
  A caller that makes the calls \<open>ms\<close> one after the other. An exception is not caught:
  it ends the sequence, and the results so far end with it.
\<close>

fun run ::
  "'a operation list \<Rightarrow> 'a chan \<Rightarrow> 'a jsval store \<Rightarrow>
   (js_error + ret) list \<times> 'a chan \<times> 'a jsval store" where
  "run [] c h = ([], c, h)"
| "run (m # ms) c h =
     (case call m c h of
        (Inl e, c', h') \<Rightarrow> ([Inl e], c', h')
      | (Inr r, c', h') \<Rightarrow>
          (case run ms c' h' of (rs, c'', h'') \<Rightarrow> (Inr r # rs, c'', h'')))"

text \<open>
  The states a channel can be in: those that calls lead to from a new channel, created
  when the store was \<open>h0\<close>.
\<close>

inductive reaches :: "'a jsval store \<Rightarrow> 'a chan \<Rightarrow> 'a jsval store \<Rightarrow> bool"
  for h0 :: "'a jsval store" where
  fresh: "reaches h0 createChannel h0"
| step: "reaches h0 c h \<Longrightarrow> call m c h = (r, c', h') \<Longrightarrow> reaches h0 c' h'"

section \<open>Histories\<close>

text \<open>
  What is remembered of the calls made so far: whether \<open>close\<close> was called, the values
  of the puts made before that (the accepted ones), the promises that the calls of
  \<open>take\<close> returned, in order, and how many of them were returned before \<open>close\<close>.
\<close>

record 'a hist =
  closed :: bool
  accepted :: "'a jsval list"
  issued :: "promise list"
  open_takes :: nat

definition hist0 :: "'a hist" where
  "hist0 = \<lparr>closed = False, accepted = [], issued = [], open_takes = 0\<rparr>"

text \<open>The history after one more call; \<open>p\<close> is the promise a \<open>take\<close> returns.\<close>

fun record_call :: "'a operation \<Rightarrow> promise \<Rightarrow> 'a hist \<Rightarrow> 'a hist" where
  "record_call (Put v) p a = (if closed a then a else a\<lparr>accepted := accepted a @ [v]\<rparr>)"
| "record_call Take p a =
     a\<lparr>issued := issued a @ [p],
       open_takes := (if closed a then open_takes a else Suc (open_takes a))\<rparr>"
| "record_call Close p a = a\<lparr>closed := True\<rparr>"

text \<open>What a call must return.\<close>

fun expected_ret :: "'a operation \<Rightarrow> promise \<Rightarrow> 'a hist \<Rightarrow> ret" where
  "expected_ret (Put v) p a = RBool (\<not> closed a)"
| "expected_ret Take p a = RPromise p"
| "expected_ret Close p a = RBool (\<not> closed a)"

text \<open>
  The state that the promise of the \<open>k\<close>-th \<open>take\<close> must be in: fulfilled with the \<open>k\<close>-th
  accepted value if there is one, else fulfilled with \<open>CLOSED\<close> if the channel was
  closed, else pending.
\<close>

definition expected :: "'a hist \<Rightarrow> nat \<Rightarrow> 'a jsval settle" where
  "expected a k =
     (if k < length (accepted a) then Fulfilled (accepted a ! k)
      else if closed a then Fulfilled CLOSED else Pending)"

definition hist_ok :: "'a hist \<Rightarrow> bool" where
  "hist_ok a \<longleftrightarrow>
     distinct (issued a) \<and> open_takes a \<le> length (issued a) \<and>
     (closed a \<or> open_takes a = length (issued a))"

definition settled_as :: "'a hist \<Rightarrow> 'a jsval store \<Rightarrow> bool" where
  "settled_as a h \<longleftrightarrow>
     list_all (\<lambda>k. issued a ! k < length h \<and> h ! (issued a ! k) = expected a k)
       [0..<length (issued a)]"

text \<open>
  The channel's variables and the store as the history determines them. The messages
  buffered are the accepted values that no \<open>take\<close> has received. The resolvers queued
  are those of the promises issued while the channel was open, less the ones that an
  accepted value went to; \<open>close\<close> leaves them in the queue.
\<close>

definition tracks :: "'a hist \<Rightarrow> 'a chan \<Rightarrow> 'a jsval store \<Rightarrow> bool" where
  "tracks a c h \<longleftrightarrow>
     hist_ok a \<and>
     isClosed c = closed a \<and>
     messageQueue c = drop (length (issued a)) (accepted a) \<and>
     resolveQueue c = drop (length (accepted a)) (take (open_takes a) (issued a)) \<and>
     settled_as a h"

lemmas hist_defs = hist0_def expected_def hist_ok_def settled_as_def tracks_def

subsection \<open>The history of a sequence of calls\<close>

fun accepted_of :: "'a operation list \<Rightarrow> 'a jsval list" where
  "accepted_of [] = []"
| "accepted_of (Put v # ms) = v # accepted_of ms"
| "accepted_of (Take # ms) = accepted_of ms"
| "accepted_of (Close # ms) = []"

fun n_takes :: "'a operation list \<Rightarrow> nat" where
  "n_takes [] = 0"
| "n_takes (Take # ms) = Suc (n_takes ms)"
| "n_takes (Put v # ms) = n_takes ms"
| "n_takes (Close # ms) = n_takes ms"

fun open_takes_of :: "'a operation list \<Rightarrow> nat" where
  "open_takes_of [] = 0"
| "open_takes_of (Take # ms) = Suc (open_takes_of ms)"
| "open_takes_of (Put v # ms) = open_takes_of ms"
| "open_takes_of (Close # ms) = 0"

fun closes :: "'a operation list \<Rightarrow> bool" where
  "closes [] = False"
| "closes (Close # ms) = True"
| "closes (Put v # ms) = closes ms"
| "closes (Take # ms) = closes ms"

text \<open>
  The history of the calls \<open>ms\<close> on a channel created when the store held \<open>n0\<close>
  promises, if nothing else allocates in between: the \<open>k\<close>-th \<open>take\<close> returns promise
  \<open>n0 + k\<close>.
\<close>

definition history :: "nat \<Rightarrow> 'a operation list \<Rightarrow> 'a hist" where
  "history n0 ms =
     \<lparr>closed = closes ms, accepted = accepted_of ms,
      issued = [n0..<n0 + n_takes ms], open_takes = open_takes_of ms\<rparr>"

text \<open>What the \<open>k\<close>-th call of \<open>ms\<close> must return.\<close>

definition ret_at :: "nat \<Rightarrow> 'a operation list \<Rightarrow> nat \<Rightarrow> ret" where
  "ret_at n0 ms k = expected_ret (ms ! k) (n0 + n_takes (take k ms)) (history n0 (take k ms))"

text \<open>
  What the consumer that made the \<open>k\<close>-th \<open>take\<close> receives after the calls \<open>ms\<close>; \<open>None\<close>
  is a consumer that is still waiting.
\<close>

definition take_outcome :: "'a operation list \<Rightarrow> nat \<Rightarrow> 'a jsval option" where
  "take_outcome ms k =
     (if k < length (accepted_of ms) then Some (accepted_of ms ! k)
      else if closes ms then Some CLOSED else None)"

section \<open>Calls\<close>

text \<open>
  A call is determined by the operation it dispatches to; these equations replace the
  defining ones in the simpset.
\<close>

lemma call_Put:
  "call (Put v) c h = (Inr (RBool (\<not> isClosed c)), chan_of (put v c h), store_of (put v c h))"
  using put_returns [of v c h] by (cases "put v c h") simp

lemma call_Take:
  "call Take c h = (Inr (RPromise (length h)), chan_of (take_chan c h), store_of (take_chan c h))"
  using take_returns [of c h] by (cases "take_chan c h") simp

lemma call_Close:
  "call Close c h = (Inr (RBool (\<not> isClosed c)), chan_of (close c h), store_of (close c h))"
  using close_returns [of c h] by (cases "close c h") simp

declare call.simps [simp del]
lemmas call_simps [simp] = call_Put call_Take call_Close

lemma call_total: "\<exists>r. ret_of (call m c h) = Inr r"
  by (cases m) simp_all

lemma length_call:
  "length (store_of (call m c h)) = (if m = Take then Suc (length h) else length h)"
  by (cases m) (simp_all add: length_ops)

lemma store_le_call: "store_le h (store_of (call m c h))"
  by (cases m) (simp_all add: store_le_ops)

lemma chan_inv_call: "chan_inv c h \<Longrightarrow> chan_inv (chan_of (call m c h)) (store_of (call m c h))"
  by (cases m) (simp_all add: chan_inv_ops)

lemma isClosed_call: "isClosed c \<Longrightarrow> isClosed (chan_of (call m c h))"
  by (cases m) (simp_all add: isClosed_put isClosed_take isClosed_close)

section \<open>Sequences of calls\<close>

lemma run_Nil: "run [] c h = ([], c, h)"
  by simp

lemma run_Cons:
  "run (m # ms) c h =
     (ret_of (call m c h) # ret_of (run ms (chan_of (call m c h)) (store_of (call m c h))),
      chan_of (run ms (chan_of (call m c h)) (store_of (call m c h))),
      store_of (run ms (chan_of (call m c h)) (store_of (call m c h))))"
  using call_total [of m c h] by (auto split: prod.splits sum.splits)

lemma run_append:
  "run (ms @ ns) c h =
     (ret_of (run ms c h) @ ret_of (run ns (chan_of (run ms c h)) (store_of (run ms c h))),
      chan_of (run ns (chan_of (run ms c h)) (store_of (run ms c h))),
      store_of (run ns (chan_of (run ms c h)) (store_of (run ms c h))))"
proof (induction ms arbitrary: c h)
  case Nil
  show ?case by simp
next
  case (Cons m ms)
  show ?case
    unfolding append_Cons run_Cons [of m] Cons.IH by simp
qed

declare run.simps [simp del]

lemma run_single:
  "run [m] c h = ([ret_of (call m c h)], chan_of (call m c h), store_of (call m c h))"
  by (simp add: run_Cons run_Nil)

lemma run_snoc:
  "run (ms @ [m]) c h =
     (ret_of (run ms c h) @ [ret_of (call m (chan_of (run ms c h)) (store_of (run ms c h)))],
      chan_of (call m (chan_of (run ms c h)) (store_of (run ms c h))),
      store_of (call m (chan_of (run ms c h)) (store_of (run ms c h))))"
  by (simp add: run_append run_single)

lemmas run_simps = run_Nil run_Cons

text \<open>
  An invariant of single calls is an invariant of sequences of calls, and of the states
  that calls reach.
\<close>

lemma run_invariant:
  assumes "\<And>m c h. P c h \<Longrightarrow> P (chan_of (call m c h)) (store_of (call m c h))"
    and "P c h"
  shows "P (chan_of (run ms c h)) (store_of (run ms c h))"
  using assms(2)
proof (induction ms arbitrary: c h)
  case Nil
  then show ?case by (simp add: run_Nil)
next
  case (Cons m ms)
  from Cons.prems have "P (chan_of (call m c h)) (store_of (call m c h))"
    by (rule assms(1))
  then show ?case by (simp add: run_Cons Cons.IH)
qed

lemma reaches_invariant:
  assumes "reaches h0 c h" and "P createChannel h0"
    and "\<And>m c h. P c h \<Longrightarrow> P (chan_of (call m c h)) (store_of (call m c h))"
  shows "P c h"
  using assms(1)
proof (induction rule: reaches.induct)
  case fresh
  show ?case by (rule assms(2))
next
  case (step c h m r c' h')
  from assms(3) [OF step.IH, of m] step.hyps(2) show ?case by simp
qed

lemma reaches_call:
  "reaches h0 c h \<Longrightarrow> reaches h0 (chan_of (call m c h)) (store_of (call m c h))"
  by (erule reaches.step [where r = "ret_of (call m c h)"]) simp

lemma reaches_run: "reaches h0 (chan_of (run ms createChannel h0)) (store_of (run ms createChannel h0))"
proof (induction ms rule: rev_induct)
  case Nil
  show ?case by (simp add: run_Nil reaches.fresh)
next
  case (snoc m ms)
  then show ?case by (simp add: run_snoc reaches_call)
qed

lemma run_reaches:
  "reaches h0 c h \<Longrightarrow> \<exists>ms. chan_of (run ms createChannel h0) = c \<and> store_of (run ms createChannel h0) = h"
proof (induction rule: reaches.induct)
  case fresh
  have "chan_of (run [] createChannel h0) = createChannel \<and> store_of (run [] createChannel h0) = h0"
    by (simp add: run_Nil)
  then show ?case by blast
next
  case (step c h m r c' h')
  then obtain ms where "chan_of (run ms createChannel h0) = c" "store_of (run ms createChannel h0) = h"
    by blast
  with step.hyps(2) have "chan_of (run (ms @ [m]) createChannel h0) = c' \<and>
      store_of (run (ms @ [m]) createChannel h0) = h'"
    by (simp add: run_snoc)
  then show ?case by blast
qed

section \<open>Every call keeps the history relation\<close>

lemma settled_as_iff:
  "settled_as a h \<longleftrightarrow>
   (\<forall>k < length (issued a). issued a ! k < length h \<and> h ! (issued a ! k) = expected a k)"
  by (simp add: settled_as_def list_all_upt)

lemma issued_lt: "settled_as a h \<Longrightarrow> p \<in> set (issued a) \<Longrightarrow> p < length h"
  by (auto simp: settled_as_iff in_set_conv_nth)

lemma tracks_init: "tracks hist0 createChannel h"
  by (simp add: hist_defs createChannel_def)

text \<open>A \<open>take\<close> issues a promise in the state that the history expects of it.\<close>

lemma settled_as_issue:
  assumes "settled_as a h" and "x = expected a' (length (issued a))"
    and "\<And>k. k < length (issued a) \<Longrightarrow> expected a' k = expected a k"
    and "issued a' = issued a @ [length h]"
  shows "settled_as a' (h @ [x])"
  using assms by (auto simp: settled_as_iff nth_append less_Suc_eq)

text \<open>An accepted value goes to the oldest promise that has none, if there is one.\<close>

lemma settled_as_handoff:
  assumes st: "settled_as a h" and dist: "distinct (issued a)" and nc: "\<not> closed a"
    and la: "length (accepted a) < length (issued a)"
  shows "settled_as (a\<lparr>accepted := accepted a @ [v]\<rparr>)
           (resolve_fn (issued a ! length (accepted a)) v h)"
  unfolding settled_as_iff
proof (intro allI impI)
  let ?a = "a\<lparr>accepted := accepted a @ [v]\<rparr>" and ?r = "issued a ! length (accepted a)"
  fix k assume "k < length (issued ?a)"
  then have k: "k < length (issued a)" by simp
  with st have kk: "issued a ! k < length h" "h ! (issued a ! k) = expected a k"
    by (auto simp: settled_as_iff)
  from dist k la have "issued a ! k = ?r \<longleftrightarrow> k = length (accepted a)"
    by (simp add: nth_eq_iff_index_eq)
  with kk nc show "issued ?a ! k < length (resolve_fn ?r v h) \<and>
      resolve_fn ?r v h ! (issued ?a ! k) = expected ?a k"
    by (auto simp: nth_resolve_fn expected_def nth_append)
qed

lemma settled_as_buffer:
  "settled_as a h \<Longrightarrow> length (issued a) \<le> length (accepted a) \<Longrightarrow>
   settled_as (a\<lparr>accepted := accepted a @ [v]\<rparr>) h"
  by (auto simp: settled_as_iff expected_def nth_append)

text \<open>\<open>close\<close> settles the promises that no accepted value went to.\<close>

lemma settled_as_close:
  assumes st: "settled_as a h" and dist: "distinct (issued a)" and nc: "\<not> closed a"
  shows "settled_as (a\<lparr>closed := True\<rparr>)
           (settle_all CLOSED (drop (length (accepted a)) (issued a)) h)"
  unfolding settled_as_iff
proof (intro allI impI)
  let ?a = "a\<lparr>closed := True\<rparr>" and ?rs = "drop (length (accepted a)) (issued a)"
  fix k assume "k < length (issued ?a)"
  then have k: "k < length (issued a)" by simp
  with st have kk: "issued a ! k < length h" "h ! (issued a ! k) = expected a k"
    by (auto simp: settled_as_iff)
  from dist k have "issued a ! k \<in> set ?rs \<longleftrightarrow> length (accepted a) \<le> k"
    by (auto simp: in_set_conv_nth nth_eq_iff_index_eq
        intro: exI [of _ "k - length (accepted a)"])
  with kk nc show "issued ?a ! k < length (settle_all CLOSED ?rs h) \<and>
      settle_all CLOSED ?rs h ! (issued ?a ! k) = expected ?a k"
    by (auto simp: nth_settle_all expected_def)
qed

lemma tracks_open:
  "tracks a c h \<Longrightarrow> \<not> isClosed c \<Longrightarrow>
   \<not> closed a \<and> open_takes a = length (issued a) \<and>
   resolveQueue c = drop (length (accepted a)) (issued a)"
  by (auto simp: tracks_def hist_ok_def)

lemma tracks_put:
  assumes "tracks a c h"
  shows "tracks (record_call (Put v) p a) (chan_of (put v c h)) (store_of (put v c h))"
proof (cases c rule: producer_cases)
  case closed
  with assms show ?thesis by (simp add: put_simps tracks_def)
next
  case (handoff r rs)
  with assms have op: "\<not> closed a" "open_takes a = length (issued a)"
    and d: "drop (length (accepted a)) (issued a) = r # rs"
    by (auto dest: tracks_open)
  from d have la: "length (accepted a) < length (issued a)"
    and r: "r = issued a ! length (accepted a)"
    and rs: "rs = drop (Suc (length (accepted a))) (issued a)"
    by (auto dest: drop_eq_Cons_nth)
  from assms op la r have "settled_as (a\<lparr>accepted := accepted a @ [v]\<rparr>) (resolve_fn r v h)"
    by (simp add: tracks_def hist_ok_def settled_as_handoff)
  moreover from handoff have "put v c h = (Inr True, c\<lparr>resolveQueue := rs\<rparr>, resolve_fn r v h)"
    by (rule put_handoff)
  ultimately show ?thesis
    using assms la rs op by (simp add: tracks_def hist_ok_def)
next
  case buffer
  with assms have op: "\<not> closed a" "open_takes a = length (issued a)"
    and le: "length (issued a) \<le> length (accepted a)"
    by (auto dest: tracks_open)
  from assms le have "settled_as (a\<lparr>accepted := accepted a @ [v]\<rparr>) h"
    by (simp add: tracks_def settled_as_buffer)
  moreover from buffer
  have "put v c h = (Inr True, c\<lparr>messageQueue := messageQueue c @ [v]\<rparr>, h)"
    by (rule put_buffer)
  ultimately show ?thesis
    using assms le op by (simp add: tracks_def hist_ok_def)
qed

lemma hist_ok_take:
  "hist_ok a \<Longrightarrow> settled_as a h \<Longrightarrow> hist_ok (record_call Take (length h) a)"
  by (auto simp: hist_ok_def dest: issued_lt)

text \<open>\<open>take\<close> keeps the relation, branch by branch.\<close>

lemma tracks_take_drained:
  assumes "tracks a c h" and "isClosed c" and "messageQueue c = []"
  shows "tracks (record_call Take (length h) a) c (h @ [Fulfilled CLOSED])"
proof -
  from assms have st: "settled_as a h" and ok: "hist_ok (record_call Take (length h) a)"
    and le: "length (accepted a) \<le> length (issued a)" and cl: "closed a"
    by (simp_all add: tracks_def hist_ok_take del: record_call.simps)
  from st le cl have "settled_as (record_call Take (length h) a) (h @ [Fulfilled CLOSED])"
    by (intro settled_as_issue [of a]) (simp_all add: expected_def)
  with assms ok le cl show ?thesis by (simp add: tracks_def hist_ok_def)
qed

lemma tracks_take_buffered:
  assumes "tracks a c h" and "messageQueue c = m # ms"
  shows "tracks (record_call Take (length h) a) (c\<lparr>messageQueue := ms\<rparr>) (h @ [Fulfilled m])"
proof -
  from assms have st: "settled_as a h" and ok: "hist_ok (record_call Take (length h) a)"
    and "drop (length (issued a)) (accepted a) = m # ms"
    by (simp_all add: tracks_def hist_ok_take del: record_call.simps)
  then have lt: "length (issued a) < length (accepted a)"
    and m: "m = accepted a ! length (issued a)"
    and ms: "ms = drop (Suc (length (issued a))) (accepted a)"
    by (auto dest: drop_eq_Cons_nth)
  from st lt m have "settled_as (record_call Take (length h) a) (h @ [Fulfilled m])"
    by (intro settled_as_issue [of a]) (simp_all add: expected_def)
  with assms ok lt ms show ?thesis by (auto simp: tracks_def hist_ok_def)
qed

lemma tracks_take_wait:
  assumes "tracks a c h" and "\<not> isClosed c" and "messageQueue c = []"
  shows "tracks (record_call Take (length h) a)
           (c\<lparr>resolveQueue := resolveQueue c @ [length h]\<rparr>) (h @ [Pending])"
proof -
  from assms have st: "settled_as a h" and ok: "hist_ok (record_call Take (length h) a)"
    by (simp_all add: tracks_def hist_ok_take del: record_call.simps)
  from assms have le: "length (accepted a) \<le> length (issued a)"
    and op: "\<not> closed a" "open_takes a = length (issued a)"
    by (auto simp: tracks_def hist_ok_def)
  from st le op have "settled_as (record_call Take (length h) a) (h @ [Pending])"
    by (intro settled_as_issue [of a]) (simp_all add: expected_def)
  with assms ok le op show ?thesis by (simp add: tracks_def hist_ok_def)
qed

lemma tracks_take:
  assumes "tracks a c h"
  shows "tracks (record_call Take (length h) a) (chan_of (take_chan c h)) (store_of (take_chan c h))"
proof (cases c rule: consumer_cases)
  case drained
  with assms show ?thesis
    by (simp add: take_drained tracks_take_drained del: record_call.simps)
next
  case (buffered m ms)
  with assms show ?thesis
    by (simp add: take_buffered tracks_take_buffered del: record_call.simps)
next
  case wait
  with assms show ?thesis
    by (simp add: take_wait tracks_take_wait del: record_call.simps)
qed

lemma tracks_close:
  assumes "tracks a c h"
  shows "tracks (record_call Close p a) (chan_of (close c h)) (store_of (close c h))"
proof (cases "isClosed c")
  case True
  with assms have "a\<lparr>closed := True\<rparr> = a" by (simp add: tracks_def)
  with assms True show ?thesis by (simp add: close_simps)
next
  case False
  with assms have op: "\<not> closed a" "open_takes a = length (issued a)"
    and rq: "resolveQueue c = drop (length (accepted a)) (issued a)"
    by (auto dest: tracks_open)
  from assms op rq have "settled_as (a\<lparr>closed := True\<rparr>) (settle_all CLOSED (resolveQueue c) h)"
    by (simp add: tracks_def hist_ok_def settled_as_close)
  moreover from False
  have "close c h = (True, c\<lparr>isClosed := True\<rparr>, settle_all CLOSED (resolveQueue c) h)"
    by (rule close_open)
  ultimately show ?thesis
    using assms by (simp add: tracks_def hist_ok_def)
qed

lemma tracks_call:
  "tracks a c h \<Longrightarrow>
   tracks (record_call m (length h) a) (chan_of (call m c h)) (store_of (call m c h))"
  by (cases m) (simp_all add: tracks_put tracks_take tracks_close del: record_call.simps)

lemma ret_call:
  "tracks a c h \<Longrightarrow> ret_of (call m c h) = Inr (expected_ret m (length h) a)"
  by (cases m) (simp_all add: tracks_def)

section \<open>The history of a sequence of calls\<close>

lemma closes_snoc: "closes (ms @ [m]) \<longleftrightarrow> closes ms \<or> m = Close"
  by (induction ms rule: closes.induct) (cases m; simp)+

lemma closes_iff: "closes ms \<longleftrightarrow> Close \<in> set ms"
  by (induction ms rule: closes.induct) auto

lemma n_takes_snoc: "n_takes (ms @ [m]) = (if m = Take then Suc (n_takes ms) else n_takes ms)"
  by (induction ms rule: n_takes.induct) (cases m; simp)+

lemma accepted_of_snoc:
  "accepted_of (ms @ [m]) =
     (if closes ms then accepted_of ms
      else accepted_of ms @ (case m of Put v \<Rightarrow> [v] | _ \<Rightarrow> []))"
  by (induction ms rule: accepted_of.induct) (cases m; simp)+

lemma open_takes_of_snoc:
  "open_takes_of (ms @ [m]) =
     (if \<not> closes ms \<and> m = Take then Suc (open_takes_of ms) else open_takes_of ms)"
  by (induction ms rule: open_takes_of.induct) (cases m; simp)+

lemmas [hist_simps] = closes_snoc n_takes_snoc accepted_of_snoc open_takes_of_snoc

lemma open_takes_of_le: "open_takes_of ms \<le> n_takes ms"
  by (induction ms rule: open_takes_of.induct) simp_all

lemma open_takes_of_open: "\<not> closes ms \<Longrightarrow> open_takes_of ms = n_takes ms"
  by (induction ms rule: open_takes_of.induct) simp_all

lemma history_sel [simp]:
  "closed (history n0 ms) = closes ms"
  "accepted (history n0 ms) = accepted_of ms"
  "issued (history n0 ms) = [n0..<n0 + n_takes ms]"
  "open_takes (history n0 ms) = open_takes_of ms"
  by (simp_all add: history_def)

lemma history_Nil: "history n0 [] = hist0"
  by (simp add: history_def hist0_def)

lemma history_snoc:
  "history n0 (ms @ [m]) = record_call m (n0 + n_takes ms) (history n0 ms)"
  by (cases m) (simp_all add: history_def hist_simps)

lemma closes_append: "closes (ms @ ns) \<longleftrightarrow> closes ms \<or> closes ns"
  by (simp add: closes_iff)

lemma n_takes_append: "n_takes (ms @ ns) = n_takes ms + n_takes ns"
  by (induction ms rule: n_takes.induct) simp_all

lemma accepted_of_append:
  "accepted_of (ms @ ns) = (if closes ms then accepted_of ms else accepted_of ms @ accepted_of ns)"
  by (induction ms rule: accepted_of.induct) simp_all

lemma accepted_of_puts [simp]: "accepted_of (map Put vs) = vs"
  by (induction vs) simp_all

lemma n_takes_puts [simp]: "n_takes (map Put vs) = 0"
  by (induction vs) simp_all

lemma closes_puts [simp]: "\<not> closes (map Put vs)"
  by (induction vs) simp_all

lemma accepted_of_takes [simp]: "accepted_of (replicate n Take) = []"
  by (induction n) simp_all

lemma n_takes_takes [simp]: "n_takes (replicate n Take) = n"
  by (induction n) simp_all

lemma closes_takes [simp]: "\<not> closes (replicate n Take)"
  by (induction n) simp_all

lemmas hist_append = closes_append n_takes_append accepted_of_append

section \<open>Sequences of calls on a new channel\<close>

lemma length_run: "length (store_of (run ms c h)) = length h + n_takes ms"
proof (induction ms rule: rev_induct)
  case Nil
  show ?case by (simp add: run_Nil)
next
  case (snoc m ms)
  then show ?case by (simp add: run_snoc length_call n_takes_snoc)
qed

lemma run_tracks:
  "tracks (history (length h0) ms)
     (chan_of (run ms createChannel h0)) (store_of (run ms createChannel h0))"
proof (induction ms rule: rev_induct)
  case Nil
  show ?case by (simp add: run_Nil history_Nil tracks_init)
next
  case (snoc m ms)
  from tracks_call [OF snoc, of m] show ?case
    by (simp add: run_snoc history_snoc length_run)
qed

lemma run_rets:
  "ret_of (run ms createChannel h0) = map (\<lambda>k. Inr (ret_at (length h0) ms k)) [0..<length ms]"
proof (induction ms rule: rev_induct)
  case Nil
  show ?case by (simp add: run_Nil)
next
  case (snoc m ms)
  have "ret_of (call m (chan_of (run ms createChannel h0)) (store_of (run ms createChannel h0)))
      = Inr (ret_at (length h0) (ms @ [m]) (length ms))"
    using ret_call [OF run_tracks [of h0 ms], of m] by (simp add: ret_at_def length_run)
  with snoc show ?case
    by (simp add: run_snoc ret_at_def nth_append)
qed

lemma run_settled:
  "k < n_takes ms \<Longrightarrow>
   store_of (run ms createChannel h0) ! (length h0 + k) = expected (history (length h0) ms) k"
  using run_tracks [of h0 ms] by (simp add: tracks_def settled_as_iff)

lemma await_expected:
  "p < length h \<Longrightarrow> h ! p = expected (history base ms) k \<Longrightarrow> await p h = take_outcome ms k"
  by (simp add: await_def expected_def take_outcome_def)

lemma run_await:
  "k < n_takes ms \<Longrightarrow>
   await (length h0 + k) (store_of (run ms createChannel h0)) = take_outcome ms k"
  by (intro await_expected [where base = "length h0"]) (simp_all add: length_run run_settled)

lemma run_isClosed: "isClosed (chan_of (run ms createChannel h0)) = closes ms"
  using run_tracks [of h0 ms] by (simp add: tracks_def)

lemma run_messageQueue:
  "messageQueue (chan_of (run ms createChannel h0)) = drop (n_takes ms) (accepted_of ms)"
  using run_tracks [of h0 ms] by (simp add: tracks_def)

lemma run_resolveQueue:
  "resolveQueue (chan_of (run ms createChannel h0)) =
     [length h0 + length (accepted_of ms)..<length h0 + open_takes_of ms]"
  using run_tracks [of h0 ms] open_takes_of_le [of ms]
  by (simp add: tracks_def take_upt add.assoc)

lemma length_rets: "length (ret_of (run ms c h)) = length ms"
  by (induction ms arbitrary: c h) (simp_all add: run_simps)

lemma call_frame:
  "q < length h \<Longrightarrow> q \<notin> set (resolveQueue c) \<Longrightarrow> store_of (call m c h) ! q = h ! q"
proof (cases m)
  case Take
  assume "q < length h"
  with take_frame [of h c] have "take (length h) (store_of (take_chan c h)) ! q = h ! q"
    by simp
  with \<open>q < length h\<close> Take show ?thesis by simp
qed (simp_all add: put_frame close_frame)

lemma run_chan_inv: "chan_inv c h \<Longrightarrow> chan_inv (chan_of (run ms c h)) (store_of (run ms c h))"
  by (rule run_invariant [where P = chan_inv]) (rule chan_inv_call)

lemma store_le_run: "store_le h (store_of (run ms c h))"
proof (induction ms rule: rev_induct)
  case Nil
  show ?case by (simp add: run_Nil)
next
  case (snoc m ms)
  then show ?case
    by (auto simp: run_snoc intro: store_le_trans store_le_call)
qed

section \<open>Sizes\<close>

lemma length_accepted_of_le: "length (accepted_of ms) \<le> length ms"
  by (induction ms rule: accepted_of.induct) simp_all

lemma n_takes_le: "n_takes ms \<le> length ms"
  by (induction ms rule: n_takes.induct) simp_all

section \<open>Evaluation\<close>

text \<open>
  The equations that evaluate a sequence of calls on concrete arguments, down to the
  built-ins.
\<close>

lemmas eval_simps = run_simps put_def take_chan_def close_def createChannel_def
  Promise_resolve_def new_Promise_def resolve_fn_def push_def of_shifted_def
  resolve_closed_def await_def Let_def

end
