(* ===== verification/Channel_Spec.thy ===== *)
theory Channel_Spec
  imports Channel_System
begin

text \<open>
  The channel as sections 3 and 4 of the specification describe it: a closed flag, a
  queue of messages and a queue of waiting consumers, with \<open>close\<close> emptying the queue
  of waiters. The code does not empty \<open>resolveQueue\<close> when it closes; the abstraction
  function reads the waiters of a closed channel as none, and under it every operation
  of the code is the operation of the specification.
\<close>

section \<open>The specification's channel\<close>

record 'a spec_chan =
  sp_closed :: bool
  sp_messages :: "'a jsval list"
  sp_waiters :: "resolver list"

definition spec_create :: "'a spec_chan" where
  "spec_create = \<lparr>sp_closed = False, sp_messages = [], sp_waiters = []\<rparr>"

definition spec_put ::
  "'a jsval \<Rightarrow> 'a spec_chan \<Rightarrow> 'a jsval store \<Rightarrow> bool \<times> 'a spec_chan \<times> 'a jsval store" where
  "spec_put v s h =
     (if sp_closed s then (False, s, h)
      else (case sp_waiters s of
              w # ws \<Rightarrow> (True, s\<lparr>sp_waiters := ws\<rparr>, resolve_fn w v h)
            | [] \<Rightarrow> (True, s\<lparr>sp_messages := sp_messages s @ [v]\<rparr>, h)))"

definition spec_take ::
  "'a spec_chan \<Rightarrow> 'a jsval store \<Rightarrow> promise \<times> 'a spec_chan \<times> 'a jsval store" where
  "spec_take s h =
     (if sp_closed s \<and> sp_messages s = [] then (length h, s, h @ [Fulfilled CLOSED])
      else (case sp_messages s of
              m # ms \<Rightarrow> (length h, s\<lparr>sp_messages := ms\<rparr>, h @ [Fulfilled m])
            | [] \<Rightarrow> (length h, s\<lparr>sp_waiters := sp_waiters s @ [length h]\<rparr>, h @ [Pending])))"

definition spec_close ::
  "'a spec_chan \<Rightarrow> 'a jsval store \<Rightarrow> bool \<times> 'a spec_chan \<times> 'a jsval store" where
  "spec_close s h =
     (if sp_closed s then (False, s, h)
      else (True, s\<lparr>sp_closed := True, sp_waiters := []\<rparr>,
            settle_all CLOSED (sp_waiters s) h))"

fun spec_call ::
  "'a operation \<Rightarrow> 'a spec_chan \<Rightarrow> 'a jsval store \<Rightarrow> ret \<times> 'a spec_chan \<times> 'a jsval store" where
  "spec_call (Put v) s h = (case spec_put v s h of (b, s', h') \<Rightarrow> (RBool b, s', h'))"
| "spec_call Take s h = (case spec_take s h of (p, s', h') \<Rightarrow> (RPromise p, s', h'))"
| "spec_call Close s h = (case spec_close s h of (b, s', h') \<Rightarrow> (RBool b, s', h'))"

fun spec_run ::
  "'a operation list \<Rightarrow> 'a spec_chan \<Rightarrow> 'a jsval store \<Rightarrow>
   ret list \<times> 'a spec_chan \<times> 'a jsval store" where
  "spec_run [] s h = ([], s, h)"
| "spec_run (m # ms) s h =
     (case spec_call m s h of (r, s', h') \<Rightarrow>
        (case spec_run ms s' h' of (rs, s'', h'') \<Rightarrow> (r # rs, s'', h'')))"

text \<open>The invariants I1 and I2 of the specification, on its channel.\<close>

definition spec_I1 :: "'a spec_chan \<Rightarrow> bool" where
  "spec_I1 s \<longleftrightarrow> sp_messages s = [] \<or> sp_waiters s = []"

definition spec_I2 :: "'a spec_chan \<Rightarrow> bool" where
  "spec_I2 s \<longleftrightarrow> (if sp_closed s then sp_waiters s = [] else True)"

section \<open>The abstraction function\<close>

definition abstraction :: "'a chan \<Rightarrow> 'a spec_chan" where
  "abstraction c =
     \<lparr>sp_closed = isClosed c, sp_messages = messageQueue c,
      sp_waiters = (if isClosed c then [] else resolveQueue c)\<rparr>"

lemmas spec_defs = spec_create_def spec_put_def spec_take_def spec_close_def abstraction_def

section \<open>Each operation refines its specification\<close>

lemma abstraction_create: "abstraction createChannel = spec_create"
  by (simp add: spec_defs createChannel_def)

lemma abstraction_sel [simp]:
  "sp_closed (abstraction c) = isClosed c"
  "sp_messages (abstraction c) = messageQueue c"
  "sp_waiters (abstraction c) = (if isClosed c then [] else resolveQueue c)"
  by (simp_all add: abstraction_def)

lemma put_abs:
  "ret_of (put v c h) = Inr (ret_of (spec_put v (abstraction c) h))"
  "abstraction (chan_of (put v c h)) = chan_of (spec_put v (abstraction c) h)"
  "store_of (put v c h) = store_of (spec_put v (abstraction c) h)"
  by (cases c rule: producer_cases; simp add: put_simps spec_defs)+

lemma take_abs:
  "ret_of (take_chan c h) = ret_of (spec_take (abstraction c) h)"
  "abstraction (chan_of (take_chan c h)) = chan_of (spec_take (abstraction c) h)"
  "store_of (take_chan c h) = store_of (spec_take (abstraction c) h)"
  by (cases c rule: consumer_cases; auto simp: take_simps spec_defs)+

lemma close_abs:
  "ret_of (close c h) = ret_of (spec_close (abstraction c) h)"
  "abstraction (chan_of (close c h)) = chan_of (spec_close (abstraction c) h)"
  "store_of (close c h) = store_of (spec_close (abstraction c) h)"
  by (cases "isClosed c"; simp add: close_simps spec_defs)+

lemma spec_returns:
  "ret_of (spec_put v s h) = (\<not> sp_closed s)"
  "ret_of (spec_take s h) = length h"
  "ret_of (spec_close s h) = (\<not> sp_closed s)"
  by (simp_all add: spec_put_def spec_take_def spec_close_def split: list.splits)

lemma spec_call_sel:
  "spec_call (Put v) s h =
     (RBool (ret_of (spec_put v s h)), chan_of (spec_put v s h), store_of (spec_put v s h))"
  "spec_call Take s h =
     (RPromise (ret_of (spec_take s h)), chan_of (spec_take s h), store_of (spec_take s h))"
  "spec_call Close s h =
     (RBool (ret_of (spec_close s h)), chan_of (spec_close s h), store_of (spec_close s h))"
  by (simp_all split: prod.splits)

declare spec_call.simps [simp del]

lemma call_abs:
  "ret_of (call m c h) = Inr (ret_of (spec_call m (abstraction c) h))"
  "abstraction (chan_of (call m c h)) = chan_of (spec_call m (abstraction c) h)"
  "store_of (call m c h) = store_of (spec_call m (abstraction c) h)"
proof -
  show "ret_of (call m c h) = Inr (ret_of (spec_call m (abstraction c) h))"
    by (cases m) (simp_all add: spec_call_sel spec_returns)
  show "abstraction (chan_of (call m c h)) = chan_of (spec_call m (abstraction c) h)"
    by (cases m) (simp_all add: spec_call_sel put_abs take_abs close_abs)
  show "store_of (call m c h) = store_of (spec_call m (abstraction c) h)"
    by (cases m) (simp_all add: spec_call_sel put_abs take_abs close_abs)
qed

lemma spec_run_Cons:
  "spec_run (m # ms) s h =
     (ret_of (spec_call m s h) #
        ret_of (spec_run ms (chan_of (spec_call m s h)) (store_of (spec_call m s h))),
      chan_of (spec_run ms (chan_of (spec_call m s h)) (store_of (spec_call m s h))),
      store_of (spec_run ms (chan_of (spec_call m s h)) (store_of (spec_call m s h))))"
  by (simp split: prod.splits)

declare spec_run.simps(2) [simp del]

section \<open>The specification's invariants\<close>

lemma spec_inv_call:
  "spec_I1 s \<and> spec_I2 s \<Longrightarrow>
   spec_I1 (chan_of (spec_call m s h)) \<and> spec_I2 (chan_of (spec_call m s h))"
  by (cases m)
    (auto simp: spec_call_sel spec_I1_def spec_I2_def spec_put_def spec_take_def spec_close_def
      split: list.splits if_splits)

lemma spec_inv_run:
  "spec_I1 s \<and> spec_I2 s \<Longrightarrow>
   spec_I1 (chan_of (spec_run ms s h)) \<and> spec_I2 (chan_of (spec_run ms s h))"
proof (induction ms arbitrary: s h)
  case Nil
  then show ?case by simp
next
  case (Cons m ms)
  from Cons.prems have "spec_I1 (chan_of (spec_call m s h)) \<and> spec_I2 (chan_of (spec_call m s h))"
    by (rule spec_inv_call)
  then show ?case by (simp add: spec_run_Cons Cons.IH)
qed

section \<open>Refinement of whole runs\<close>

lemma run_abs:
  "ret_of (run ms c h) = map Inr (ret_of (spec_run ms (abstraction c) h)) \<and>
   abstraction (chan_of (run ms c h)) = chan_of (spec_run ms (abstraction c) h) \<and>
   store_of (run ms c h) = store_of (spec_run ms (abstraction c) h)"
proof (induction ms arbitrary: c h)
  case Nil
  show ?case by (simp add: run_Nil)
next
  case (Cons m ms)
  from Cons [of "chan_of (call m c h)" "store_of (call m c h)"] show ?case
    by (simp add: run_Cons spec_run_Cons call_abs)
qed

text \<open>
  Claim C8 (refinement). Every sequence of calls on a channel made by \<open>createChannel\<close>
  behaves as the same sequence on the channel of the specification: the calls return
  the same values (and none of them throws), the states correspond under the
  abstraction function, and the promises are settled alike.
\<close>

theorem run_refines:
  "ret_of (run ms createChannel h) = map Inr (ret_of (spec_run ms spec_create h)) \<and>
   abstraction (chan_of (run ms createChannel h)) = chan_of (spec_run ms spec_create h) \<and>
   store_of (run ms createChannel h) = store_of (spec_run ms spec_create h)"
  using run_abs [of ms createChannel h] by (simp add: abstraction_create)

text \<open>
  Claim C24 (functional; a divergence from the specification). \<open>close\<close> leaves
  \<open>resolveQueue\<close> as it is, where the channel of the specification has no waiters once it is closed: after
  \<open>take\<close> and \<open>close\<close> on a fresh channel the resolver of the settled promise is still
  in \<open>resolveQueue\<close>.
\<close>

theorem close_keeps_resolveQueue:
  "resolveQueue (chan_of (close c h)) = resolveQueue c \<and>
   sp_waiters (chan_of (spec_close (abstraction c) h)) = [] \<and>
   resolveQueue (chan_of (run [Take, Close] createChannel [])) = [0]"
  by (cases "isClosed c") (simp_all add: close_simps spec_close_def eval_simps)

end
