(* ===== verification/Channel_Lifecycle.thy ===== *)
theory Channel_Lifecycle
  imports Channel_System
begin

text \<open>
  The life of a channel as a state machine. The specification names one transition,
  from open to closed; with the draining of the buffer a channel has three phases:
  open, closed with messages still buffered (draining), and closed and empty (inert).
  \<open>phase_step\<close> is the machine, labelled with the operations; every call of the code
  is a step of it, and the rest of the theory is what follows for closed channels:
  a channel never reopens, and a closed channel answers every call from its buffer
  alone.
\<close>

section \<open>Phases\<close>

datatype phase = Open | Draining | Inert

definition phase_of :: "'a chan \<Rightarrow> phase" where
  "phase_of c =
     (if \<not> isClosed c then Open else if truthy (length (messageQueue c)) then Draining else Inert)"

text \<open>
  The steps between phases. Which of two possible steps \<open>close\<close> and \<open>take\<close> make
  depends on the buffer, which the phase does not record.
\<close>

inductive phase_step :: "phase \<Rightarrow> 'a operation \<Rightarrow> phase \<Rightarrow> bool" where
  open_put: "phase_step Open (Put v) Open"
| open_take: "phase_step Open Take Open"
| close_drain: "phase_step Open Close Draining"
| close_inert: "phase_step Open Close Inert"
| drain_put: "phase_step Draining (Put v) Draining"
| drain_take: "phase_step Draining Take Draining"
| drain_last: "phase_step Draining Take Inert"
| drain_close: "phase_step Draining Close Draining"
| inert: "phase_step Inert m Inert"

code_pred phase_step .

text \<open>A sequence of steps.\<close>

inductive phase_path :: "phase \<Rightarrow> 'a operation list \<Rightarrow> phase \<Rightarrow> bool" where
  path_nil: "phase_path p [] p"
| path_cons: "phase_step p m q \<Longrightarrow> phase_path q ms r \<Longrightarrow> phase_path p (m # ms) r"

text \<open>Inversion: how \<open>Open\<close> is reached, and what a label allows.\<close>

inductive_cases to_OpenE [elim!]: "phase_step p m Open"
inductive_cases path_NilE [elim!]: "phase_path p [] q"
inductive_cases path_ConsE [elim!]: "phase_path p (m # ms) q"
inductive_simps phase_step_Close: "phase_step p Close q"
inductive_simps phase_step_Put: "phase_step p (Put v) q"
inductive_simps phase_step_Take: "phase_step p Take q"

text \<open>The phases in the order a channel goes through them.\<close>

definition phase_rank :: "phase \<Rightarrow> nat" where
  "phase_rank p = (case p of Open \<Rightarrow> 0 | Draining \<Rightarrow> 1 | Inert \<Rightarrow> 2)"

instantiation phase :: linorder
begin

definition less_eq_phase :: "phase \<Rightarrow> phase \<Rightarrow> bool" where
  "less_eq_phase p q \<longleftrightarrow> phase_rank p \<le> phase_rank q"

definition less_phase :: "phase \<Rightarrow> phase \<Rightarrow> bool" where
  "less_phase p q \<longleftrightarrow> phase_rank p < phase_rank q"

instance
  by standard (auto simp: less_eq_phase_def less_phase_def phase_rank_def split: phase.splits)

end

section \<open>What a closed channel answers\<close>

text \<open>
  The results of calls on a closed channel when the store holds \<open>n\<close> promises: \<open>put\<close>
  and \<open>close\<close> return \<open>false\<close>, each \<open>take\<close> the next new promise. \<open>drained mq k\<close> is
  what the \<open>k\<close>-th \<open>take\<close> on a closed channel with buffer \<open>mq\<close> receives.
\<close>

fun closed_rets :: "nat \<Rightarrow> 'a operation list \<Rightarrow> ret list" where
  "closed_rets n [] = []"
| "closed_rets n (Take # ms) = RPromise n # closed_rets (Suc n) ms"
| "closed_rets n (Put v # ms) = RBool False # closed_rets n ms"
| "closed_rets n (Close # ms) = RBool False # closed_rets n ms"

definition drained :: "'a jsval list \<Rightarrow> nat \<Rightarrow> 'a jsval" where
  "drained mq k = (if k < length mq then mq ! k else CLOSED)"

section \<open>Every call is a step\<close>

lemma phase_of_cases:
  "phase_of c = Open \<longleftrightarrow> \<not> isClosed c"
  "phase_of c = Draining \<longleftrightarrow> isClosed c \<and> messageQueue c \<noteq> []"
  "phase_of c = Inert \<longleftrightarrow> isClosed c \<and> messageQueue c = []"
  by (simp_all add: phase_of_def)

lemma phase_put: "phase_of (chan_of (put v c h)) = phase_of c"
  by (cases c rule: producer_cases) (simp_all add: put_simps phase_of_def)

lemma phase_take:
  "phase_of (chan_of (take_chan c h)) =
     (if phase_of c = Draining \<and> length (messageQueue c) = 1 then Inert else phase_of c)"
  by (cases c rule: consumer_cases) (auto simp: take_simps phase_of_def)

lemma phase_close:
  "phase_of (chan_of (close c h)) =
     (if phase_of c = Open then (if messageQueue c = [] then Inert else Draining) else phase_of c)"
  by (cases "isClosed c") (simp_all add: close_simps phase_of_def)

lemma call_phase: "phase_step (phase_of c) m (phase_of (chan_of (call m c h)))"
  by (cases m; cases "phase_of c")
    (simp_all add: phase_put phase_take phase_close phase_step_Put phase_step_Take
      phase_step_Close)

lemma phase_step_mono: "phase_step p m q \<Longrightarrow> p \<le> q"
  by (induction rule: phase_step.induct) (simp_all add: less_eq_phase_def phase_rank_def)

lemma phase_path_mono: "phase_path p ms q \<Longrightarrow> p \<le> q"
  by (induction rule: phase_path.induct) (auto dest: phase_step_mono)

lemma run_phase: "phase_path (phase_of c) ms (phase_of (chan_of (run ms c h)))"
proof (induction ms arbitrary: c h)
  case Nil
  show ?case by (simp add: run_Nil phase_path.path_nil)
next
  case (Cons m ms)
  from call_phase Cons [of "chan_of (call m c h)" "store_of (call m c h)"]
  have "phase_path (phase_of c) (m # ms)
      (phase_of (chan_of (run ms (chan_of (call m c h)) (store_of (call m c h)))))"
    by (rule phase_path.path_cons)
  then show ?case by (simp add: run_Cons)
qed

section \<open>The lifecycle of runs\<close>

lemma phase_path_Open: "phase_path p ms Open \<Longrightarrow> p = Open \<and> Close \<notin> set ms"
  by (induction ms arbitrary: p) auto

text \<open>
  A channel that is open after a sequence of calls was open before it, and no call of
  the sequence was \<open>close\<close>: nothing but \<open>close\<close> closes a channel, and nothing
  opens one.
\<close>

lemma open_means_never_closed:
  assumes "\<not> isClosed (chan_of (run ms c h))"
  shows "\<not> isClosed c \<and> Close \<notin> set ms"
  using run_phase [of c ms h] assms by (auto simp: phase_of_cases [symmetric] dest: phase_path_Open)

text \<open>
  Claim C26 (refinement). The code implements the lifecycle machine: a new channel
  is open, and every sequence of calls, from any state, moves the phase of the channel
  along a path of the machine labelled with these calls.
\<close>

theorem lifecycle_simulation:
  "phase_path (phase_of c) ms (phase_of (chan_of (run ms c h))) \<and>
   phase_of createChannel = Open"
proof
  show "phase_path (phase_of c) ms (phase_of (chan_of (run ms c h)))"
    by (rule run_phase)
  show "phase_of createChannel = Open"
    by (simp add: phase_of_def createChannel_def)
qed

text \<open>
  The phase of a channel never goes back: an open channel may become draining or
  inert, a draining one inert, and an inert channel stays inert (I2 of the
  specification: closedness is a one-way latch).
\<close>

lemma never_reopens: "phase_of c \<le> phase_of (chan_of (run ms c h))"
  by (rule phase_path_mono) (rule run_phase)

section \<open>Closed channels\<close>

lemma closed_rets_run:
  "isClosed c \<Longrightarrow> ret_of (run ms c h) = map Inr (closed_rets (length h) ms)"
proof (induction ms arbitrary: c h)
  case Nil
  show ?case by (simp add: run_Nil)
next
  case (Cons m ms)
  from Cons.prems have "isClosed (chan_of (call m c h))" by (rule isClosed_call)
  from Cons.IH [OF this] Cons.prems show ?case
    by (cases m) (simp_all add: run_Cons put_closed close_closed length_take)
qed

lemma closed_run_state:
  assumes "isClosed c"
  shows "chan_of (run ms c h) = c\<lparr>messageQueue := drop (n_takes ms) (messageQueue c)\<rparr> \<and>
         store_of (run ms c h) = h @ map (\<lambda>k. Fulfilled (drained (messageQueue c) k)) [0..<n_takes ms]"
proof (induction ms rule: rev_induct)
  case Nil
  show ?case by (simp add: run_Nil)
next
  case (snoc m ms)
  let ?c = "c\<lparr>messageQueue := drop (n_takes ms) (messageQueue c)\<rparr>"
  show ?case
  proof (cases m)
    case (Put v)
    with snoc assms show ?thesis by (simp add: run_snoc put_closed hist_simps)
  next
    case Close
    with snoc assms show ?thesis by (simp add: run_snoc close_closed hist_simps)
  next
    case Take
    show ?thesis
    proof (cases "n_takes ms < length (messageQueue c)")
      case True
      then have "messageQueue ?c = messageQueue c ! n_takes ms # drop (Suc (n_takes ms)) (messageQueue c)"
        by (simp add: Cons_nth_drop_Suc)
      from take_buffered [OF this] snoc Take True show ?thesis
        by (simp add: run_snoc hist_simps drained_def)
    next
      case False
      with assms have "isClosed ?c" "messageQueue ?c = []" by simp_all
      from take_drained [OF this] snoc Take False show ?thesis
        by (simp add: run_snoc hist_simps drained_def)
    qed
  qed
qed

text \<open>
  Claim C27 (functional). A closed channel, in whatever state it was closed, answers
  from its buffer alone: \<open>put\<close> and \<open>close\<close> return \<open>false\<close>, the \<open>k\<close>-th \<open>take\<close> returns a
  new promise fulfilled with the \<open>k\<close>-th buffered message, or with \<open>CLOSED\<close> when the
  buffer had fewer; the calls change nothing but the buffer, and no older promise.
\<close>

theorem closed_channel_drains:
  assumes "isClosed c"
  shows "chan_of (run ms c h) = c\<lparr>messageQueue := drop (n_takes ms) (messageQueue c)\<rparr> \<and>
         store_of (run ms c h) =
           h @ map (\<lambda>k. Fulfilled (drained (messageQueue c) k)) [0..<n_takes ms] \<and>
         ret_of (run ms c h) = map Inr (closed_rets (length h) ms)"
  using assms by (simp add: closed_run_state closed_rets_run)

theorem closed_channel_drains_witness:
  "isClosed \<lparr>isClosed = True, messageQueue = [Payload (1::nat)], resolveQueue = []\<rparr> \<and>
   store_of (run [Take, Put (Payload 2), Take, Close]
     \<lparr>isClosed = True, messageQueue = [Payload (1::nat)], resolveQueue = []\<rparr> []) =
     [Fulfilled (Payload 1), Fulfilled CLOSED] \<and>
   ret_of (run [Take, Put (Payload 2), Take, Close]
     \<lparr>isClosed = True, messageQueue = [Payload (1::nat)], resolveQueue = []\<rparr> []) =
     [Inr (RPromise 0), Inr (RBool False), Inr (RPromise 1), Inr (RBool False)]"
  using closed_channel_drains [of "\<lparr>isClosed = True, messageQueue = [Payload (1::nat)], resolveQueue = []\<rparr>"
      "[Take, Put (Payload 2), Take, Close]" "[]"]
  by (simp add: drained_def upt_conv_Cons)

end
