(* ===== verification/Channel_World.thy ===== *)
theory Channel_World
  imports Channel_System
begin

text \<open>
  Several channels in one program. Every call of \<open>createChannel\<close> makes a closure of
  its own, and all channels allocate their promises in the one store of the program.
  An action is a call of a method on one of the channels; a program is a sequence of
  actions. The theory shows that the channels do not interfere: each channel is in
  the state, and each of its promises is settled, as the calls made on that channel
  alone determine.
\<close>

section \<open>Programs over several channels\<close>

text \<open>An action names the channel by its index among the channels created.\<close>

type_synonym 'a action = "nat \<times> 'a operation"

definition createChannels :: "nat \<Rightarrow> 'a chan list" where
  "createChannels n = replicate n createChannel"

text \<open>
  One action. A method call on a handle that does not exist is a call on \<open>undefined\<close>,
  which JavaScript answers with a \<open>TypeError\<close>; nothing changes.
\<close>

definition world_call ::
  "'a action \<Rightarrow> 'a chan list \<Rightarrow> 'a jsval store \<Rightarrow>
   (js_error + ret) \<times> 'a chan list \<times> 'a jsval store" where
  "world_call a cs h =
     (if fst a < length cs then
        (case call (snd a) (cs ! fst a) h of (r, c', h') \<Rightarrow> (r, cs[fst a := c'], h'))
      else (Inl TypeError, cs, h))"

fun world_run ::
  "'a action list \<Rightarrow> 'a chan list \<Rightarrow> 'a jsval store \<Rightarrow>
   (js_error + ret) list \<times> 'a chan list \<times> 'a jsval store" where
  "world_run [] cs h = ([], cs, h)"
| "world_run (a # acts) cs h =
     (case world_call a cs h of (r, cs', h') \<Rightarrow>
        (case world_run acts cs' h' of (rs, cs'', h'') \<Rightarrow> (r # rs, cs'', h'')))"

text \<open>
  What concerns channel \<open>i\<close> in a program: the calls made on it, and the promises that
  its calls of \<open>take\<close> returned, read off the results of the program.
\<close>

definition calls_on :: "nat \<Rightarrow> 'a action list \<Rightarrow> 'a operation list" where
  "calls_on i acts = map snd (filter (\<lambda>a. fst a = i) acts)"

definition promise_on :: "nat \<Rightarrow> 'a action \<Rightarrow> js_error + ret \<Rightarrow> promise list" where
  "promise_on i a r =
     (case r of Inr (RPromise p) \<Rightarrow> if fst a = i then [p] else [] | _ \<Rightarrow> [])"

definition taken_on :: "nat \<Rightarrow> 'a action list \<Rightarrow> (js_error + ret) list \<Rightarrow> promise list" where
  "taken_on i acts rs = concat (map (\<lambda>(a, r). promise_on i a r) (zip acts rs))"

text \<open>
  The history of channel \<open>i\<close>, and the invariant of the program: every channel is as
  its history determines, and no promise was issued by two channels.
\<close>

definition world_hist :: "nat \<Rightarrow> 'a action list \<Rightarrow> (js_error + ret) list \<Rightarrow> 'a hist" where
  "world_hist i acts rs =
     \<lparr>closed = closes (calls_on i acts), accepted = accepted_of (calls_on i acts),
      issued = taken_on i acts rs, open_takes = open_takes_of (calls_on i acts)\<rparr>"

definition world_inv :: "(nat \<Rightarrow> 'a hist) \<Rightarrow> 'a chan list \<Rightarrow> 'a jsval store \<Rightarrow> bool" where
  "world_inv H cs h \<longleftrightarrow>
     (\<forall>i<length cs. tracks (H i) (cs ! i) h) \<and>
     (\<forall>i<length cs. \<forall>j<length cs. i \<noteq> j \<longrightarrow> set (issued (H i)) \<inter> set (issued (H j)) = {})"

section \<open>Actions and programs\<close>

lemma world_call_in:
  "i < length cs \<Longrightarrow>
   world_call (i, m) cs h =
     (ret_of (call m (cs ! i) h), cs[i := chan_of (call m (cs ! i) h)], store_of (call m (cs ! i) h))"
  by (simp add: world_call_def split: prod.splits)

lemma world_call_out: "\<not> i < length cs \<Longrightarrow> world_call (i, m) cs h = (Inl TypeError, cs, h)"
  by (simp add: world_call_def)

lemma length_world_call [simp]: "length (chan_of (world_call a cs h)) = length cs"
  by (cases a) (simp add: world_call_def split: prod.splits)

lemma world_run_Cons:
  "world_run (a # acts) cs h =
     (ret_of (world_call a cs h) #
        ret_of (world_run acts (chan_of (world_call a cs h)) (store_of (world_call a cs h))),
      chan_of (world_run acts (chan_of (world_call a cs h)) (store_of (world_call a cs h))),
      store_of (world_run acts (chan_of (world_call a cs h)) (store_of (world_call a cs h))))"
  by (simp split: prod.splits)

declare world_run.simps(2) [simp del]

lemma world_run_append:
  "world_run (acts @ bs) cs h =
     (ret_of (world_run acts cs h) @
        ret_of (world_run bs (chan_of (world_run acts cs h)) (store_of (world_run acts cs h))),
      chan_of (world_run bs (chan_of (world_run acts cs h)) (store_of (world_run acts cs h))),
      store_of (world_run bs (chan_of (world_run acts cs h)) (store_of (world_run acts cs h))))"
  by (induction acts arbitrary: cs h) (simp_all add: world_run_Cons)

lemma world_run_snoc:
  "world_run (acts @ [a]) cs h =
     (ret_of (world_run acts cs h) @
        [ret_of (world_call a (chan_of (world_run acts cs h)) (store_of (world_run acts cs h)))],
      chan_of (world_call a (chan_of (world_run acts cs h)) (store_of (world_run acts cs h))),
      store_of (world_call a (chan_of (world_run acts cs h)) (store_of (world_run acts cs h))))"
  by (simp add: world_run_append world_run_Cons)

lemma length_world_rets [simp]: "length (ret_of (world_run acts cs h)) = length acts"
  by (induction acts arbitrary: cs h) (simp_all add: world_run_Cons)

lemma length_world_chans [simp]: "length (chan_of (world_run acts cs h)) = length cs"
  by (induction acts arbitrary: cs h) (simp_all add: world_run_Cons)

section \<open>Histories of the channels\<close>

lemma calls_on_snoc:
  "calls_on i (acts @ [(j, m)]) = (if i = j then calls_on i acts @ [m] else calls_on i acts)"
  by (auto simp: calls_on_def)

lemma taken_on_Nil [simp]: "taken_on i [] rs = []"
  by (simp add: taken_on_def)

lemma taken_on_snoc:
  "length rs = length acts \<Longrightarrow>
   taken_on i (acts @ [a]) (rs @ [r]) = taken_on i acts rs @ promise_on i a r"
  by (simp add: taken_on_def)

lemma promise_on_simps [simp]:
  "promise_on i (j, m) (Inr (RPromise p)) = (if j = i then [p] else [])"
  "promise_on i a (Inr (RBool b)) = []"
  "promise_on i a (Inl e) = []"
  by (simp_all add: promise_on_def)

lemma world_hist_Nil [simp]: "world_hist i [] rs = hist0"
  by (simp add: world_hist_def hist0_def calls_on_def)

lemma world_hist_snoc:
  assumes "length rs = length acts"
  shows "world_hist i (acts @ [(j, m)]) (rs @ [Inr (expected_ret m p (world_hist j acts rs))]) =
           (if i = j then record_call m p (world_hist j acts rs) else world_hist i acts rs)"
  using assms
  by (cases m) (auto simp: world_hist_def calls_on_snoc taken_on_snoc hist_simps)

lemma world_hist_throw:
  "length rs = length acts \<Longrightarrow> i \<noteq> j \<Longrightarrow>
   world_hist i (acts @ [(j, m)]) (rs @ [r]) = world_hist i acts rs"
  by (cases r; cases m)
    (auto simp: world_hist_def calls_on_snoc taken_on_snoc promise_on_def split: ret.splits)

section \<open>A call on one channel and the history of another\<close>

text \<open>
  The history relation of a channel reads the store at the promises of that channel
  only, and a call on another channel writes at the promises queued there.
\<close>

lemma tracks_frame:
  assumes "tracks a c h" and "length h \<le> length h'"
    and "\<And>p. p \<in> set (issued a) \<Longrightarrow> h' ! p = h ! p"
  shows "tracks a c h'"
  using assms by (auto simp: tracks_def settled_as_iff)

lemma resolveQueue_issued: "tracks a c h \<Longrightarrow> set (resolveQueue c) \<subseteq> set (issued a)"
  by (auto simp: tracks_def dest: in_set_dropD in_set_takeD)

lemma tracks_other_call:
  assumes "tracks a c h" and "tracks b d h" and "set (issued a) \<inter> set (issued b) = {}"
  shows "tracks a c (store_of (call m d h))"
proof (rule tracks_frame [OF assms(1)])
  show "length h \<le> length (store_of (call m d h))"
    by (simp add: length_call)
next
  fix p assume p: "p \<in> set (issued a)"
  with assms(1) have "p < length h"
    by (auto simp: tracks_def dest: issued_lt)
  moreover from p assms(2,3) resolveQueue_issued [of b d h] have "p \<notin> set (resolveQueue d)"
    by auto
  ultimately show "store_of (call m d h) ! p = h ! p"
    by (rule call_frame)
qed

lemma issued_record_call:
  "set (issued (record_call m p a)) = (if m = Take then insert p (set (issued a)) else set (issued a))"
  by (cases m) auto

section \<open>The invariant of programs\<close>

lemma world_inv_cong:
  "(\<And>i. i < length cs \<Longrightarrow> H i = H' i) \<Longrightarrow> world_inv H cs h \<Longrightarrow> world_inv H' cs h"
  by (simp add: world_inv_def)

lemma world_inv_fresh:
  "world_inv H cs h \<Longrightarrow> i < length cs \<Longrightarrow> length h \<notin> set (issued (H i))"
  by (auto simp: world_inv_def tracks_def dest: issued_lt)

lemma world_inv_call:
  assumes inv: "world_inv H cs h" and j: "j < length cs"
  shows "world_inv (H(j := record_call m (length h) (H j)))
           (cs[j := chan_of (call m (cs ! j) h)]) (store_of (call m (cs ! j) h))"
  unfolding world_inv_def
proof (intro conjI allI impI)
  fix i assume "i < length (cs[j := chan_of (call m (cs ! j) h)])"
  then have i: "i < length cs" by simp
  show "tracks ((H(j := record_call m (length h) (H j))) i)
      (cs[j := chan_of (call m (cs ! j) h)] ! i) (store_of (call m (cs ! j) h))"
  proof (cases "i = j")
    case True
    with inv j show ?thesis by (simp add: world_inv_def tracks_call del: record_call.simps)
  next
    case False
    with inv i j have "tracks (H i) (cs ! i) (store_of (call m (cs ! j) h))"
      by (intro tracks_other_call [where b = "H j"]) (simp_all add: world_inv_def)
    with False show ?thesis by simp
  qed
next
  fix i k assume "i < length (cs[j := chan_of (call m (cs ! j) h)])"
    and "k < length (cs[j := chan_of (call m (cs ! j) h)])" and "i \<noteq> k"
  with inv world_inv_fresh [OF inv]
  show "set (issued ((H(j := record_call m (length h) (H j))) i)) \<inter>
      set (issued ((H(j := record_call m (length h) (H j))) k)) = {}"
    by (auto simp: world_inv_def issued_record_call simp del: record_call.simps)
qed

text \<open>The history relation implies the invariant of the channel.\<close>

lemma tracks_chan_inv: "tracks a c h \<Longrightarrow> chan_inv c h"
  by (auto simp: tracks_def hist_ok_def inv_defs settled_as_iff list_all_iff expected_def
      pending_def fulfilled_with_def in_set_conv_nth distinct_drop distinct_take)

lemma issued_hist0: "issued hist0 = []"
  by (simp add: hist0_def)

lemma world_inv_init: "world_inv (\<lambda>i. hist0) (createChannels n) h"
  by (simp add: world_inv_def createChannels_def tracks_init issued_hist0)

lemma world_step_inv:
  assumes inv: "world_inv (\<lambda>i. world_hist i acts rs) cs h" and len: "length rs = length acts"
  shows "world_inv (\<lambda>i. world_hist i (acts @ [a]) (rs @ [ret_of (world_call a cs h)]))
           (chan_of (world_call a cs h)) (store_of (world_call a cs h))"
proof (cases a)
  case (Pair j m)
  show ?thesis
  proof (cases "j < length cs")
    case True
    with inv have "ret_of (call m (cs ! j) h) = Inr (expected_ret m (length h) (world_hist j acts rs))"
      by (simp add: world_inv_def ret_call)
    with world_inv_call [OF inv True, of m] len True Pair show ?thesis
      by (auto simp: world_call_in world_hist_snoc elim!: world_inv_cong [rotated]
          simp del: record_call.simps)
  next
    case False
    with inv len Pair show ?thesis
      by (auto simp: world_call_out world_hist_throw elim!: world_inv_cong [rotated])
  qed
qed

lemma world_run_inv:
  "world_inv (\<lambda>i. world_hist i acts (ret_of (world_run acts (createChannels n) h0)))
     (chan_of (world_run acts (createChannels n) h0)) (store_of (world_run acts (createChannels n) h0))"
proof (induction acts rule: rev_induct)
  case Nil
  show ?case by (simp add: world_inv_init)
next
  case (snoc a acts)
  from world_step_inv [OF snoc, of a] show ?case by (simp add: world_run_snoc)
qed

lemma length_createChannels [simp]: "length (createChannels n) = n"
  by (simp add: createChannels_def)

lemma world_run_tracks:
  "i < n \<Longrightarrow>
   tracks (world_hist i acts (ret_of (world_run acts (createChannels n) h0)))
     (chan_of (world_run acts (createChannels n) h0) ! i)
     (store_of (world_run acts (createChannels n) h0))"
  using world_run_inv [of acts n h0] by (simp add: world_inv_def)

lemma length_taken_on:
  "i < n \<Longrightarrow>
   length (taken_on i acts (ret_of (world_run acts (createChannels n) h0))) =
     n_takes (calls_on i acts)"
proof (induction acts rule: rev_induct)
  case Nil
  show ?case by (simp add: calls_on_def)
next
  case (snoc a acts)
  obtain j m where a: "a = (j, m)" by (cases a)
  show ?case
  proof (cases "j < n")
    case True
    let ?R = "world_run acts (createChannels n) h0"
    from True have "ret_of (call m (chan_of ?R ! j) (store_of ?R)) =
        Inr (expected_ret m (length (store_of ?R)) (world_hist j acts (ret_of ?R)))"
      by (intro ret_call world_run_tracks)
    with snoc True a show ?thesis
      by (cases m) (simp_all add: world_run_snoc world_call_in taken_on_snoc calls_on_snoc hist_simps)
  next
    case False
    with snoc a show ?thesis
      by (auto simp: world_run_snoc world_call_out taken_on_snoc calls_on_snoc)
  qed
qed

section \<open>Independence\<close>

text \<open>
  What the consumer that made the \<open>k\<close>-th \<open>take\<close> on channel \<open>i\<close> receives is determined
  by the calls made on channel \<open>i\<close>.
\<close>

lemma world_await:
  assumes "i < n" and "k < n_takes (calls_on i acts)"
  shows "await (taken_on i acts (ret_of (world_run acts (createChannels n) h0)) ! k)
           (store_of (world_run acts (createChannels n) h0)) = take_outcome (calls_on i acts) k"
proof -
  let ?R = "world_run acts (createChannels n) h0"
  from assms have k: "k < length (issued (world_hist i acts (ret_of ?R)))"
    by (simp add: world_hist_def length_taken_on)
  with world_run_tracks [OF assms(1), of acts h0]
  have "issued (world_hist i acts (ret_of ?R)) ! k < length (store_of ?R)"
    and "store_of ?R ! (issued (world_hist i acts (ret_of ?R)) ! k) =
      expected (world_hist i acts (ret_of ?R)) k"
    by (simp_all add: tracks_def settled_as_iff)
  then show ?thesis
    by (intro await_expected [where base = 0]) (simp_all add: world_hist_def expected_def)
qed

text \<open>
  Channels do not interfere. In any program over \<open>n\<close>
  channels, whatever the interleaving of the calls, the promise that the \<open>k\<close>-th
  \<open>take\<close> on channel \<open>i\<close> returned is settled exactly as the promise of the \<open>k\<close>-th
  \<open>take\<close> is when the calls made on channel \<open>i\<close> are made alone, on a channel of its
  own in an empty store.
\<close>

lemma channels_independent:
  assumes "i < n" and "k < n_takes (calls_on i acts)"
  shows "await (taken_on i acts (ret_of (world_run acts (createChannels n) h0)) ! k)
           (store_of (world_run acts (createChannels n) h0)) =
         await k (store_of (run (calls_on i acts) createChannel []))"
  using world_await [OF assms, of h0] run_await [OF assms(2), of "[]"] by simp

lemma world_run_disjoint:
  "i < n \<Longrightarrow> j < n \<Longrightarrow> i \<noteq> j \<Longrightarrow>
   set (taken_on i acts (ret_of (world_run acts (createChannels n) h0))) \<inter>
   set (taken_on j acts (ret_of (world_run acts (createChannels n) h0))) = {}"
  using world_run_inv [of acts n h0] by (simp add: world_inv_def world_hist_def)

text \<open>
  Claim C29 (safety). A call on one channel changes neither the variables of another
  channel nor any promise that a \<open>take\<close> on another channel returned.
\<close>

theorem world_isolation:
  assumes "i < n" and "i \<noteq> j"
    and "p \<in> set (taken_on i acts (ret_of (world_run acts (createChannels n) h0)))"
  shows "chan_of (world_run (acts @ [(j, m)]) (createChannels n) h0) ! i =
           chan_of (world_run acts (createChannels n) h0) ! i \<and>
         store_of (world_run (acts @ [(j, m)]) (createChannels n) h0) ! p =
           store_of (world_run acts (createChannels n) h0) ! p"
proof (cases "j < n")
  case True
  let ?R = "world_run acts (createChannels n) h0"
  from assms(1,3) world_run_tracks [OF assms(1), of acts h0] have "p < length (store_of ?R)"
    by (auto simp: tracks_def world_hist_def dest: issued_lt)
  moreover from assms True world_run_disjoint [of i n j acts h0]
    resolveQueue_issued [OF world_run_tracks [OF True, of acts h0]]
  have "p \<notin> set (resolveQueue (chan_of ?R ! j))"
    by (auto simp: world_hist_def)
  ultimately have "store_of (call m (chan_of ?R ! j) (store_of ?R)) ! p = store_of ?R ! p"
    by (rule call_frame)
  with True assms(2) show ?thesis
    by (simp add: world_run_snoc world_call_in)
next
  case False
  then show ?thesis by (simp add: world_run_snoc world_call_out)
qed

theorem world_isolation_witness:
  "(0::nat) < 2 \<and> (0::nat) \<noteq> 1 \<and>
   0 \<in> set (taken_on 0 [(0, Take), (1, Take)]
     (ret_of (world_run [(0, Take), (1, Take) :: nat action] (createChannels 2) []))) \<and>
   store_of (world_run ([(0, Take), (1, Take)] @ [(1, Close :: nat operation)]) (createChannels 2) []) ! 0 =
     Pending"
proof -
  have a: "0 \<in> set (taken_on 0 [(0, Take), (1, Take)]
     (ret_of (world_run [(0, Take), (1, Take) :: nat action] (createChannels 2) [])))"
    and b: "store_of (world_run [(0, Take), (1, Take) :: nat action] (createChannels 2) []) ! 0 = Pending"
    by (simp_all add: world_run_Cons world_call_def createChannels_def taken_on_def eval_simps
        numeral_2_eq_2)
  from world_isolation [of 0 2 1 0 "[(0, Take), (1, Take)]" "[]" Close, OF _ _ a] a b
  show ?thesis by simp
qed

text \<open>
  In a program over several channels every channel keeps its invariant: buffer and
  waiters are never both non-empty, and its waiting consumers are pending while it is
  open and fulfilled with \<open>CLOSED\<close> once it is closed, whatever was done to the other
  channels.
\<close>

lemma world_invariant:
  assumes "i < n"
  shows "chan_inv (chan_of (world_run acts (createChannels n) h0) ! i)
           (store_of (world_run acts (createChannels n) h0))"
  using world_run_tracks [OF assms, of acts h0] by (rule tracks_chan_inv)

end
