(* ===== verification/Channel_Dynamic.thy ===== *)
theory Channel_Dynamic
  imports Channel_World
begin

text \<open>
  Programs that create their channels as they go. \<open>Channel_World\<close> starts a program
  with its channels made; here \<open>createChannel\<close> is a step of the program like the
  calls of the methods. A new channel is a new closure: it comes after the channels
  made so far, and making it touches neither them nor the store. So a program can be
  read as if all its channels were made first, and what \<open>Channel_World\<close> shows of a
  program holds of these.
\<close>

section \<open>Steps\<close>

text \<open>
  A step makes a channel or calls a method on the \<open>i\<close>-th channel made. Making a
  channel returns its handle, which the model has as the index; the results of a
  program are those of its method calls.
\<close>

datatype 'a step = Create | On nat "'a operation"

fun dyn_step ::
  "'a step \<Rightarrow> 'a chan list \<Rightarrow> 'a jsval store \<Rightarrow>
   (js_error + ret) list \<times> 'a chan list \<times> 'a jsval store" where
  "dyn_step Create cs h = ([], cs @ [createChannel], h)"
| "dyn_step (On i m) cs h = (case world_call (i, m) cs h of (r, cs', h') \<Rightarrow> ([r], cs', h'))"

fun dyn_run ::
  "'a step list \<Rightarrow> 'a chan list \<Rightarrow> 'a jsval store \<Rightarrow>
   (js_error + ret) list \<times> 'a chan list \<times> 'a jsval store" where
  "dyn_run [] cs h = ([], cs, h)"
| "dyn_run (s # ss) cs h =
     (case dyn_step s cs h of (r, cs', h') \<Rightarrow>
        (case dyn_run ss cs' h' of (rs, cs'', h'') \<Rightarrow> (r @ rs, cs'', h'')))"

text \<open>
  The method calls of a program, the number of channels it makes, and the programs
  that call no channel before it is made (\<open>n\<close> channels exist at the start): a
  program can only call a channel whose handle it holds.
\<close>

fun actions_of :: "'a step list \<Rightarrow> 'a action list" where
  "actions_of [] = []"
| "actions_of (Create # ss) = actions_of ss"
| "actions_of (On i m # ss) = (i, m) # actions_of ss"

fun creates :: "'a step list \<Rightarrow> nat" where
  "creates [] = 0"
| "creates (Create # ss) = Suc (creates ss)"
| "creates (On i m # ss) = creates ss"

fun scoped :: "nat \<Rightarrow> 'a step list \<Rightarrow> bool" where
  "scoped n [] \<longleftrightarrow> True"
| "scoped n (Create # ss) \<longleftrightarrow> scoped (Suc n) ss"
| "scoped n (On i m # ss) \<longleftrightarrow> i < n \<and> scoped n ss"

section \<open>Creation commutes with the calls\<close>

lemma createChannels_Suc: "createChannels (Suc n) = createChannel # createChannels n"
  by (simp add: createChannels_def)

lemma world_call_append:
  "i < length cs \<Longrightarrow>
   world_call (i, m) (cs @ ds) h =
     (ret_of (world_call (i, m) cs h), chan_of (world_call (i, m) cs h) @ ds,
      store_of (world_call (i, m) cs h))"
  by (simp add: world_call_in nth_append list_update_append)

lemma dyn_run_Create: "dyn_run (Create # ss) cs h = dyn_run ss (cs @ [createChannel]) h"
  by (simp split: prod.splits)

lemma dyn_run_On:
  "dyn_run (On i m # ss) cs h =
     (ret_of (world_call (i, m) cs h) #
        ret_of (dyn_run ss (chan_of (world_call (i, m) cs h)) (store_of (world_call (i, m) cs h))),
      snd (dyn_run ss (chan_of (world_call (i, m) cs h)) (store_of (world_call (i, m) cs h))))"
  by (simp split: prod.splits)

declare dyn_run.simps(2) [simp del]

lemma dyn_run_world:
  assumes "scoped (length cs) ss"
  shows "dyn_run ss cs h = world_run (actions_of ss) (cs @ createChannels (creates ss)) h"
  using assms
proof (induction ss arbitrary: cs h)
  case Nil
  show ?case by (simp add: createChannels_def)
next
  case (Cons s ss)
  show ?case
  proof (cases s)
    case Create
    with Cons.prems Cons.IH [of "cs @ [createChannel]" h] show ?thesis
      by (simp add: dyn_run_Create createChannels_Suc)
  next
    case (On i m)
    with Cons.prems have "i < length cs" and "scoped (length cs) ss"
      by simp_all
    with Cons.IH [of "chan_of (world_call (i, m) cs h)" "store_of (world_call (i, m) cs h)"] On
    show ?thesis
      by (simp add: dyn_run_On world_run_Cons world_call_append)
  qed
qed

lemma dyn_run_new:
  "scoped 0 ss \<Longrightarrow> dyn_run ss [] h = world_run (actions_of ss) (createChannels (creates ss)) h"
  using dyn_run_world [of "[]" ss h] by simp

text \<open>
  Claim C23 (equivalence). A program that makes its channels between its calls does
  what the program does that makes them all first: the same results, channels and
  store. Hence every channel it makes keeps its invariant, and the promise of the
  \<open>k\<close>-th \<open>take\<close> on channel \<open>i\<close> is settled as it is when the calls on channel \<open>i\<close> are
  made alone.
\<close>

theorem creation_commutes:
  assumes "scoped 0 ss" and "i < creates ss" and "k < n_takes (calls_on i (actions_of ss))"
  shows "dyn_run ss [] h0 = world_run (actions_of ss) (createChannels (creates ss)) h0 \<and>
    chan_inv (chan_of (dyn_run ss [] h0) ! i) (store_of (dyn_run ss [] h0)) \<and>
    await (taken_on i (actions_of ss) (ret_of (dyn_run ss [] h0)) ! k) (store_of (dyn_run ss [] h0)) =
      await k (store_of (run (calls_on i (actions_of ss)) createChannel []))"
  using world_invariant [OF assms(2), of "actions_of ss" h0]
    world_await [OF assms(2,3), of h0] run_await [OF assms(3), of "[]"]
  by (simp add: dyn_run_new [OF assms(1)])

theorem creation_commutes_witness:
  "scoped 0 [Create, On 0 Take, Create, On 1 (Put (Payload (5::nat))), On 0 (Put (Payload 7))] \<and>
   0 < creates [Create, On 0 Take, Create, On 1 (Put (Payload (5::nat))), On 0 (Put (Payload 7))] \<and>
   0 < n_takes (calls_on 0
     (actions_of [Create, On 0 Take, Create, On 1 (Put (Payload (5::nat))), On 0 (Put (Payload 7))])) \<and>
   await (taken_on 0
       (actions_of [Create, On 0 Take, Create, On 1 (Put (Payload (5::nat))), On 0 (Put (Payload 7))])
       (ret_of (dyn_run [Create, On 0 Take, Create, On 1 (Put (Payload (5::nat))), On 0 (Put (Payload 7))]
          [] [])) ! 0)
     (store_of (dyn_run [Create, On 0 Take, Create, On 1 (Put (Payload (5::nat))), On 0 (Put (Payload 7))]
        [] [])) = Some (Payload 7)"
proof -
  let ?ss = "[Create, On 0 Take, Create, On 1 (Put (Payload (5::nat))), On 0 (Put (Payload 7))]"
  have h: "scoped 0 ?ss" "0 < creates ?ss" "0 < n_takes (calls_on 0 (actions_of ?ss))"
    by (simp_all add: calls_on_def)
  have "await 0 (store_of (run (calls_on 0 (actions_of ?ss)) createChannel [])) = Some (Payload 7)"
    by (simp add: calls_on_def eval_simps)
  moreover from creation_commutes [OF h, of "[]"]
  have "await (taken_on 0 (actions_of ?ss) (ret_of (dyn_run ?ss [] [])) ! 0)
      (store_of (dyn_run ?ss [] [])) =
    await 0 (store_of (run (calls_on 0 (actions_of ?ss)) createChannel []))"
    by (elim conjE)
  ultimately show ?thesis using h by simp
qed

end
