(* ===== verification/Channel_Tasks.thy ===== *)
theory Channel_Tasks
  imports Channel_World "HOL-Library.Multiset"
begin

text \<open>
  Producers and consumers as tasks that share a channel. A task is a straight-line
  program of calls in which every \<open>take\<close> is awaited, as in the \<^verbatim>\<open>async\<close> functions of
  \<^verbatim>\<open>src/__tests__/tests.js\<close>. There is one thread: a step runs one call of one task,
  or resumes a task whose promise is settled, and a task that awaits a pending
  promise cannot run. Which task runs next is left open, so a schedule is any list of
  task numbers. This allows every order in which an engine runs the tasks (an engine
  resumes tasks in the order their promises were settled, and lets a task run on up
  to its next \<^verbatim>\<open>await\<close>), and more.

  The theory shows that, whatever the schedule, the channel is in the state that the
  calls made so far produce when made one after the other; that no value is lost or
  received twice; that no schedule runs for ever; and that a task never waits for
  ever on a closed channel.
\<close>

section \<open>Tasks\<close>

text \<open>
  A task has the calls it has still to make, the promise it awaits if it is
  suspended, and what it has received so far: the promises its calls of \<open>take\<close>
  returned and the values its \<^verbatim>\<open>await\<close>s produced.
\<close>

record 'a task =
  todo :: "'a operation list"
  waiting :: "promise option"
  took :: "promise list"
  got :: "'a jsval list"

definition task0 :: "'a operation list \<Rightarrow> 'a task" where
  "task0 ms = \<lparr>todo = ms, waiting = None, took = [], got = []\<rparr>"

text \<open>
  The program: its tasks, the channel they share, the store, and the calls made so
  far, each with the number of the task that made it.
\<close>

record 'a sys =
  tasks :: "'a task list"
  channel :: "'a chan"
  promises :: "'a jsval store"
  calls :: "'a action list"

definition spawn :: "'a operation list list \<Rightarrow> 'a jsval store \<Rightarrow> 'a sys" where
  "spawn progs h0 = \<lparr>tasks = map task0 progs, channel = createChannel, promises = h0, calls = []\<rparr>"

section \<open>Steps\<close>

text \<open>
  What a task does with the result of a call: it awaits the promise of a \<open>take\<close>,
  it goes on after \<open>put\<close> and \<open>close\<close>, and an exception ends it.
\<close>

fun after :: "js_error + ret \<Rightarrow> 'a task \<Rightarrow> 'a task" where
  "after (Inr (RPromise p)) t = t\<lparr>waiting := Some p, took := took t @ [p]\<rparr>"
| "after (Inr (RBool b)) t = t"
| "after (Inl e) t = t\<lparr>todo := []\<rparr>"

text \<open>
  A step of task \<open>i\<close>. A suspended task is resumed with the value of its promise when
  the promise is settled; a task that is not suspended makes its next call. A task
  that cannot run leaves the program as it is.
\<close>

definition step :: "nat \<Rightarrow> 'a sys \<Rightarrow> 'a sys" where
  "step i s =
     (if i < length (tasks s) then
        (case waiting (tasks s ! i) of
           Some p \<Rightarrow>
             (case await p (promises s) of
                Some v \<Rightarrow>
                  s\<lparr>tasks := (tasks s)[i := (tasks s ! i)\<lparr>waiting := None, got := got (tasks s ! i) @ [v]\<rparr>]\<rparr>
              | None \<Rightarrow> s)
         | None \<Rightarrow>
             (case todo (tasks s ! i) of
                [] \<Rightarrow> s
              | m # ms \<Rightarrow>
                  (case call m (channel s) (promises s) of (r, c', h') \<Rightarrow>
                     s\<lparr>tasks := (tasks s)[i := after r ((tasks s ! i)\<lparr>todo := ms\<rparr>)],
                       channel := c', promises := h', calls := calls s @ [(i, m)]\<rparr>)))
      else s)"

definition enabled :: "'a sys \<Rightarrow> nat \<Rightarrow> bool" where
  "enabled s i \<longleftrightarrow>
     i < length (tasks s) \<and>
     (case waiting (tasks s ! i) of
        Some p \<Rightarrow> await p (promises s) \<noteq> None
      | None \<Rightarrow> todo (tasks s ! i) \<noteq> [])"

text \<open>A schedule, and the number of its steps that ran a task.\<close>

fun exec :: "nat list \<Rightarrow> 'a sys \<Rightarrow> 'a sys" where
  "exec [] s = s"
| "exec (i # is) s = exec is (step i s)"

fun ticks :: "nat list \<Rightarrow> 'a sys \<Rightarrow> nat" where
  "ticks [] s = 0"
| "ticks (i # is) s = (if enabled s i then 1 else 0) + ticks is (step i s)"

text \<open>
  The steps a program has left: one for each call, one more for the \<^verbatim>\<open>await\<close> of a
  \<open>take\<close>.
\<close>

fun cost :: "'a operation \<Rightarrow> nat" where
  "cost Take = 2"
| "cost (Put v) = 1"
| "cost Close = 1"

definition load :: "'a task \<Rightarrow> nat" where
  "load t = sum_list (map cost (todo t)) + (case waiting t of Some p \<Rightarrow> 1 | None \<Rightarrow> 0)"

definition work :: "'a sys \<Rightarrow> nat" where
  "work s = sum_list (map load (tasks s))"

text \<open>The first task that can run, and the tasks that have ended.\<close>

definition pick :: "'a sys \<Rightarrow> nat option" where
  "pick s = List.find (enabled s) [0..<length (tasks s)]"

definition finished :: "'a task \<Rightarrow> bool" where
  "finished t \<longleftrightarrow> todo t = [] \<and> waiting t = None"

section \<open>Where the values are\<close>

text \<open>
  The values the tasks have received, the promises that tasks await, and the values
  of those of them that are settled: values on their way to a task.
\<close>

definition pend :: "'a task \<Rightarrow> promise list" where
  "pend t = (case waiting t of Some p \<Rightarrow> [p] | None \<Rightarrow> [])"

definition received :: "'a sys \<Rightarrow> 'a jsval list" where
  "received s = concat (map got (tasks s))"

definition awaited :: "'a sys \<Rightarrow> promise list" where
  "awaited s = concat (map pend (tasks s))"

definition in_flight :: "'a sys \<Rightarrow> 'a jsval list" where
  "in_flight s = List.map_filter (\<lambda>p. await p (promises s)) (awaited s)"

section \<open>The invariant\<close>

text \<open>
  \<open>linear\<close>: channel and store are those of the sequential run of the log.
  \<open>on_program\<close>: the calls of task \<open>i\<close> in the log, followed by the calls it has still
  to make, are its program, and it holds one promise for each of its takes.
  \<open>owns\<close>: the values a task has received are those of the promises it took, in
  order, and the promise it awaits is the last one it took. \<open>shared\<close>: every promise
  of the channel is held by exactly one task.
\<close>

definition linear :: "'a jsval store \<Rightarrow> 'a sys \<Rightarrow> bool" where
  "linear h0 s \<longleftrightarrow>
     channel s = chan_of (run (map snd (calls s)) createChannel h0) \<and>
     promises s = store_of (run (map snd (calls s)) createChannel h0)"

definition on_program :: "'a operation list list \<Rightarrow> 'a sys \<Rightarrow> bool" where
  "on_program progs s \<longleftrightarrow>
     length (tasks s) = length progs \<and>
     (\<forall>i<length progs.
        calls_on i (calls s) @ todo (tasks s ! i) = progs ! i \<and>
        length (took (tasks s ! i)) = n_takes (calls_on i (calls s)))"

definition settled_part :: "'a task \<Rightarrow> promise list" where
  "settled_part t = (case waiting t of Some p \<Rightarrow> butlast (took t) | None \<Rightarrow> took t)"

definition owns :: "'a jsval store \<Rightarrow> 'a task \<Rightarrow> bool" where
  "owns h t \<longleftrightarrow>
     settled_part t @ pend t = took t \<and>
     map (\<lambda>q. await q h) (settled_part t) = map Some (got t)"

definition shared :: "'a jsval store \<Rightarrow> 'a sys \<Rightarrow> bool" where
  "shared h0 s \<longleftrightarrow>
     mset (concat (map took (tasks s))) =
       mset [length h0..<length h0 + n_takes (map snd (calls s))]"

definition sys_inv :: "'a operation list list \<Rightarrow> 'a jsval store \<Rightarrow> 'a sys \<Rightarrow> bool" where
  "sys_inv progs h0 s \<longleftrightarrow>
     linear h0 s \<and> on_program progs s \<and> list_all (owns (promises s)) (tasks s) \<and> shared h0 s"

section \<open>Steps and the work left\<close>

lemma after_call:
  "after (ret_of (call m c h)) t =
     (case m of Take \<Rightarrow> t\<lparr>waiting := Some (length h), took := took t @ [length h]\<rparr> | _ \<Rightarrow> t)"
  by (cases m) simp_all

lemma step_cases [case_names out blocked resume idle call]:
  obtains (out) "\<not> i < length (tasks s)" and "step i s = s"
  | (blocked) p where "i < length (tasks s)" and "waiting (tasks s ! i) = Some p"
      and "await p (promises s) = None" and "step i s = s"
  | (resume) p v where "i < length (tasks s)" and "waiting (tasks s ! i) = Some p"
      and "await p (promises s) = Some v"
      and "step i s =
        s\<lparr>tasks := (tasks s)[i := (tasks s ! i)\<lparr>waiting := None, got := got (tasks s ! i) @ [v]\<rparr>]\<rparr>"
  | (idle) "i < length (tasks s)" and "waiting (tasks s ! i) = None" and "todo (tasks s ! i) = []"
      and "step i s = s"
  | (call) m ms where "i < length (tasks s)" and "waiting (tasks s ! i) = None"
      and "todo (tasks s ! i) = m # ms"
      and "step i s =
        s\<lparr>tasks := (tasks s)[i := after (ret_of (call m (channel s) (promises s)))
             ((tasks s ! i)\<lparr>todo := ms\<rparr>)],
          channel := chan_of (call m (channel s) (promises s)),
          promises := store_of (call m (channel s) (promises s)),
          calls := calls s @ [(i, m)]\<rparr>"
proof (cases "i < length (tasks s)")
  case False
  then show ?thesis by (intro out) (simp_all add: step_def)
next
  case i: True
  show ?thesis
  proof (cases "waiting (tasks s ! i)")
    case (Some p)
    with i show ?thesis
      by (cases "await p (promises s)") (auto intro: blocked resume simp: step_def)
  next
    case None
    with i show ?thesis
      by (cases "todo (tasks s ! i)") (auto intro: idle call simp: step_def split: prod.splits)
  qed
qed

lemmas task_eval = step_def spawn_def task0_def enabled_def finished_def pick_def

lemma step_disabled: "\<not> enabled s i \<Longrightarrow> step i s = s"
  by (cases i s rule: step_cases) (simp_all add: enabled_def)

lemma work_step: "enabled s i \<Longrightarrow> Suc (work (step i s)) = work s"
proof (cases i s rule: step_cases)
  case (resume p v)
  with sum_list_map_update [of i "tasks s" load
      "(tasks s ! i)\<lparr>waiting := None, got := got (tasks s ! i) @ [v]\<rparr>"]
  show ?thesis by (simp add: work_def load_def)
next
  case (call m ms)
  with sum_list_map_update [of i "tasks s" load
      "after (ret_of (call m (channel s) (promises s))) ((tasks s ! i)\<lparr>todo := ms\<rparr>)"]
  show ?thesis by (cases m) (simp_all add: work_def load_def after_call)
qed (simp_all add: enabled_def)

lemma work_spawn: "work (spawn progs h0) = sum_list (map cost (concat progs))"
  by (induction progs) (simp_all add: work_def spawn_def task0_def load_def)

lemma ticks_work: "ticks is s + work (exec is s) = work s"
proof (induction "is" arbitrary: s)
  case Nil
  show ?case by simp
next
  case (Cons i "is")
  from Cons [of "step i s"] work_step [of s i] step_disabled [of s i] show ?case
    by (cases "enabled s i") simp_all
qed


section \<open>Every schedule keeps the invariant\<close>

lemma sys_inv_spawn: "sys_inv progs h0 (spawn progs h0)"
  by (simp add: sys_inv_def linear_def on_program_def shared_def spawn_def task0_def owns_def
      pend_def settled_part_def run_Nil calls_on_def list_all_iff)

lemma linear_step: "linear h0 s \<Longrightarrow> linear h0 (step i s)"
  by (cases i s rule: step_cases) (simp_all add: linear_def run_snoc)

lemma on_program_step:
  assumes "on_program progs s"
  shows "on_program progs (step i s)"
proof (cases i s rule: step_cases)
  case (resume p v)
  with assms show ?thesis by (simp add: on_program_def nth_list_update)
next
  case (call m ms)
  with assms show ?thesis
    by (cases m) (auto simp: on_program_def nth_list_update calls_on_snoc after_call hist_simps)
qed (simp_all add: assms)

lemma settled_stable:
  "map (\<lambda>q. await q h) ps = map Some vs \<Longrightarrow> store_le h h' \<Longrightarrow>
   map (\<lambda>q. await q h') ps = map Some vs"
  by (induction ps arbitrary: vs) (auto intro: store_le_await)

lemma owns_mono: "owns h t \<Longrightarrow> store_le h h' \<Longrightarrow> owns h' t"
  unfolding owns_def by (blast intro: settled_stable)

lemma owns_resume:
  assumes "owns h t" and "waiting t = Some p" and "await p h = Some v"
  shows "owns h (t\<lparr>waiting := None, got := got t @ [v]\<rparr>)"
proof -
  from assms have "map (\<lambda>q. await q h) (butlast (took t) @ [p]) = map Some (got t) @ [Some v]"
    by (simp add: owns_def settled_part_def)
  moreover from assms have "butlast (took t) @ [p] = took t"
    by (simp add: owns_def settled_part_def pend_def)
  ultimately show ?thesis by (simp add: owns_def settled_part_def pend_def)
qed

lemma owns_after:
  assumes "owns h' t" and "waiting t = None"
  shows "owns h' (after (ret_of (call m c h)) (t\<lparr>todo := ms\<rparr>))"
  using assms by (cases m) (simp_all add: owns_def settled_part_def pend_def after_call)

lemma owns_step:
  assumes "list_all (owns (promises s)) (tasks s)"
  shows "list_all (owns (promises (step i s))) (tasks (step i s))"
proof (cases i s rule: step_cases)
  case (resume p v)
  with assms have "owns (promises s) (tasks s ! i)" by (simp add: list_all_length)
  with resume assms show ?thesis by (simp add: list_all_update owns_resume)
next
  case (call m ms)
  let ?h = "store_of (call m (channel s) (promises s))"
  from assms have all: "list_all (owns ?h) (tasks s)"
    by (auto simp: list_all_iff intro: owns_mono store_le_call)
  with call have "owns ?h (tasks s ! i)" by (simp add: list_all_length)
  with call all show ?thesis by (simp add: list_all_update owns_after)
qed (simp_all add: assms)

lemma mset_took:
  "mset (concat (map took ts)) = sum_list (map (\<lambda>t. mset (took t)) ts)"
  by (induction ts) simp_all

lemma shared_step:
  assumes "shared h0 s" and "linear h0 s"
  shows "shared h0 (step i s)"
proof (cases i s rule: step_cases)
  case (resume p v)
  with assms(1) sum_list_map_update [of i "tasks s" "\<lambda>t. mset (took t)"
      "(tasks s ! i)\<lparr>waiting := None, got := got (tasks s ! i) @ [v]\<rparr>"]
  show ?thesis by (simp add: shared_def mset_took)
next
  case (call m ms)
  from assms(2) have len: "length (promises s) = length h0 + n_takes (map snd (calls s))"
    by (simp add: linear_def length_run)
  from call assms(1) len sum_list_map_update [of i "tasks s" "\<lambda>t. mset (took t)"
      "after (ret_of (call m (channel s) (promises s))) ((tasks s ! i)\<lparr>todo := ms\<rparr>)"]
  show ?thesis by (cases m) (simp_all add: shared_def mset_took after_call hist_simps)
qed (simp_all add: assms)

lemma sys_inv_step: "sys_inv progs h0 s \<Longrightarrow> sys_inv progs h0 (step i s)"
  by (simp add: sys_inv_def linear_step on_program_step owns_step shared_step)

lemma sys_inv_exec: "sys_inv progs h0 s \<Longrightarrow> sys_inv progs h0 (exec is s)"
  by (induction "is" arbitrary: s) (simp_all add: sys_inv_step)

lemma reachable_inv: "sys_inv progs h0 (exec is (spawn progs h0))"
  by (rule sys_inv_exec) (rule sys_inv_spawn)

section \<open>The log is a sequential run\<close>


section \<open>Conservation of values\<close>

lemma owns_took:
  "owns h t \<Longrightarrow>
   map (\<lambda>q. await q h) (took t) = map Some (got t) @ map (\<lambda>q. await q h) (pend t)"
proof -
  assume "owns h t"
  then have e: "settled_part t @ pend t = took t"
    and m: "map (\<lambda>q. await q h) (settled_part t) = map Some (got t)"
    by (simp_all add: owns_def)
  have "map (\<lambda>q. await q h) (took t) = map (\<lambda>q. await q h) (settled_part t @ pend t)"
    by (simp only: e)
  with m show ?thesis by simp
qed

lemma all_took:
  "list_all (owns h) ts \<Longrightarrow>
   mset (map (\<lambda>q. await q h) (concat (map took ts))) =
     mset (map Some (concat (map got ts))) + mset (map (\<lambda>q. await q h) (concat (map pend ts)))"
  by (induction ts) (simp_all add: owns_took)

lemma mset_map_filter:
  "mset xs = mset ys \<Longrightarrow> mset (List.map_filter f xs) = mset (List.map_filter f ys)"
proof -
  assume "mset xs = mset ys"
  then have "image_mset (the \<circ> f) (filter_mset (\<lambda>x. f x \<noteq> None) (mset xs)) =
      image_mset (the \<circ> f) (filter_mset (\<lambda>x. f x \<noteq> None) (mset ys))"
    by simp
  then show ?thesis by (simp add: map_filter_def)
qed

lemma map_filter_Some: "List.map_filter Some xs = xs"
  by (induction xs) simp_all

lemma map_filter_id_map: "List.map_filter id (map f xs) = List.map_filter f xs"
  by (induction xs) (simp_all split: option.splits)

lemma map_filter_append: "List.map_filter f (xs @ ys) = List.map_filter f xs @ List.map_filter f ys"
  by (simp add: map_filter_def)

lemma map_filter_replicate:
  "List.map_filter id (replicate n x) = (case x of Some v \<Rightarrow> replicate n v | None \<Rightarrow> [])"
  by (induction n) (simp_all split: option.splits)

lemma take_outcomes:
  "map (take_outcome ms) [0..<n] =
     map Some (take n (accepted_of ms)) @
     replicate (n - length (accepted_of ms)) (if closes ms then Some CLOSED else None)"
  by (auto simp: list_eq_iff_nth_eq take_outcome_def nth_append)

lemma promised:
  "linear h0 s \<Longrightarrow>
   map (\<lambda>q. await q (promises s)) [length h0..<length h0 + n_takes (map snd (calls s))] =
     map (take_outcome (map snd (calls s))) [0..<n_takes (map snd (calls s))]"
  unfolding linear_def by (auto intro!: nth_equalityI simp: run_await)

lemma outcomes_split:
  assumes "sys_inv progs h0 s"
  shows "mset (map Some (received s) @ map (\<lambda>q. await q (promises s)) (awaited s)) =
    mset (map (take_outcome (map snd (calls s))) [0..<n_takes (map snd (calls s))])"
proof -
  let ?f = "\<lambda>q. await q (promises s)"
  let ?n = "n_takes (map snd (calls s))"
  from assms have inv: "list_all (owns (promises s)) (tasks s)" "linear h0 s" "shared h0 s"
    by (simp_all add: sys_inv_def)
  have "mset (map Some (received s) @ map ?f (awaited s)) =
      mset (map ?f (concat (map took (tasks s))))"
    unfolding received_def awaited_def mset_append by (rule all_took [OF inv(1), symmetric])
  also have "\<dots> = image_mset ?f (mset (concat (map took (tasks s))))"
    by (rule mset_map)
  also from inv(3) have "\<dots> = image_mset ?f (mset [length h0..<length h0 + ?n])"
    unfolding shared_def by (rule arg_cong)
  also have "\<dots> = mset (map ?f [length h0..<length h0 + ?n])"
    by (rule mset_map [symmetric])
  also have "\<dots> = mset (map (take_outcome (map snd (calls s))) [0..<?n])"
    by (simp only: promised [OF inv(2)])
  finally show ?thesis .
qed

text \<open>
  Claim C11 (safety). No value is lost and none is received twice. After any
  schedule, the values the tasks have received, the values of settled promises that
  tasks still await and the values in the buffer are together the values that \<open>put\<close>
  accepted, and one \<open>CLOSED\<close> for each \<open>take\<close> beyond them once the channel is closed.
\<close>

theorem values_conserved:
  "mset (received (exec is (spawn progs h0))) + mset (in_flight (exec is (spawn progs h0))) +
     mset (messageQueue (channel (exec is (spawn progs h0)))) =
   mset (accepted_of (map snd (calls (exec is (spawn progs h0))))) +
     replicate_mset
       (if Close \<in> set (map snd (calls (exec is (spawn progs h0))))
        then n_takes (map snd (calls (exec is (spawn progs h0)))) -
          length (accepted_of (map snd (calls (exec is (spawn progs h0)))))
        else 0) CLOSED"
proof -
  let ?s = "exec is (spawn progs h0)"
  let ?ms = "map snd (calls ?s)"
  have inv: "sys_inv progs h0 ?s" by (rule reachable_inv)
  from mset_map_filter [OF outcomes_split [OF inv], of id]
  have "mset (received ?s) + mset (in_flight ?s) =
      mset (take (n_takes ?ms) (accepted_of ?ms)) +
      replicate_mset (if closes ?ms then n_takes ?ms - length (accepted_of ?ms) else 0) CLOSED"
    by (simp add: take_outcomes map_filter_append map_filter_Some map_filter_id_map
        map_filter_replicate in_flight_def)
  moreover from inv have "messageQueue (channel ?s) = drop (n_takes ?ms) (accepted_of ?ms)"
    by (simp add: sys_inv_def linear_def run_messageQueue)
  moreover have "mset (take (n_takes ?ms) (accepted_of ?ms)) + mset (drop (n_takes ?ms) (accepted_of ?ms)) =
      mset (accepted_of ?ms)"
    by (simp flip: mset_append)
  ultimately show ?thesis by (simp add: closes_iff ac_simps)
qed

section \<open>No deadlock on a closed channel\<close>

lemma waiting_took: "owns h t \<Longrightarrow> waiting t = Some p \<Longrightarrow> p \<in> set (took t)"
proof -
  assume "owns h t" and "waiting t = Some p"
  then have "set (settled_part t @ [p]) = set (took t)" by (simp add: owns_def pend_def)
  then show ?thesis by auto
qed

lemma waiting_issued:
  assumes "sys_inv progs h0 s" and "i < length progs" and "waiting (tasks s ! i) = Some p"
  shows "length h0 \<le> p \<and> p < length h0 + n_takes (map snd (calls s))"
proof -
  from assms have t: "tasks s ! i \<in> set (tasks s)" and "owns (promises s) (tasks s ! i)"
    by (simp_all add: sys_inv_def on_program_def list_all_length)
  with assms(3) have "p \<in> set (took (tasks s ! i))" by (intro waiting_took)
  with t have "p \<in> set (concat (map took (tasks s)))" by auto
  then have "p \<in># mset (concat (map took (tasks s)))" by simp
  with assms(1) show ?thesis by (simp add: sys_inv_def shared_def del: set_mset_mset mset_concat)
qed

lemma closed_progress:
  assumes inv: "sys_inv progs h0 s" and closed: "isClosed (channel s)" and i: "i < length progs"
  shows "finished (tasks s ! i) \<or> enabled s i"
proof (cases "waiting (tasks s ! i)")
  case None
  with i inv show ?thesis
    by (auto simp: finished_def enabled_def sys_inv_def on_program_def)
next
  case (Some p)
  from waiting_issued [OF inv i Some]
  obtain k where k: "p = length h0 + k" "k < n_takes (map snd (calls s))"
    by (auto simp: le_iff_add)
  from inv closed have "closes (map snd (calls s))"
    by (simp add: sys_inv_def linear_def run_isClosed)
  with k inv have "await p (promises s) \<noteq> None"
    by (simp add: sys_inv_def linear_def run_await take_outcome_def)
  with Some inv i show ?thesis
    by (simp add: enabled_def sys_inv_def on_program_def)
qed

text \<open>
  Claim C18 (liveness). No task waits for ever on a closed channel: after any
  schedule that leaves the channel closed, every task has ended or can run.
\<close>

theorem closed_never_deadlocks:
  assumes "isClosed (channel (exec is (spawn progs h0)))" and "i < length progs"
  shows "finished (tasks (exec is (spawn progs h0)) ! i) \<or> enabled (exec is (spawn progs h0)) i"
  using reachable_inv assms by (rule closed_progress)

theorem closed_never_deadlocks_witness:
  "isClosed (channel (exec [0, 1] (spawn [[Take], [Close :: nat operation]] []))) \<and>
   (0::nat) < length [[Take], [Close :: nat operation]] \<and>
   \<not> finished (tasks (exec [0, 1] (spawn [[Take], [Close :: nat operation]] [])) ! 0) \<and>
   enabled (exec [0, 1] (spawn [[Take], [Close :: nat operation]] [])) 0"
  using closed_never_deadlocks [of "[0, 1]" "[[Take], [Close :: nat operation]]" "[]" 0]
  by (simp add: task_eval eval_simps)

section \<open>Quiescent states\<close>

lemma pick_Some: "pick s = Some i \<Longrightarrow> enabled s i"
  by (auto simp: pick_def find_Some_iff)

lemma pick_None: "pick s = None \<longleftrightarrow> (\<forall>i<length (tasks s). \<not> enabled s i)"
  by (auto simp: pick_def find_None_iff)

lemma n_takes_0: "Take \<notin> set ms \<Longrightarrow> n_takes ms = 0"
  by (induction ms rule: n_takes.induct) simp_all

lemma producer_never_waits:
  assumes inv: "sys_inv progs h0 s" and i: "i < length progs" and "Take \<notin> set (progs ! i)"
  shows "waiting (tasks s ! i) = None"
proof -
  from inv i have p: "calls_on i (calls s) @ todo (tasks s ! i) = progs ! i"
    and l: "length (took (tasks s ! i)) = n_takes (calls_on i (calls s))"
    and o: "owns (promises s) (tasks s ! i)"
    by (simp_all add: sys_inv_def on_program_def list_all_length)
  from p assms(3) have "Take \<notin> set (calls_on i (calls s))"
    by (metis Un_iff set_append)
  with l have "took (tasks s ! i) = []" by (simp add: n_takes_0)
  with o show ?thesis by (simp add: owns_def pend_def split: option.splits)
qed

lemma closer_closes:
  assumes inv: "sys_inv progs h0 s" and i: "i < length progs" and "Take \<notin> set (progs ! i)"
    and "Close \<in> set (progs ! i)" and q: "pick s = None"
  shows "isClosed (channel s)"
proof -
  from inv i q have "\<not> enabled s i" by (simp add: pick_None sys_inv_def on_program_def)
  with producer_never_waits [OF assms(1-3)] inv i have "todo (tasks s ! i) = []"
    by (simp add: enabled_def sys_inv_def on_program_def)
  with inv i have "calls_on i (calls s) = progs ! i"
    by (auto simp: sys_inv_def on_program_def)
  with assms(4) have "Close \<in> set (calls_on i (calls s))" by simp
  then have "Close \<in> set (map snd (calls s))" by (auto simp: calls_on_def)
  with inv show ?thesis by (simp add: sys_inv_def linear_def run_isClosed closes_iff)
qed

lemma quiescent_finished:
  assumes inv: "sys_inv progs h0 s" and "isClosed (channel s)" and q: "pick s = None"
  shows "list_all finished (tasks s)"
proof -
  have "finished (tasks s ! i)" if "i < length progs" for i
    using closed_progress [OF assms(1,2) that] q inv that
    by (simp add: pick_None sys_inv_def on_program_def)
  with inv show ?thesis by (simp add: list_all_length sys_inv_def on_program_def)
qed

section \<open>What a scheduler may rely on\<close>

text \<open>
  The facts that a scheduler of the tasks needs of a step and of the invariant: what a
  step leaves as it is, that schedules compose, that a promise is awaited by one task
  only, and that the settled promises of the channel are older than the pending ones.
\<close>

lemma exec_append: "exec (is @ js) s = exec js (exec is s)"
  by (induction "is" arbitrary: s) simp_all

lemma step_frame:
  "length (tasks (step i s)) = length (tasks s)"
  "j \<noteq> i \<Longrightarrow> tasks (step i s) ! j = tasks s ! j"
  "store_le (promises s) (promises (step i s))"
  by (cases i s rule: step_cases; simp add: store_le_call)+

lemma step_call:
  "i < length (tasks s) \<Longrightarrow> waiting (tasks s ! i) = None \<Longrightarrow> todo (tasks s ! i) = m # ms \<Longrightarrow>
   step i s =
     s\<lparr>tasks := (tasks s)[i := after (ret_of (call m (channel s) (promises s)))
          ((tasks s ! i)\<lparr>todo := ms\<rparr>)],
       channel := chan_of (call m (channel s) (promises s)),
       promises := store_of (call m (channel s) (promises s)),
       calls := calls s @ [(i, m)]\<rparr>"
  by (simp add: step_def split: prod.splits)

lemma step_resume:
  "i < length (tasks s) \<Longrightarrow> waiting (tasks s ! i) = Some p \<Longrightarrow> await p (promises s) = Some v \<Longrightarrow>
   step i s =
     s\<lparr>tasks := (tasks s)[i := (tasks s ! i)\<lparr>waiting := None, got := got (tasks s ! i) @ [v]\<rparr>]\<rparr>"
  by (simp add: step_def)

lemma call_waiting:
  assumes "i < length (tasks s)" and "waiting (tasks s ! i) = None" and "todo (tasks s ! i) = m # ms"
  shows "waiting (tasks (step i s) ! i) = (if m = Take then Some (length (promises s)) else None)"
  using assms by (cases m) (simp_all add: step_call after_call)

lemma sys_chan_inv: "sys_inv progs h0 s \<Longrightarrow> chan_inv (channel s) (promises s)"
  using run_chan_inv [OF chan_inv_create, of "map snd (calls s)" h0]
  by (simp add: sys_inv_def linear_def)

lemma sys_length: "sys_inv progs h0 s \<Longrightarrow> length (tasks s) = length progs"
  by (simp add: sys_inv_def on_program_def)

lemma sys_owns: "sys_inv progs h0 s \<Longrightarrow> j < length progs \<Longrightarrow> owns (promises s) (tasks s ! j)"
  by (simp add: sys_inv_def on_program_def list_all_length)

lemma waiting_lt:
  assumes "sys_inv progs h0 s" and "j < length progs" and "waiting (tasks s ! j) = Some p"
  shows "p < length (promises s)"
  using waiting_issued [OF assms] assms(1) by (simp add: sys_inv_def linear_def length_run)

lemma one_waiter:
  assumes inv: "sys_inv progs h0 s" and "j < length progs" and "k < length progs"
    and "waiting (tasks s ! j) = Some r" and "waiting (tasks s ! k) = Some r"
  shows "j = k"
proof -
  from inv have "mset (concat (map took (tasks s))) =
      mset [length h0..<length h0 + n_takes (map snd (calls s))]"
    by (simp add: sys_inv_def shared_def)
  then have "distinct (concat (map took (tasks s)))"
    by (metis distinct_upt mset_eq_imp_distinct_iff)
  moreover from assms have "r \<in> set (map took (tasks s) ! j)" "r \<in> set (map took (tasks s) ! k)"
    by (simp_all add: sys_length waiting_took [OF sys_owns])
  ultimately show ?thesis using assms(2,3) inv
    by (intro distinct_concat_nth [of "map took (tasks s)" j k r]) (simp_all add: sys_length)
qed

lemma settled_lt_pending:
  assumes "linear h0 s" and "length h0 \<le> p" and "await p (promises s) \<noteq> None"
    and "length h0 \<le> r" and "pending (promises s) r"
  shows "p < r"
proof -
  let ?ms = "map snd (calls s)"
  from assms obtain k l where k: "p = length h0 + k" "k < n_takes ?ms"
    and l: "r = length h0 + l" "l < n_takes ?ms"
    by (auto simp: linear_def length_run await_def pending_def le_iff_add split: if_splits)
  from assms(5) have "await r (promises s) = None" by (rule await_pending)
  with assms(1,3) k l have "take_outcome ?ms k \<noteq> None" and "take_outcome ?ms l = None"
    by (simp_all add: linear_def run_await)
  with k l show ?thesis by (auto simp: take_outcome_def split: if_splits)
qed

lemma sys_resolveQueue:
  "linear h0 s \<Longrightarrow>
   resolveQueue (channel s) =
     [length h0 + length (accepted_of (map snd (calls s)))..<
      length h0 + open_takes_of (map snd (calls s))]"
  by (simp add: linear_def run_resolveQueue)

end
