(* ===== verification/Channel_Engine.thy ===== *)
theory Channel_Engine
  imports Channel_Tasks
begin

text \<open>
  The run-time under the tasks: the job queue of promise reactions. \<^verbatim>\<open>Channel_Tasks\<close>
  leaves open which task runs next. An engine does not. A task that runs goes on, call
  after call, up to its next \<^verbatim>\<open>await\<close>; the rest of the task after that \<^verbatim>\<open>await\<close> is a
  job; the job joins the end of one queue when the promise is settled, or at the
  \<^verbatim>\<open>await\<close> when the promise is settled already; and when the running task has stopped,
  the engine runs the job at the front of the queue.

  A state of the engine is the state of the tasks with the queue of jobs, the task that
  runs, and a log of the promises whose continuations have run. \<open>tick\<close> is one step of the
  engine. The calls that settle promises are \<open>put\<close> and \<open>close\<close> of \<^verbatim>\<open>src/index.js\<close>:
  \<open>put_settles\<close> and \<open>close_settles\<close> name the resolvers that these two functions call,
  in the order in which they call them.

  The theory shows that every state the engine reaches satisfies \<open>engine_inv\<close>: the
  tasks are in a state of some schedule of \<^verbatim>\<open>Channel_Tasks\<close>, every task that can run
  is in the queue or is running (no wake-up is lost), no task is in the queue twice, and
  continuations run in the order in which the promises were made by \<open>take\<close>.
\<close>

section \<open>States\<close>

text \<open>
  \<open>jobs\<close> is the queue, oldest job first; a job is named by its task. \<open>running\<close> is the
  task that has the thread. \<open>served\<close> lists the promises whose continuations have been
  taken from the queue, in that order. At the start every task is a job, in the order
  of the programs: the functions are called one after the other.
\<close>

record 'a engine =
  program :: "'a sys"
  jobs :: "nat list"
  running :: "nat option"
  served :: "promise list"

definition boot :: "'a operation list list \<Rightarrow> 'a jsval store \<Rightarrow> 'a engine" where
  "boot progs h0 =
     \<lparr>program = spawn progs h0, jobs = [0..<length progs], running = None, served = []\<rparr>"

section \<open>The jobs a call makes\<close>

text \<open>
  \<open>put\<close> calls the oldest resolver of \<open>resolveQueue\<close> when the channel is open and a
  consumer waits; \<open>close\<close> calls every resolver of \<open>resolveQueue\<close>, in the order of the
  queue, when the channel is open; \<open>take\<close> calls none. A resolver that is called makes a
  job of the task that awaits its promise. A task that awaits a settled promise, as
  after a \<open>take\<close> from the buffer or from a closed channel, makes a job of itself.
\<close>

definition put_settles :: "'a chan \<Rightarrow> resolver list" where
  "put_settles c = (if isClosed c then [] else take 1 (resolveQueue c))"

definition close_settles :: "'a chan \<Rightarrow> resolver list" where
  "close_settles c = (if isClosed c then [] else resolveQueue c)"

definition settled_by :: "'a operation \<Rightarrow> 'a chan \<Rightarrow> resolver list" where
  "settled_by m c = (case m of Put v \<Rightarrow> put_settles c | Take \<Rightarrow> [] | Close \<Rightarrow> close_settles c)"

definition waiters :: "'a sys \<Rightarrow> promise \<Rightarrow> nat list" where
  "waiters s r = filter (\<lambda>j. waiting (tasks s ! j) = Some r) [0..<length (tasks s)]"

definition woken :: "'a operation \<Rightarrow> 'a sys \<Rightarrow> nat list" where
  "woken m s = concat (map (waiters s) (settled_by m (channel s)))"

definition ready :: "'a sys \<Rightarrow> nat \<Rightarrow> nat list" where
  "ready s i =
     (case waiting (tasks s ! i) of
        Some p \<Rightarrow> if await p (promises s) = None then [] else [i]
      | None \<Rightarrow> [])"

definition wakes :: "nat \<Rightarrow> 'a operation \<Rightarrow> 'a sys \<Rightarrow> nat list" where
  "wakes i m s = woken m s @ ready (step i s) i"

section \<open>Ticks\<close>

text \<open>
  When a task runs and has a call to make, the tick is that call, and the jobs the call
  makes join the queue. When the running task awaits or has ended, the tick gives up the
  thread. When no task runs, the tick takes the oldest job: a task that awaited receives
  the value of its promise, and a task that has not started starts. \<open>engine_run n\<close> is
  \<open>n\<close> ticks.
\<close>

definition resume :: "nat \<Rightarrow> 'a sys \<Rightarrow> 'a sys" where
  "resume i s = (case pend (tasks s ! i) of [] \<Rightarrow> s | p # ps \<Rightarrow> step i s)"

definition can_call :: "'a sys \<Rightarrow> nat \<Rightarrow> bool" where
  "can_call s i \<longleftrightarrow>
     i < length (tasks s) \<and> waiting (tasks s ! i) = None \<and> todo (tasks s ! i) \<noteq> []"

definition tick :: "'a engine \<Rightarrow> 'a engine" where
  "tick e =
     (case running e of
        Some i \<Rightarrow>
          if can_call (program e) i
          then e\<lparr>program := step i (program e),
                 jobs := jobs e @ wakes i (hd (todo (tasks (program e) ! i))) (program e)\<rparr>
          else e\<lparr>running := None\<rparr>
      | None \<Rightarrow>
          (case jobs e of
             [] \<Rightarrow> e
           | i # js \<Rightarrow>
               e\<lparr>program := resume i (program e), jobs := js, running := Some i,
                 served := served e @ pend (tasks (program e) ! i)\<rparr>))"

definition engine_run :: "nat \<Rightarrow> 'a engine \<Rightarrow> 'a engine" where
  "engine_run n e = (tick ^^ n) e"

section \<open>The invariant\<close>

text \<open>
  \<open>awaits s js\<close> lists the promises that the tasks \<open>js\<close> await, and \<open>queued\<close> those of
  the jobs. The invariant has five parts: the invariant of the tasks; \<open>jobs_ok\<close>, no
  task is queued twice; \<open>no_lost\<close>, a task that can run is queued or running; \<open>run_ok\<close>,
  the running task is not queued unless it awaits; and \<open>fifo\<close>, the promises whose
  continuations have run or are queued are settled, and were made by \<open>take\<close> in the
  order in which they are served.
\<close>

definition awaits :: "'a sys \<Rightarrow> nat list \<Rightarrow> promise list" where
  "awaits s js = concat (map (\<lambda>j. pend (tasks s ! j)) js)"

definition queued :: "'a engine \<Rightarrow> promise list" where
  "queued e = awaits (program e) (jobs e)"

definition jobs_ok :: "nat \<Rightarrow> 'a engine \<Rightarrow> bool" where
  "jobs_ok n e \<longleftrightarrow> distinct (jobs e) \<and> list_all (\<lambda>j. j < n) (jobs e)"

definition no_lost :: "nat \<Rightarrow> 'a engine \<Rightarrow> bool" where
  "no_lost n e \<longleftrightarrow>
     (\<forall>j<n. enabled (program e) j \<longrightarrow>
        j \<in> set (jobs e) \<or> (running e = Some j \<and> waiting (tasks (program e) ! j) = None))"

definition run_ok :: "nat \<Rightarrow> 'a engine \<Rightarrow> bool" where
  "run_ok n e \<longleftrightarrow>
     (case running e of
        Some i \<Rightarrow> i < n \<and> (waiting (tasks (program e) ! i) = None \<longrightarrow> i \<notin> set (jobs e))
      | None \<Rightarrow> True)"

definition fifo :: "'a jsval store \<Rightarrow> 'a engine \<Rightarrow> bool" where
  "fifo h0 e \<longleftrightarrow>
     sorted_wrt (<) (served e @ queued e) \<and>
     list_all (\<lambda>p. length h0 \<le> p \<and> await p (promises (program e)) \<noteq> None) (served e @ queued e)"

definition engine_inv :: "'a operation list list \<Rightarrow> 'a jsval store \<Rightarrow> 'a engine \<Rightarrow> bool" where
  "engine_inv progs h0 e \<longleftrightarrow>
     sys_inv progs h0 (program e) \<and> jobs_ok (length progs) e \<and> no_lost (length progs) e \<and>
     run_ok (length progs) e \<and> fifo h0 e"

lemmas settled_by_defs = settled_by_def put_settles_def close_settles_def

lemmas engine_eval = engine_run_def tick_def boot_def can_call_def resume_def wakes_def
  woken_def waiters_def settled_by_defs ready_def pend_def upt_conv_Cons

section \<open>Ticks are steps of the tasks\<close>

lemma tick_cases [case_names idle pop call yield]:
  obtains (idle) "running e = None" and "jobs e = []" and "tick e = e"
  | (pop) i js where "running e = None" and "jobs e = i # js"
      and "tick e = e\<lparr>program := resume i (program e), jobs := js, running := Some i,
        served := served e @ pend (tasks (program e) ! i)\<rparr>"
  | (call) i m ms where "running e = Some i" and "i < length (tasks (program e))"
      and "waiting (tasks (program e) ! i) = None" and "todo (tasks (program e) ! i) = m # ms"
      and "tick e = e\<lparr>program := step i (program e), jobs := jobs e @ wakes i m (program e)\<rparr>"
  | (yield) i where "running e = Some i" and "\<not> can_call (program e) i"
      and "tick e = e\<lparr>running := None\<rparr>"
proof (cases "running e")
  case None
  then show ?thesis by (cases "jobs e") (auto intro: idle pop simp: tick_def)
next
  case (Some i)
  show ?thesis
  proof (cases "can_call (program e) i")
    case True
    then obtain m ms where "todo (tasks (program e) ! i) = m # ms"
      by (auto simp: can_call_def neq_Nil_conv)
    with True Some show ?thesis by (intro call [of i m ms]) (simp_all add: tick_def can_call_def)
  next
    case False
    with Some show ?thesis by (intro yield [of i]) (simp_all add: tick_def)
  qed
qed

lemma resume_step: "resume i s = s \<or> resume i s = step i s"
  by (simp add: resume_def split: list.splits)

lemma tick_exec: "\<exists>is. program (tick e) = exec is (program e)"
proof (cases e rule: tick_cases)
  case idle
  then have "program (tick e) = exec [] (program e)" by simp
  then show ?thesis ..
next
  case (pop i js)
  with resume_step [of i "program e"]
  have "program (tick e) = exec [] (program e) \<or> program (tick e) = exec [i] (program e)" by auto
  then show ?thesis by blast
next
  case (call i m ms)
  then have "program (tick e) = exec [i] (program e)" by simp
  then show ?thesis ..
next
  case (yield i)
  then have "program (tick e) = exec [] (program e)" by simp
  then show ?thesis ..
qed

lemma engine_run_exec: "\<exists>is. program (engine_run n e) = exec is (program e)"
proof (induction n)
  case 0
  have "program (engine_run 0 e) = exec [] (program e)" by (simp add: engine_run_def)
  then show ?case ..
next
  case (Suc n)
  then obtain "is" where "program (engine_run n e) = exec is (program e)" ..
  moreover obtain js where "program (tick (engine_run n e)) = exec js (program (engine_run n e))"
    using tick_exec ..
  ultimately have "program (engine_run (Suc n) e) = exec (is @ js) (program e)"
    by (simp add: engine_run_def exec_append)
  then show ?case ..
qed

section \<open>The promises a call settles\<close>

text \<open>
  A call settles, of the promises that exist, those of the resolvers that it calls and
  no other; the resolvers it calls are waiters of the channel, so their promises are
  pending, and they are in the order in which \<open>take\<close> made them.
\<close>

lemma settled_call:
  assumes "chan_inv c h" and "q < length h"
  shows "await q (store_of (call m c h)) \<noteq> None \<longleftrightarrow> await q h \<noteq> None \<or> q \<in> set (settled_by m c)"
proof (cases m)
  case (Put v)
  show ?thesis
  proof (cases c rule: producer_cases)
    case (handoff r rs)
    with assms(1) have "pending h r" by (auto dest: waiters_pending)
    with handoff Put show ?thesis
      by (auto simp: settled_by_defs put_simps await_resolve_fn)
  qed (simp_all add: Put settled_by_defs put_simps)
next
  case Take
  with assms(2) show ?thesis
    by (cases c rule: consumer_cases) (simp_all add: settled_by_defs take_simps await_snoc)
next
  case Close
  with assms(1) show ?thesis
    by (cases "isClosed c")
      (auto simp: settled_by_defs close_simps await_settle_all dest: waiters_pending)
qed

lemma settled_by_queue: "set (settled_by m c) \<subseteq> set (resolveQueue c)"
  by (cases m) (auto simp: settled_by_defs dest: in_set_takeD)

lemma settled_by_pending:
  "chan_inv c h \<Longrightarrow> r \<in> set (settled_by m c) \<Longrightarrow> pending h r"
  using settled_by_queue [of m c]
  by (cases m; cases "isClosed c") (auto simp: settled_by_defs dest: waiters_pending)

lemma settled_by_sorted:
  assumes "linear h0 s"
  shows "sorted_wrt (<) (settled_by m (channel s)) \<and> (\<forall>r \<in> set (settled_by m (channel s)). length h0 \<le> r)"
proof -
  have "sorted_wrt (<) (resolveQueue (channel s))" and "\<forall>r \<in> set (resolveQueue (channel s)). length h0 \<le> r"
    by (simp_all add: sys_resolveQueue [OF assms] sorted_wrt_upt)
  then show ?thesis
    using settled_by_queue [of m "channel s"]
    by (cases m) (auto simp: settled_by_defs sorted_wrt_take)
qed

lemma call_settles:
  assumes "sys_inv progs h0 s" and "i < length (tasks s)" and "waiting (tasks s ! i) = None"
    and "todo (tasks s ! i) = m # ms" and "q < length (promises s)"
  shows "await q (promises (step i s)) \<noteq> None \<longleftrightarrow>
    await q (promises s) \<noteq> None \<or> q \<in> set (settled_by m (channel s))"
  using settled_call [OF sys_chan_inv [OF assms(1)] assms(5), of m] assms(2-4)
  by (simp add: step_call)

section \<open>The tasks a call wakes\<close>

text \<open>
  The promises that a list of tasks awaits; the tasks that a call wakes are as many as
  the promises it settles that are awaited, each once, and they await these promises
  in the order in which the call settles them.
\<close>

lemma awaits_simps [simp]:
  "awaits s [] = []"
  "awaits s (j # js) = pend (tasks s ! j) @ awaits s js"
  "awaits s (js @ ks) = awaits s js @ awaits s ks"
  by (simp_all add: awaits_def)

lemma awaits_cong:
  "(\<And>j. j \<in> set js \<Longrightarrow> tasks s' ! j = tasks s ! j) \<Longrightarrow> awaits s' js = awaits s js"
  unfolding awaits_def by (intro arg_cong [where f = concat] map_cong refl) simp

lemma awaits_concat: "awaits s (concat jss) = concat (map (awaits s) jss)"
  by (induction jss) simp_all

lemma in_awaits: "p \<in> set (awaits s js) \<longleftrightarrow> (\<exists>j \<in> set js. waiting (tasks s ! j) = Some p)"
  by (induction js) (auto simp: pend_def split: option.splits)

lemma waiters_iff:
  "j \<in> set (waiters s r) \<longleftrightarrow> j < length (tasks s) \<and> waiting (tasks s ! j) = Some r"
  by (auto simp: waiters_def)

lemma waiters_promise:
  assumes "sys_inv progs h0 s"
  shows "awaits s (waiters s r) = [] \<or> awaits s (waiters s r) = [r]"
proof -
  have "length (waiters s r) \<le> 1"
    unfolding waiters_def using one_waiter [OF assms, of _ _ r]
    by (intro filter_unique) (auto simp: sys_length [OF assms])
  then consider "waiters s r = []" | j where "waiters s r = [j]"
    by (cases "waiters s r") (auto simp: Suc_le_eq)
  then show ?thesis
  proof cases
    case 1
    then show ?thesis by simp
  next
    case (2 j)
    then have "j \<in> set (waiters s r)" by simp
    then have "waiting (tasks s ! j) = Some r" by (simp only: waiters_iff)
    with 2 show ?thesis by (simp add: pend_def)
  qed
qed

lemma woken_iff:
  "j \<in> set (woken m s) \<longleftrightarrow>
     j < length (tasks s) \<and> (\<exists>r \<in> set (settled_by m (channel s)). waiting (tasks s ! j) = Some r)"
  by (auto simp: woken_def waiters_iff)

lemma waiters_distinct: "distinct rs \<Longrightarrow> distinct (concat (map (waiters s) rs))"
proof (induction rs)
  case Nil
  show ?case by simp
next
  case (Cons r rs)
  then show ?case by (auto simp: waiters_iff) (simp add: waiters_def)
qed

lemma woken_distinct: "linear h0 s \<Longrightarrow> distinct (woken m s)"
  unfolding woken_def using settled_by_sorted [of h0 s m]
  by (intro waiters_distinct) (simp add: strict_sorted_iff)

lemma woken_promises:
  assumes "sys_inv progs h0 s"
  shows "sorted_wrt (<) (awaits s (woken m s))"
    and "set (awaits s (woken m s)) \<subseteq> set (settled_by m (channel s))"
proof -
  from assms have "linear h0 s" by (simp add: sys_inv_def)
  then have "sorted_wrt (<) (settled_by m (channel s))" by (simp add: settled_by_sorted)
  from sorted_concat_sub [where f = "\<lambda>r. awaits s (waiters s r)", OF waiters_promise [OF assms] this]
  show "sorted_wrt (<) (awaits s (woken m s))"
    and "set (awaits s (woken m s)) \<subseteq> set (settled_by m (channel s))"
    by (simp_all add: woken_def awaits_concat o_def)
qed

lemma woken_pending:
  assumes "sys_inv progs h0 s" and "r \<in> set (awaits s (woken m s))"
  shows "pending (promises s) r" and "length h0 \<le> r" and "r \<in> set (settled_by m (channel s))"
proof -
  from woken_promises(2) [OF assms(1)] assms(2)
  show r: "r \<in> set (settled_by m (channel s))" by blast
  from assms(1) have "linear h0 s" by (simp add: sys_inv_def)
  from settled_by_sorted [OF this, of m] r show "length h0 \<le> r" by blast
  from settled_by_pending [OF sys_chan_inv [OF assms(1)] r] show "pending (promises s) r" .
qed

lemma ready_set: "set (ready s i) \<subseteq> {i}" "distinct (ready s i)"
  "i \<in> set (ready s i) \<Longrightarrow> waiting (tasks s ! i) \<noteq> None"
  by (cases "waiting (tasks s ! i)"; simp add: ready_def)+

lemma ready_promise:
  "awaits s (ready s i) = filter (\<lambda>p. await p (promises s) \<noteq> None) (pend (tasks s ! i))"
  by (simp add: ready_def pend_def split: option.splits)

lemma queued_call:
  assumes "i < length (tasks s)" and "waiting (tasks s ! i) = None" and "i \<notin> set js"
  shows "awaits (step i s) (js @ wakes i m s) =
    awaits s js @ awaits s (woken m s) @
    filter (\<lambda>p. await p (promises (step i s)) \<noteq> None) (pend (tasks (step i s) ! i))"
proof -
  from assms(2) have "i \<notin> set (woken m s)" by (simp add: woken_iff)
  then have "awaits (step i s) (woken m s) = awaits s (woken m s)"
    by (intro awaits_cong step_frame(2)) auto
  moreover from assms(3) have "awaits (step i s) js = awaits s js"
    by (intro awaits_cong step_frame(2)) auto
  ultimately show ?thesis by (simp add: wakes_def ready_promise)
qed

section \<open>A call keeps the invariant\<close>

lemma engine_invD:
  assumes "engine_inv progs h0 e"
  shows "sys_inv progs h0 (program e)" and "jobs_ok (length progs) e"
    and "no_lost (length progs) e" and "run_ok (length progs) e" and "fifo h0 e"
    and "length (tasks (program e)) = length progs"
  using assms sys_length [of progs h0 "program e"] by (simp_all add: engine_inv_def)

lemma fifoD:
  assumes "fifo h0 e" and "p \<in> set (served e @ queued e)"
  shows "length h0 \<le> p" and "await p (promises (program e)) \<noteq> None"
    and "p < length (promises (program e))"
proof -
  from assms show "length h0 \<le> p" and a: "await p (promises (program e)) \<noteq> None"
    by (auto simp: fifo_def list_all_iff)
  from a show "p < length (promises (program e))"
    by (auto simp: await_def split: if_splits)
qed

lemma queued_settled:
  assumes "fifo h0 e" and "j \<in> set (jobs e)" and "waiting (tasks (program e) ! j) = Some p"
  shows "await p (promises (program e)) \<noteq> None"
proof -
  from assms(2,3) have "p \<in> set (served e @ queued e)" by (auto simp: queued_def in_awaits)
  with assms(1) show ?thesis by (rule fifoD)
qed

lemma fifo_call:
  assumes inv: "engine_inv progs h0 e" and i: "i < length (tasks (program e))"
    and w: "waiting (tasks (program e) ! i) = None" and t: "todo (tasks (program e) ! i) = m # ms"
    and js: "i \<notin> set (jobs e)"
  shows "fifo h0 (e\<lparr>program := step i (program e), jobs := jobs e @ wakes i m (program e)\<rparr>)"
proof -
  let ?s = "program e" and ?s' = "step i (program e)"
  let ?e' = "e\<lparr>program := ?s', jobs := jobs e @ wakes i m ?s\<rparr>"
  let ?old = "served e @ queued e" and ?WP = "awaits ?s (woken m ?s)"
  let ?RP = "filter (\<lambda>p. await p (promises ?s') \<noteq> None) (pend (tasks ?s' ! i))"
  note sys = engine_invD(1) [OF inv] and old = fifoD [OF engine_invD(5) [OF inv]]
  note r = woken_pending [OF sys, of _ m]
  from sys have lin: "linear h0 ?s" by (simp add: sys_inv_def)
  then have h0: "length h0 \<le> length (promises ?s)" by (simp add: linear_def length_run)
  have q: "served ?e' @ queued ?e' = ?old @ ?WP @ ?RP"
    using queued_call [OF i w js, of m] by (simp add: queued_def)
  have p: "p = length (promises ?s) \<and> await p (promises ?s') \<noteq> None" if "p \<in> set ?RP" for p
    using that call_waiting [OF i w t] by (auto simp: pend_def split: if_splits)
  have lt: "x < y" if "x \<in> set ?old" "y \<in> set ?WP" for x y
    using settled_lt_pending [OF lin old(1,2) [OF that(1)]] r(1,2) [OF that(2)] by simp
  have top: "x < y" if "x \<in> set ?old \<or> x \<in> set ?WP" "y \<in> set ?RP" for x y
    using that old(3) [of x] r(1) [of x] p [of y] by (auto simp: pending_def)
  from engine_invD(5) [OF inv] have A: "sorted_wrt (<) ?old" by (simp add: fifo_def)
  have R: "sorted_wrt (<) ?RP" by (simp add: pend_def split: option.splits)
  have E: "length h0 \<le> x \<and> await x (promises ?s') \<noteq> None" if "x \<in> set ?old" for x
    using old(1,2) [OF that] store_le_await [OF step_frame(3) [of ?s i], of x] by auto
  have F: "length h0 \<le> y \<and> await y (promises ?s') \<noteq> None" if "y \<in> set ?WP" for y
    using r [OF that] call_settles [OF sys i w t, of y] by (auto simp: pending_def)
  have G: "length h0 \<le> y \<and> await y (promises ?s') \<noteq> None" if "y \<in> set ?RP" for y
    using p [OF that] h0 by auto
  have "sorted_wrt (<) (?old @ ?WP @ ?RP)"
    by (rule sorted_wrt_append3 [OF A woken_promises(1) [OF sys] R lt top])
  moreover have "list_all (\<lambda>p. length h0 \<le> p \<and> await p (promises ?s') \<noteq> None) (?old @ ?WP @ ?RP)"
    by (rule list_all_append3 [OF E F G])
  ultimately show ?thesis unfolding fifo_def q by simp
qed

lemma woken_not_queued:
  assumes inv: "engine_inv progs h0 e" and "j \<in> set (woken m (program e))"
  shows "j \<notin> set (jobs e)" and "j < length progs"
proof -
  note sys = engine_invD(1) [OF inv]
  from assms(2) obtain r where r: "r \<in> set (settled_by m (channel (program e)))"
    "waiting (tasks (program e) ! j) = Some r" and j: "j < length (tasks (program e))"
    by (auto simp: woken_iff)
  from j show "j < length progs" by (simp add: engine_invD(6) [OF inv])
  show "j \<notin> set (jobs e)"
  proof
    assume "j \<in> set (jobs e)"
    from queued_settled [OF engine_invD(5) [OF inv] this r(2)]
      await_pending [OF settled_by_pending [OF sys_chan_inv [OF sys] r(1)]]
    show False by simp
  qed
qed

lemma jobs_ok_call:
  assumes inv: "engine_inv progs h0 e" and i: "i < length (tasks (program e))"
    and w: "waiting (tasks (program e) ! i) = None" and js: "i \<notin> set (jobs e)"
  shows "jobs_ok (length progs) (e\<lparr>program := step i (program e), jobs := jobs e @ wakes i m (program e)\<rparr>)"
proof -
  from engine_invD(1) [OF inv] have "linear h0 (program e)" by (simp add: sys_inv_def)
  then have "distinct (woken m (program e))" by (rule woken_distinct)
  moreover from w have "i \<notin> set (woken m (program e))" by (simp add: woken_iff)
  ultimately show ?thesis
    using engine_invD(2,6) [OF inv] i js ready_set(1,2) [of "step i (program e)" i]
      woken_not_queued [OF inv, of _ m]
    by (auto simp: jobs_ok_def wakes_def list_all_iff)
qed

lemma run_ok_call:
  assumes inv: "engine_inv progs h0 e" and run: "running e = Some i"
    and w: "waiting (tasks (program e) ! i) = None" and js: "i \<notin> set (jobs e)"
  shows "run_ok (length progs) (e\<lparr>program := step i (program e), jobs := jobs e @ wakes i m (program e)\<rparr>)"
  using engine_invD(4) [OF inv] run w js ready_set(3) [of i "step i (program e)"]
  by (auto simp: run_ok_def wakes_def woken_iff)

lemma enabled_call:
  assumes sys: "sys_inv progs h0 s" and i: "i < length (tasks s)"
    and w: "waiting (tasks s ! i) = None" and t: "todo (tasks s ! i) = m # ms"
    and j: "j < length progs" "j \<noteq> i" and en: "enabled (step i s) j"
  shows "enabled s j \<or> j \<in> set (wakes i m s)"
proof (cases "waiting (tasks s ! j)")
  case None
  with en j have "enabled s j" by (simp add: enabled_def step_frame)
  then show ?thesis ..
next
  case (Some p)
  with en j(2) have "await p (promises (step i s)) \<noteq> None" by (simp add: enabled_def step_frame)
  with call_settles [OF sys i w t waiting_lt [OF sys j(1) Some]]
  consider "await p (promises s) \<noteq> None" | "p \<in> set (settled_by m (channel s))" by blast
  then show ?thesis
  proof cases
    case 1
    with Some j sys show ?thesis by (simp add: enabled_def sys_length)
  next
    case 2
    with Some j sys show ?thesis by (auto simp: wakes_def woken_iff sys_length)
  qed
qed

lemma no_lost_call:
  assumes inv: "engine_inv progs h0 e" and run: "running e = Some i"
    and i: "i < length (tasks (program e))"
    and w: "waiting (tasks (program e) ! i) = None" and t: "todo (tasks (program e) ! i) = m # ms"
  shows "no_lost (length progs) (e\<lparr>program := step i (program e), jobs := jobs e @ wakes i m (program e)\<rparr>)"
  unfolding no_lost_def
proof (intro allI impI)
  let ?s = "program e" and ?s' = "step i (program e)"
  let ?e' = "e\<lparr>program := ?s', jobs := jobs e @ wakes i m ?s\<rparr>"
  fix j assume j: "j < length progs" and "enabled (program ?e') j"
  then have en: "enabled ?s' j" by simp
  show "j \<in> set (jobs ?e') \<or> (running ?e' = Some j \<and> waiting (tasks (program ?e') ! j) = None)"
  proof (cases "j = i")
    case True
    with en run show ?thesis
      by (cases "waiting (tasks ?s' ! i)") (auto simp: wakes_def ready_def enabled_def)
  next
    case False
    from enabled_call [OF engine_invD(1) [OF inv] i w t j False en]
    consider "enabled ?s j" | "j \<in> set (wakes i m ?s)" by blast
    then show ?thesis
    proof cases
      case 1
      with engine_invD(3) [OF inv] j run False show ?thesis by (auto simp: no_lost_def)
    next
      case 2
      then show ?thesis by simp
    qed
  qed
qed

lemma engine_inv_call:
  assumes inv: "engine_inv progs h0 e" and run: "running e = Some i"
    and i: "i < length (tasks (program e))"
    and w: "waiting (tasks (program e) ! i) = None" and t: "todo (tasks (program e) ! i) = m # ms"
  shows "engine_inv progs h0 (e\<lparr>program := step i (program e), jobs := jobs e @ wakes i m (program e)\<rparr>)"
proof -
  from engine_invD(4) [OF inv] run w have "i \<notin> set (jobs e)" by (simp add: run_ok_def)
  with assms show ?thesis
    unfolding engine_inv_def
    using fifo_call [OF inv i w t] jobs_ok_call [OF inv i w] run_ok_call [OF inv run w]
      no_lost_call [OF inv run i w t]
    by (simp add: sys_inv_step)
qed

section \<open>The next job keeps the invariant\<close>

lemma resume_effect:
  assumes "i < length (tasks s)"
    and "\<And>p. waiting (tasks s ! i) = Some p \<Longrightarrow> await p (promises s) \<noteq> None"
  shows "promises (resume i s) = promises s" and "waiting (tasks (resume i s) ! i) = None"
    and "length (tasks (resume i s)) = length (tasks s)"
    and "j \<noteq> i \<Longrightarrow> tasks (resume i s) ! j = tasks s ! j"
proof -
  show "j \<noteq> i \<Longrightarrow> tasks (resume i s) ! j = tasks s ! j"
    and "length (tasks (resume i s)) = length (tasks s)"
    using resume_step [of i s] by (auto simp: step_frame)
  show "promises (resume i s) = promises s" and "waiting (tasks (resume i s) ! i) = None"
    using assms by (cases "waiting (tasks s ! i)"; auto simp: resume_def pend_def step_resume)+
qed

lemma pop_effect:
  assumes inv: "engine_inv progs h0 e" and jobs: "jobs e = i # js"
  shows "promises (resume i (program e)) = promises (program e)"
    and "waiting (tasks (resume i (program e)) ! i) = None"
    and "length (tasks (resume i (program e))) = length progs"
    and "j \<noteq> i \<Longrightarrow> tasks (resume i (program e)) ! j = tasks (program e) ! j"
    and "i < length progs" and "i \<notin> set js"
proof -
  from engine_invD(2) [OF inv] jobs show i: "i < length progs" "i \<notin> set js"
    by (simp_all add: jobs_ok_def)
  with engine_invD(6) [OF inv] queued_settled [OF engine_invD(5) [OF inv], of i] jobs
  show "promises (resume i (program e)) = promises (program e)"
    and "waiting (tasks (resume i (program e)) ! i) = None"
    and "length (tasks (resume i (program e))) = length progs"
    and "j \<noteq> i \<Longrightarrow> tasks (resume i (program e)) ! j = tasks (program e) ! j"
    by (simp_all add: resume_effect)
qed

lemma no_lost_pop:
  assumes inv: "engine_inv progs h0 e" and jobs: "jobs e = i # js" and run: "running e = None"
  shows "no_lost (length progs) (e\<lparr>program := resume i (program e), jobs := js,
    running := Some i, served := served e @ pend (tasks (program e) ! i)\<rparr>)"
  unfolding no_lost_def
proof (intro allI impI)
  let ?s = "program e" and ?s' = "resume i (program e)"
  let ?e' = "e\<lparr>program := ?s', jobs := js, running := Some i, served := served e @ pend (tasks ?s ! i)\<rparr>"
  note eff = pop_effect [OF inv jobs]
  fix j assume j: "j < length progs" "enabled (program ?e') j"
  show "j \<in> set (jobs ?e') \<or> (running ?e' = Some j \<and> waiting (tasks (program ?e') ! j) = None)"
  proof (cases "j = i")
    case True
    with eff(2) show ?thesis by simp
  next
    case False
    with j eff(1,3,4) engine_invD(6) [OF inv] have "enabled ?s j"
      by (simp add: enabled_def split: option.splits)
    with engine_invD(3) [OF inv] j(1) run jobs False show ?thesis by (auto simp: no_lost_def)
  qed
qed

lemma engine_inv_pop:
  assumes inv: "engine_inv progs h0 e" and jobs: "jobs e = i # js" and run: "running e = None"
  shows "engine_inv progs h0 (e\<lparr>program := resume i (program e), jobs := js, running := Some i,
    served := served e @ pend (tasks (program e) ! i)\<rparr>)"
proof -
  let ?s = "program e" and ?s' = "resume i (program e)"
  let ?e' = "e\<lparr>program := ?s', jobs := js, running := Some i, served := served e @ pend (tasks ?s ! i)\<rparr>"
  note eff = pop_effect [OF inv jobs]
  from eff(6) have "awaits ?s' js = awaits ?s js" by (intro awaits_cong eff(4)) auto
  with jobs have "served ?e' @ queued ?e' = served e @ queued e" by (simp add: queued_def)
  with engine_invD(5) [OF inv] eff(1) have "fifo h0 ?e'" unfolding fifo_def by simp
  moreover from resume_step [of i ?s] engine_invD(1) [OF inv] have "sys_inv progs h0 ?s'"
    by (auto simp: sys_inv_step)
  moreover from engine_invD(2) [OF inv] jobs have "jobs_ok (length progs) ?e'"
    by (simp add: jobs_ok_def)
  ultimately show ?thesis using eff(5,6) no_lost_pop [OF assms]
    by (simp add: engine_inv_def run_ok_def)
qed

lemma engine_inv_yield:
  assumes inv: "engine_inv progs h0 e" and run: "running e = Some i"
    and no: "\<not> can_call (program e) i"
  shows "engine_inv progs h0 (e\<lparr>running := None\<rparr>)"
proof -
  have "j \<in> set (jobs e)" if "j < length progs" "enabled (program e) j" for j
  proof -
    from engine_invD(3) [OF inv] that
    consider "j \<in> set (jobs e)" | "running e = Some j" "waiting (tasks (program e) ! j) = None"
      by (auto simp: no_lost_def)
    then show ?thesis
    proof cases
      case 2
      with run that no show ?thesis by (simp add: can_call_def enabled_def)
    qed
  qed
  with inv show ?thesis
    by (simp add: engine_inv_def jobs_ok_def no_lost_def run_ok_def fifo_def queued_def)
qed

section \<open>Every state of the engine\<close>

lemma engine_inv_tick: "engine_inv progs h0 e \<Longrightarrow> engine_inv progs h0 (tick e)"
  by (cases e rule: tick_cases)
    (simp_all add: engine_inv_pop engine_inv_call engine_inv_yield)

lemma queued_boot: "queued (boot progs h0) = []"
  by (simp add: queued_def awaits_def boot_def spawn_def task0_def pend_def)

lemma engine_inv_boot: "engine_inv progs h0 (boot progs h0)"
proof -
  have "fifo h0 (boot progs h0)" by (simp add: fifo_def queued_boot) (simp add: boot_def)
  moreover have "sys_inv progs h0 (program (boot progs h0))"
    by (simp add: boot_def sys_inv_spawn)
  ultimately show ?thesis
    by (simp add: engine_inv_def) (simp add: boot_def jobs_ok_def no_lost_def run_ok_def list_all_iff)
qed

lemma engine_inv_run: "engine_inv progs h0 (engine_run n (boot progs h0))"
  by (induction n) (simp_all add: engine_run_def engine_inv_boot engine_inv_tick)

text \<open>
  Claim C12 (invariant). No wake-up is lost and none is spurious. In every state that
  the engine reaches from the start of any programs, a task that awaits a promise is
  in the queue of jobs exactly when the promise is settled.
\<close>

theorem no_lost_wakeup:
  assumes "j < length progs"
    and "waiting (tasks (program (engine_run n (boot progs h0))) ! j) = Some p"
  shows "j \<in> set (jobs (engine_run n (boot progs h0))) \<longleftrightarrow>
    await p (promises (program (engine_run n (boot progs h0)))) \<noteq> None"
proof -
  let ?e = "engine_run n (boot progs h0)"
  note inv = engine_invD [OF engine_inv_run [of progs h0 n]]
  show ?thesis
  proof
    assume "j \<in> set (jobs ?e)"
    from queued_settled [OF inv(5) this assms(2)]
    show "await p (promises (program ?e)) \<noteq> None" .
  next
    assume "await p (promises (program ?e)) \<noteq> None"
    with assms inv(6) have "enabled (program ?e) j" by (simp add: enabled_def)
    with inv(3) assms show "j \<in> set (jobs ?e)" by (auto simp: no_lost_def)
  qed
qed

theorem no_lost_wakeup_witness:
  "(0::nat) < length [[Take, Take], [Put (Payload (1::nat)), Close]] \<and>
   waiting (tasks (program (engine_run 5 (boot [[Take, Take], [Put (Payload (1::nat)), Close]] []))) ! 0) =
     Some 0 \<and>
   jobs (engine_run 5 (boot [[Take, Take], [Put (Payload (1::nat)), Close]] [])) = [0] \<and>
   await 0 (promises (program (engine_run 5 (boot [[Take, Take], [Put (Payload (1::nat)), Close]] [])))) =
     Some (Payload 1)"
  using no_lost_wakeup [of 0 "[[Take, Take], [Put (Payload (1::nat)), Close]]" 5 "[]" 0]
  by (simp add: engine_eval task_eval eval_simps eval_nat_numeral)


text \<open>
  Claim C15 (safety). Continuations run in the order of the takes. In every state that
  the engine reaches, the promises whose continuations have run, followed by those of
  the jobs in the queue, are in the order in which \<open>take\<close> made them; each of them is
  settled; and no task is in the queue twice.
\<close>

theorem resumed_in_take_order:
  "sorted_wrt (<) (served (engine_run n (boot progs h0)) @ queued (engine_run n (boot progs h0))) \<and>
   (\<forall>p \<in> set (served (engine_run n (boot progs h0)) @ queued (engine_run n (boot progs h0))).
      await p (promises (program (engine_run n (boot progs h0)))) \<noteq> None) \<and>
   distinct (jobs (engine_run n (boot progs h0)))"
  using engine_invD(2,5) [OF engine_inv_run [of progs h0 n]]
  by (simp add: fifo_def jobs_ok_def list_all_iff)

theorem resumed_in_take_order_witness:
  "served (engine_run 12 (boot [[Take, Take], [Put (Payload (1::nat)), Close]] [])) = [0, 1] \<and>
   map (\<lambda>p. await p (promises (program (engine_run 12
     (boot [[Take, Take], [Put (Payload (1::nat)), Close]] []))))) [0, 1] =
     [Some (Payload 1), Some CLOSED]"
  using resumed_in_take_order [of 12 "[[Take, Take], [Put (Payload (1::nat)), Close]]" "[]"]
  by (simp add: engine_eval task_eval eval_simps eval_nat_numeral)

end
