(* ===== verification/Channel_Event_Loop.thy ===== *)
theory Channel_Event_Loop
  imports Channel_Engine "HOL-Library.While_Combinator"
begin

text \<open>
  The event loop: the engine of \<^verbatim>\<open>Channel_Engine\<close> run until no task runs and the queue
  of jobs is empty. The loop is a \<open>while_option\<close>, so that a loop that never ends has
  the value \<open>None\<close>. The theory shows that the loop ends for all programs, within a
  number of ticks that is linear in the size of the programs; that it ends in a state
  in which no task can run; and that it ends with every task at the end of its
  program when a producer closes the channel.
\<close>

section \<open>The loop\<close>

definition idle :: "'a engine \<Rightarrow> bool" where
  "idle e \<longleftrightarrow> running e = None \<and> jobs e = []"

definition event_loop :: "'a engine \<Rightarrow> 'a engine option" where
  "event_loop e = while_option (\<lambda>e. \<not> idle e) tick e"

section \<open>The measure\<close>

text \<open>
  \<open>fresh s js\<close> counts the jobs of tasks that do not await: tasks that have not started.
  A tick takes one from \<open>budget\<close>: a call or a resumption takes a unit of the work of
  the tasks, which counts twice; the start of a task takes a fresh job, which counts
  twice; and a task that gives up the thread takes the unit of the running task.
\<close>

definition fresh :: "'a sys \<Rightarrow> nat list \<Rightarrow> nat" where
  "fresh s js = length (filter (\<lambda>j. waiting (tasks s ! j) = None) js)"

definition budget :: "'a engine \<Rightarrow> nat" where
  "budget e =
     2 * work (program e) + 2 * fresh (program e) (jobs e) +
     (case running e of Some i \<Rightarrow> 1 | None \<Rightarrow> 0)"

section \<open>Every tick takes from the measure\<close>

lemma fresh_frame:
  "(\<And>j. j \<in> set js \<Longrightarrow> waiting (tasks s' ! j) = waiting (tasks s ! j)) \<Longrightarrow>
   fresh s' js = fresh s js"
  unfolding fresh_def by (intro arg_cong [where f = length] filter_cong refl) simp

lemma fresh_append: "fresh s (js @ ks) = fresh s js + fresh s ks"
  by (simp add: fresh_def)

lemma fresh_waiting: "(\<And>j. j \<in> set js \<Longrightarrow> waiting (tasks s ! j) \<noteq> None) \<Longrightarrow> fresh s js = 0"
  by (simp add: fresh_def)

lemma budget_pop:
  assumes inv: "engine_inv progs h0 e" and jobs: "jobs e = i # js" and run: "running e = None"
  shows "budget (e\<lparr>program := resume i (program e), jobs := js, running := Some i,
    served := served e @ pend (tasks (program e) ! i)\<rparr>) < budget e"
proof -
  let ?s = "program e" and ?s' = "resume i (program e)"
  note eff = pop_effect [OF inv jobs] and n = engine_invD(6) [OF inv]
  have "waiting (tasks ?s' ! j) = waiting (tasks ?s ! j)" if "j \<in> set js" for j
  proof -
    from that eff(6) have "j \<noteq> i" by blast
    then show ?thesis by (simp add: eff(4))
  qed
  then have f: "fresh ?s' js = fresh ?s js" by (rule fresh_frame)
  show ?thesis
  proof (cases "waiting (tasks ?s ! i)")
    case None
    with jobs run f show ?thesis by (simp add: budget_def resume_def pend_def fresh_def)
  next
    case (Some p)
    from queued_settled [OF engine_invD(5) [OF inv] _ Some] jobs eff(5) n Some
    have "enabled ?s i" by (simp add: enabled_def)
    from work_step [OF this] Some jobs run f show ?thesis
      by (simp add: budget_def resume_def pend_def fresh_def)
  qed
qed

lemma budget_call:
  assumes inv: "engine_inv progs h0 e" and run: "running e = Some i"
    and i: "i < length (tasks (program e))"
    and w: "waiting (tasks (program e) ! i) = None" and t: "todo (tasks (program e) ! i) = m # ms"
  shows "budget (e\<lparr>program := step i (program e), jobs := jobs e @ wakes i m (program e)\<rparr>) < budget e"
proof -
  let ?s = "program e" and ?s' = "step i (program e)"
  from engine_invD(4) [OF inv] run w have js: "i \<notin> set (jobs e)" by (simp add: run_ok_def)
  have "waiting (tasks ?s' ! j) = waiting (tasks ?s ! j)" if "j \<in> set (jobs e)" for j
  proof -
    from that js have "j \<noteq> i" by blast
    then show ?thesis by (simp add: step_frame)
  qed
  then have "fresh ?s' (jobs e) = fresh ?s (jobs e)" by (rule fresh_frame)
  moreover have "waiting (tasks ?s' ! j) \<noteq> None" if "j \<in> set (wakes i m ?s)" for j
  proof (cases "j = i")
    case True
    with that w ready_set(3) [of i ?s'] show ?thesis by (auto simp: wakes_def woken_iff)
  next
    case False
    with that ready_set(1) [of ?s' i] show ?thesis
      by (auto simp: wakes_def woken_iff step_frame)
  qed
  then have "fresh ?s' (wakes i m ?s) = 0" by (rule fresh_waiting)
  moreover from i w t have "enabled ?s i" by (simp add: enabled_def)
  from work_step [OF this] have "Suc (work ?s') = work ?s" .
  ultimately show ?thesis using run by (simp add: budget_def fresh_append)
qed

lemma budget_tick:
  assumes "engine_inv progs h0 e" and "\<not> idle e"
  shows "budget (tick e) < budget e"
proof (cases e rule: tick_cases)
  case idle
  with assms(2) show ?thesis by (simp add: idle_def)
next
  case (pop i js)
  with budget_pop [OF assms(1) pop(2,1)] show ?thesis by simp
next
  case (call i m ms)
  with budget_call [OF assms(1) call(1-4)] show ?thesis by simp
next
  case (yield i)
  then show ?thesis by (simp add: budget_def)
qed

lemma budget_boot:
  "budget (boot progs h0) = 2 * sum_list (map cost (concat progs)) + 2 * length progs"
proof -
  have "fresh (spawn progs h0) [0..<length progs] = length progs"
    by (simp add: fresh_def spawn_def task0_def)
  then show ?thesis by (simp add: budget_def boot_def work_spawn)
qed

section \<open>The loop ends\<close>

lemma engine_run_Suc: "engine_run (Suc n) e = engine_run n (tick e)"
  by (simp add: engine_run_def funpow_swap1)

lemma event_loop_tick: "\<not> idle e \<Longrightarrow> event_loop e = event_loop (tick e)"
  unfolding event_loop_def by (subst while_option_unfold) simp

lemma event_loop_idle: "idle e \<Longrightarrow> event_loop e = Some e"
  unfolding event_loop_def by (subst while_option_unfold) simp

lemma event_loop_run:
  "engine_inv progs h0 e \<Longrightarrow>
   \<exists>n\<le>budget e. event_loop e = Some (engine_run n e) \<and> idle (engine_run n e)"
proof (induction "budget e" arbitrary: e rule: less_induct)
  case less
  show ?case
  proof (cases "idle e")
    case True
    then have "event_loop e = Some (engine_run 0 e) \<and> idle (engine_run 0 e)"
      by (simp add: event_loop_idle engine_run_def)
    then show ?thesis by blast
  next
    case False
    from budget_tick [OF less.prems False] engine_inv_tick [OF less.prems]
    obtain n where n: "n \<le> budget (tick e)" "event_loop (tick e) = Some (engine_run n (tick e))"
      "idle (engine_run n (tick e))"
      using less.hyps [of "tick e"] by blast
    from n(1) budget_tick [OF less.prems False] have "Suc n \<le> budget e" by simp
    moreover from n(2,3) False
    have "event_loop e = Some (engine_run (Suc n) e) \<and> idle (engine_run (Suc n) e)"
      by (simp add: event_loop_tick engine_run_Suc)
    ultimately show ?thesis by blast
  qed
qed

lemma idle_quiescent:
  assumes "engine_inv progs h0 e" and "idle e"
  shows "pick (program e) = None"
  using engine_invD(3,6) [OF assms(1)] assms(2) by (simp add: pick_None no_lost_def idle_def)

text \<open>
  Claim C13 (termination). The event loop ends. For all programs the loop returns,
  after no more ticks than twice the calls and awaits of the programs and twice the
  number of tasks; the state it returns is the state of the engine after that many
  ticks, the queue of jobs is empty, and no task can run.
\<close>

theorem event_loop_terminates:
  "\<exists>n \<le> 2 * sum_list (map cost (concat progs)) + 2 * length progs.
     event_loop (boot progs h0) = Some (engine_run n (boot progs h0)) \<and>
     idle (engine_run n (boot progs h0)) \<and>
     pick (program (engine_run n (boot progs h0))) = None"
proof -
  from event_loop_run [OF engine_inv_boot [of progs h0]]
  obtain n where "n \<le> budget (boot progs h0)"
    "event_loop (boot progs h0) = Some (engine_run n (boot progs h0))"
    "idle (engine_run n (boot progs h0))" by blast
  with idle_quiescent [OF engine_inv_run [of progs h0 n]] show ?thesis
    by (auto simp: budget_boot)
qed

section \<open>Every job has its turn\<close>

lemma engine_run_add: "engine_run (n + k) e = engine_run k (engine_run n e)"
  by (simp add: engine_run_def funpow_add add.commute)

lemma job_popped:
  assumes "j \<in> set (jobs e)" and "j \<notin> set (jobs (tick e))"
  shows "jobs e = j # jobs (tick e) \<and> running e = None"
  using assms by (cases e rule: tick_cases) auto

lemma job_served:
  "j \<in> set (jobs e) \<Longrightarrow> j \<notin> set (jobs (engine_run n e)) \<Longrightarrow>
   \<exists>k<n. jobs (engine_run k e) = j # jobs (engine_run (Suc k) e) \<and> running (engine_run k e) = None"
proof (induction n arbitrary: e)
  case 0
  then show ?case by (simp add: engine_run_def)
next
  case (Suc n)
  show ?case
  proof (cases "j \<in> set (jobs (tick e))")
    case True
    with Suc obtain k where "k < n"
      "jobs (engine_run k (tick e)) = j # jobs (engine_run (Suc k) (tick e))"
      "running (engine_run k (tick e)) = None"
      by (auto simp: engine_run_Suc)
    then have "Suc k < Suc n \<and>
        jobs (engine_run (Suc k) e) = j # jobs (engine_run (Suc (Suc k)) e) \<and>
        running (engine_run (Suc k) e) = None"
      by (simp add: engine_run_Suc)
    then show ?thesis by blast
  next
    case False
    with job_popped [OF Suc.prems(1)]
    have "0 < Suc n \<and> jobs (engine_run 0 e) = j # jobs (engine_run (Suc 0) e) \<and>
        running (engine_run 0 e) = None"
      by (simp add: engine_run_def)
    then show ?thesis by blast
  qed
qed

lemma job_runs:
  assumes inv: "engine_inv progs h0 e" and jobs: "jobs e = j # js" and run: "running e = None"
  shows "running (tick e) = Some j \<and> waiting (tasks (program (tick e)) ! j) = None"
  using pop_effect(2) [OF inv jobs] jobs run by (simp add: tick_def)

text \<open>
  Claim C17 (liveness). No job starves. A task that is in the queue of jobs, in any
  state that the engine reaches, has the thread after a number of further ticks that
  is bounded by the measure of that state, and it does not await then: if it awaited a
  promise, it has received the value.
\<close>

theorem every_job_runs:
  assumes "j \<in> set (jobs (engine_run n (boot progs h0)))"
  shows "\<exists>k \<le> budget (engine_run n (boot progs h0)).
    running (engine_run (n + k) (boot progs h0)) = Some j \<and>
    waiting (tasks (program (engine_run (n + k) (boot progs h0))) ! j) = None"
proof -
  let ?e = "engine_run n (boot progs h0)"
  note inv = engine_inv_run [of progs h0 n]
  from event_loop_run [OF inv] obtain N where N: "N \<le> budget ?e" "idle (engine_run N ?e)"
    by blast
  then have "j \<notin> set (jobs (engine_run N ?e))" by (simp add: idle_def)
  from job_served [OF assms this] obtain k where k: "k < N"
    "jobs (engine_run k ?e) = j # jobs (engine_run (Suc k) ?e)" "running (engine_run k ?e) = None"
    by blast
  have "engine_inv progs h0 (engine_run k ?e)"
    using engine_inv_run [of progs h0 "n + k"] by (simp add: engine_run_add)
  moreover have "engine_run (n + Suc k) (boot progs h0) = tick (engine_run k ?e)"
    by (simp only: engine_run_add) (simp add: engine_run_def)
  ultimately have "Suc k \<le> budget ?e \<and>
      running (engine_run (n + Suc k) (boot progs h0)) = Some j \<and>
      waiting (tasks (program (engine_run (n + Suc k) (boot progs h0))) ! j) = None"
    using job_runs [OF _ k(2,3)] k(1) N(1) by simp
  then show ?thesis by blast
qed

theorem every_job_runs_witness:
  "(0::nat) \<in> set (jobs (engine_run 5 (boot [[Take, Take], [Put (Payload (1::nat)), Close]] []))) \<and>
   (\<exists>k \<le> budget (engine_run 5 (boot [[Take, Take], [Put (Payload (1::nat)), Close]] [])).
      running (engine_run (5 + k) (boot [[Take, Take], [Put (Payload (1::nat)), Close]] [])) = Some 0)"
proof -
  have "(0::nat) \<in> set (jobs (engine_run 5 (boot [[Take, Take], [Put (Payload (1::nat)), Close]] [])))"
    by (simp add: engine_eval task_eval eval_simps eval_nat_numeral)
  with every_job_runs [of 0 5 "[[Take, Take], [Put (Payload (1::nat)), Close]]" "[]"]
  show ?thesis by blast
qed

text \<open>
  Claim C16 (liveness). A producer that closes the channel ends every task: if some
  task makes no \<open>take\<close> and calls \<open>close\<close>, the event loop returns a state in which the
  channel is closed and every task is at the end of its program.
\<close>

theorem event_loop_completes:
  assumes "i < length progs" and "Take \<notin> set (progs ! i)" and "Close \<in> set (progs ! i)"
  shows "\<exists>e. event_loop (boot progs h0) = Some e \<and> list_all finished (tasks (program e)) \<and>
    isClosed (channel (program e))"
proof -
  from event_loop_run [OF engine_inv_boot [of progs h0]]
  obtain n where e: "event_loop (boot progs h0) = Some (engine_run n (boot progs h0))"
    and "idle (engine_run n (boot progs h0))" by blast
  with idle_quiescent [OF engine_inv_run [of progs h0 n]]
  have q: "pick (program (engine_run n (boot progs h0))) = None" by simp
  note inv = engine_invD(1) [OF engine_inv_run [of progs h0 n]]
  from closer_closes [OF inv assms q] quiescent_finished [OF inv _ q] e show ?thesis by simp
qed

theorem event_loop_completes_witness:
  "(1::nat) < length [[Take, Take], [Put (Payload (1::nat)), Close]] \<and>
   Take \<notin> set ([[Take, Take], [Put (Payload (1::nat)), Close]] ! 1) \<and>
   Close \<in> set ([[Take, Take], [Put (Payload (1::nat)), Close]] ! 1) \<and>
   (\<exists>e. event_loop (boot [[Take, Take], [Put (Payload (1::nat)), Close]] []) = Some e \<and>
     received (program e) = [Payload 1, CLOSED] \<and> served e = [0, 1])"
  using event_loop_completes [of 1 "[[Take, Take], [Put (Payload (1::nat)), Close]]" "[]"]
  by (simp add: event_loop_def while_option_unfold idle_def engine_eval task_eval eval_simps
      received_def)

end
