(* ===== verification/Channel_Scheduler.thy ===== *)
theory Channel_Scheduler
  imports Channel_Tasks
begin

text \<open>
  A scheduler for the tasks of \<open>Channel_Tasks\<close>: it runs the first task that can run
  until none can. It always stops, since every step uses up some of the work left,
  and it stops in a state where every task has ended or awaits a pending promise.
\<close>

section \<open>The scheduler\<close>

function schedule :: "'a sys \<Rightarrow> 'a sys" where
  "schedule s = (case pick s of None \<Rightarrow> s | Some i \<Rightarrow> schedule (step i s))"
  by pat_completeness auto

termination
proof (relation "measure work")
  show "wf (measure work)" by simp
next
  fix s :: "'a sys" and i
  assume "pick s = Some i"
  then have "enabled s i" by (rule pick_Some)
  from work_step [OF this] show "(step i s, s) \<in> measure work" by simp
qed

declare schedule.simps [simp del]

section \<open>Its runs\<close>

lemma schedule_exec: "\<exists>is. schedule s = exec is s \<and> ticks is s = length is"
proof (induction s rule: schedule.induct)
  case (1 s)
  show ?case
  proof (cases "pick s")
    case None
    then have "schedule s = exec [] s \<and> ticks [] s = length ([] :: nat list)"
      by (subst schedule.simps) simp
    then show ?thesis by blast
  next
    case (Some i)
    from "1.IH" [OF Some] obtain "is" where "schedule (step i s) = exec is (step i s)"
      and "ticks is (step i s) = length is" by blast
    with Some pick_Some [OF Some]
    have "schedule s = exec (i # is) s \<and> ticks (i # is) s = length (i # is)"
      by (subst schedule.simps) simp
    then show ?thesis by blast
  qed
qed

lemma schedule_quiescent: "pick (schedule s) = None"
proof (induction s rule: schedule.induct)
  case (1 s)
  then show ?case by (cases "pick s"; subst schedule.simps) simp_all
qed


text \<open>
  A producer that closes the channel ends every task: if some
  task makes no \<open>take\<close> and calls \<open>close\<close>, the scheduler ends with the channel closed
  and every task at the end of its program.
\<close>

lemma closer_finishes_all:
  assumes "i < length progs" and "Take \<notin> set (progs ! i)" and "Close \<in> set (progs ! i)"
  shows "list_all finished (tasks (schedule (spawn progs h0))) \<and>
    isClosed (channel (schedule (spawn progs h0)))"
proof -
  obtain "is" where "schedule (spawn progs h0) = exec is (spawn progs h0)"
    using schedule_exec by blast
  with reachable_inv [of progs h0 "is"] have inv: "sys_inv progs h0 (schedule (spawn progs h0))"
    by simp
  from closer_closes [OF inv assms schedule_quiescent]
  show ?thesis by (simp add: quiescent_finished [OF inv _ schedule_quiescent])
qed

end
