(* ===== verification/Channel_Pipeline.thy ===== *)
theory Channel_Pipeline
  imports Channel_Event_Loop Channel_Scheduler
begin

text \<open>
  The channel in use, end to end: a producer that puts a list of values and closes the
  channel, and a consumer that takes a number of times and awaits every take. The
  theory shows that the consumer receives the values of the producer, in the order in
  which they were put, followed by \<open>CLOSED\<close>: in every run that brings both tasks to
  their ends, under the scheduler, and under the event loop, which always does so.
\<close>

section \<open>Producer and consumer\<close>

definition producer :: "'a jsval list \<Rightarrow> 'a operation list" where
  "producer vs = map Put vs @ [Close]"

definition consumer :: "nat \<Rightarrow> 'a operation list" where
  "consumer m = replicate m Take"

section \<open>Promises in the order of the takes\<close>

text \<open>
  One more invariant of the tasks, kept by every step: the log names tasks that exist,
  and the promises that a task holds are promises of the store, in the order in which
  the task took them.
\<close>

definition in_order :: "'a sys \<Rightarrow> bool" where
  "in_order s \<longleftrightarrow>
     (\<forall>a \<in> set (calls s). fst a < length (tasks s)) \<and>
     (\<forall>i<length (tasks s).
        sorted_wrt (<) (took (tasks s ! i)) \<and>
        (\<forall>p \<in> set (took (tasks s ! i)). p < length (promises s)))"

section \<open>The order invariant\<close>

lemma in_order_spawn: "in_order (spawn progs h0)"
  by (simp add: in_order_def spawn_def task0_def)

lemma in_order_step: "in_order s \<Longrightarrow> in_order (step i s)"
proof (cases i s rule: step_cases)
  case (resume p v)
  assume "in_order s"
  with resume show ?thesis by (auto simp: in_order_def nth_list_update)
next
  case (call m ms)
  assume "in_order s"
  with call show ?thesis
    by (auto simp: in_order_def nth_list_update after_call length_call sorted_wrt_append
        split: operation.splits intro: less_SucI)
qed simp_all

lemma in_order_exec: "in_order s \<Longrightarrow> in_order (exec is s)"
  by (induction "is" arbitrary: s) (simp_all add: in_order_step)

section \<open>Complete runs of the pipeline\<close>

text \<open>
  In a complete run the log is an interleaving of the takes of the consumer with the
  program of the producer, so the values accepted are those of the producer, whatever
  the interleaving; the consumer holds every promise of the channel, in order.
\<close>

lemma accepted_of_filter: "accepted_of (filter (\<lambda>m. m \<noteq> Take) ms) = accepted_of ms"
  by (induction ms rule: accepted_of.induct) simp_all

lemma log_of_producer:
  assumes "\<forall>a \<in> set log. fst a < 2" and "set (calls_on 0 log) \<subseteq> {Take}"
    and "Take \<notin> set (calls_on (Suc 0) log)"
  shows "filter (\<lambda>m. m \<noteq> Take) (map snd log) = calls_on (Suc 0) log"
proof -
  have "(snd a \<noteq> Take) = (fst a = Suc 0)" if "a \<in> set log" for a
    using that assms by (cases "fst a = 0") (force simp: calls_on_def less_2_cases_iff)+
  then show ?thesis by (simp add: calls_on_def filter_map o_def cong: filter_cong)
qed

lemma strict_sorted_upt:
  "sorted_wrt (<) xs \<Longrightarrow> mset xs = mset [a..<b] \<Longrightarrow> xs = [a..<b]"
proof -
  assume s: "sorted_wrt (<) xs" and "mset xs = mset [a..<b]"
  from this(2) have "set xs = set [a..<b]" by (rule mset_eq_setD)
  with sorted_wrt_upt s show ?thesis by (rule strict_sorted_equal)
qed

lemma pipeline_run:
  assumes inv: "sys_inv [consumer m, producer vs] h0 s" and ord: "in_order s"
    and fin: "list_all finished (tasks s)"
  shows "got (tasks s ! 0) = take m vs @ replicate (m - length vs) CLOSED" and "messageQueue (channel s) = drop m vs"
    and "isClosed (channel s)"
proof -
  let ?ms = "map snd (calls s)" and ?f = "\<lambda>q. await q (promises s)"
  from inv have lin: "linear h0 s" and "on_program [consumer m, producer vs] s" and sh: "shared h0 s"
    and "list_all (owns (promises s)) (tasks s)" by (simp_all add: sys_inv_def)
  then obtain t0 t1 where ts: "tasks s = [t0, t1]"
    and c: "calls_on 0 (calls s) @ todo t0 = consumer m" "calls_on (Suc 0) (calls s) @ todo t1 = producer vs"
    and l: "length (took t0) = n_takes (calls_on 0 (calls s))"
      "length (took t1) = n_takes (calls_on (Suc 0) (calls s))"
    and o: "owns (promises s) t0"
    by (auto simp: on_program_def length_Suc_conv All_less_Suc)
  from fin ts c have c0: "calls_on 0 (calls s) = consumer m"
    and c1: "calls_on (Suc 0) (calls s) = producer vs" and w: "pend t0 = []"
    by (simp_all add: finished_def pend_def)
  from l c0 c1 have t0: "length (took t0) = m" and t1: "took t1 = []"
    by (simp_all add: consumer_def producer_def n_takes_append)
  from sh ts t1 have m: "mset (took t0) = mset [length h0..<length h0 + n_takes ?ms]"
    by (simp add: shared_def)
  from mset_eq_length [OF this] t0 have n: "n_takes ?ms = m" by simp
  from ord ts have "sorted_wrt (<) (took t0)" by (auto simp: in_order_def)
  from strict_sorted_upt [OF this m] n have took: "took t0 = [length h0..<length h0 + m]" by simp
  from ord ts c0 c1 have "filter (\<lambda>m. m \<noteq> Take) ?ms = producer vs"
    by (subst log_of_producer) (auto simp: in_order_def consumer_def producer_def)
  from arg_cong [OF this, of accepted_of] arg_cong [OF this, of set]
  have a: "accepted_of ?ms = vs" and cl: "closes ?ms"
    by (auto simp: accepted_of_filter producer_def accepted_of_append closes_iff)
  from owns_took [OF o] w took promised [OF lin] n
  have "map Some (got t0) = map (take_outcome ?ms) [0..<m]" by simp
  with a cl have "map Some (got t0) = map Some (take m vs @ replicate (m - length vs) CLOSED)"
    by (simp add: take_outcomes)
  from map_injective [OF this] ts
  show "got (tasks s ! 0) = take m vs @ replicate (m - length vs) CLOSED" by simp
  from lin a n cl show "messageQueue (channel s) = drop m vs" and "isClosed (channel s)"
    by (simp_all add: linear_def run_messageQueue run_isClosed)
qed

lemma producer_closes: "Take \<notin> set (producer vs)" "Close \<in> set (producer vs)"
  by (auto simp: producer_def)

lemma pipeline_any_schedule:
  assumes "list_all finished (tasks (exec is (spawn [consumer m, producer vs] h0)))"
  shows "got (tasks (exec is (spawn [consumer m, producer vs] h0)) ! 0) =
      take m vs @ replicate (m - length vs) CLOSED"
    and "messageQueue (channel (exec is (spawn [consumer m, producer vs] h0))) = drop m vs"
  using pipeline_run [OF reachable_inv in_order_exec [OF in_order_spawn] assms] by simp_all

lemma pipeline_schedule:
  "got (tasks (schedule (spawn [consumer m, producer vs] h0)) ! 0) =
     take m vs @ replicate (m - length vs) CLOSED"
proof -
  obtain "is" where "schedule (spawn [consumer m, producer vs] h0) =
      exec is (spawn [consumer m, producer vs] h0)"
    using schedule_exec by blast
  with closer_finishes_all [of "Suc 0" "[consumer m, producer vs]" h0]
    pipeline_any_schedule(1) [of "is" m vs h0]
  show ?thesis by (simp add: producer_closes)
qed

text \<open>
  Claim C9 (roundtrip). What is put is what is taken. For a producer that puts the
  values \<open>vs\<close> and closes the channel and a consumer that awaits \<open>m\<close> takes, the event
  loop ends with both tasks at the end of their programs; the consumer has received
  the first \<open>m\<close> values of \<open>vs\<close> in the order in which they were put, and \<open>CLOSED\<close> for
  every take beyond them; the values it has not taken are in the buffer.
\<close>

theorem pipeline_delivers:
  "\<exists>e. event_loop (boot [consumer m, producer vs] h0) = Some e \<and>
     list_all finished (tasks (program e)) \<and>
     got (tasks (program e) ! 0) = take m vs @ replicate (m - length vs) CLOSED \<and>
     messageQueue (channel (program e)) = drop m vs"
proof -
  let ?P = "[consumer m, producer vs]"
  from event_loop_run [OF engine_inv_boot [of ?P h0]]
  obtain n where e: "event_loop (boot ?P h0) = Some (engine_run n (boot ?P h0))"
    and "idle (engine_run n (boot ?P h0))" by blast
  with idle_quiescent [OF engine_inv_run [of ?P h0 n]]
  have q: "pick (program (engine_run n (boot ?P h0))) = None" by simp
  note inv = engine_invD(1) [OF engine_inv_run [of ?P h0 n]]
  have "isClosed (channel (program (engine_run n (boot ?P h0))))"
    by (rule closer_closes [OF inv _ _ _ q, of "Suc 0"]) (simp_all add: producer_closes)
  from quiescent_finished [OF inv this q]
  have fin: "list_all finished (tasks (program (engine_run n (boot ?P h0))))" .
  obtain "is" where "program (engine_run n (boot ?P h0)) = exec is (spawn ?P h0)"
    using engine_run_exec [of n "boot ?P h0"] by (auto simp: boot_def)
  with in_order_exec [OF in_order_spawn, of "is" ?P h0]
  have "in_order (program (engine_run n (boot ?P h0)))" by simp
  from pipeline_run [OF inv this fin] e fin show ?thesis by simp
qed

end
