(* ===== verification/Channel_Generic.thy ===== *)
theory Channel_Generic
  imports Channel_System
begin

text \<open>
  The channel over an interface of promises. The three functions of \<^verbatim>\<open>src/index.js\<close>
  use promises through \<open>Promise.resolve\<close>, \<open>new Promise\<close> and the resolve functions only,
  and never look at a promise. \<open>promise_ops\<close> is that interface, as a record of
  operations on a store of any type; \<open>gen_put\<close>, \<open>gen_take\<close> and \<open>gen_close\<close> are the
  functions of the code over it. With the promises of \<open>JS_Promise\<close> they are \<open>put\<close>,
  \<open>take_chan\<close> and \<open>close\<close>; \<open>Channel_Thenable\<close> runs them with promises that adopt
  promise payloads. What the channel returns and what it buffers does not depend on
  the promises at all: it is the run of a small machine on the closed flag, the buffer
  and the number of waiters.
\<close>

section \<open>The interface\<close>

text \<open>
  \<open>op_Promise_resolve\<close> is \<open>Promise.resolve\<close>, \<open>op_alloc\<close> makes a pending promise and
  \<open>op_resolve\<close> calls the resolve function of a promise. \<open>new Promise(executor)\<close> is the
  same for every implementation: allocate, then run the executor with the resolver.
\<close>

record ('v, 'h) promise_ops =
  op_Promise_resolve :: "'v \<Rightarrow> 'h \<Rightarrow> promise \<times> 'h"
  op_alloc :: "'h \<Rightarrow> promise \<times> 'h"
  op_resolve :: "resolver \<Rightarrow> 'v \<Rightarrow> 'h \<Rightarrow> 'h"

type_synonym ('a, 'h) chan_ops = "('a jsval, 'h) promise_ops"

definition gen_new_Promise ::
  "('v, 'h) promise_ops \<Rightarrow> (resolver \<Rightarrow> 'c \<Rightarrow> 'c) \<Rightarrow> 'c \<Rightarrow> 'h \<Rightarrow> promise \<times> 'c \<times> 'h" where
  "gen_new_Promise ops executor c h = (case op_alloc ops h of (p, h') \<Rightarrow> (p, executor p c, h'))"

section \<open>The channel's functions\<close>

definition gen_put ::
  "('a, 'h) chan_ops \<Rightarrow> 'a jsval \<Rightarrow> 'a chan \<Rightarrow> 'h \<Rightarrow> (js_error + bool) \<times> 'a chan \<times> 'h" where
  "gen_put ops v c h =
     (if isClosed c then (Inr False, c, h)
      else if truthy (length (resolveQueue c)) then
        (case shift (resolveQueue c) of
           (None, rq) \<Rightarrow> (Inl TypeError, c\<lparr>resolveQueue := rq\<rparr>, h)
         | (Some resolve, rq) \<Rightarrow>
             (Inr True, c\<lparr>resolveQueue := rq\<rparr>, op_resolve ops resolve v h))
      else (Inr True, c\<lparr>messageQueue := push (messageQueue c) v\<rparr>, h))"

definition gen_take :: "('a, 'h) chan_ops \<Rightarrow> 'a chan \<Rightarrow> 'h \<Rightarrow> promise \<times> 'a chan \<times> 'h" where
  "gen_take ops c h =
     (if isClosed c \<and> \<not> truthy (length (messageQueue c)) then
        (case op_Promise_resolve ops CLOSED h of (p, h') \<Rightarrow> (p, c, h'))
      else if truthy (length (messageQueue c)) then
        (case shift (messageQueue c) of (m, mq) \<Rightarrow>
           (case op_Promise_resolve ops (of_shifted m) h of (p, h') \<Rightarrow>
              (p, c\<lparr>messageQueue := mq\<rparr>, h')))
      else gen_new_Promise ops
             (\<lambda>resolve c. c\<lparr>resolveQueue := push (resolveQueue c) resolve\<rparr>) c h)"

definition gen_close :: "('a, 'h) chan_ops \<Rightarrow> 'a chan \<Rightarrow> 'h \<Rightarrow> bool \<times> 'a chan \<times> 'h" where
  "gen_close ops c h =
     (if isClosed c then (False, c, h)
      else (let c' = c\<lparr>isClosed := True\<rparr> in
        if truthy (length (resolveQueue c'))
        then (True, c',
              snd (array_map (\<lambda>resolve h. (Undefined :: 'a jsval, op_resolve ops resolve CLOSED h))
                     (resolveQueue c') h))
        else (True, c', h)))"

text \<open>Calls and sequences of calls, as \<open>call\<close> and \<open>run\<close>.\<close>

fun gen_call ::
  "('a, 'h) chan_ops \<Rightarrow> 'a operation \<Rightarrow> 'a chan \<Rightarrow> 'h \<Rightarrow> (js_error + ret) \<times> 'a chan \<times> 'h" where
  "gen_call ops (Put v) c h =
     (case gen_put ops v c h of (r, c', h') \<Rightarrow> (map_sum id RBool r, c', h'))"
| "gen_call ops Take c h =
     (case gen_take ops c h of (p, c', h') \<Rightarrow> (Inr (RPromise p), c', h'))"
| "gen_call ops Close c h =
     (case gen_close ops c h of (b, c', h') \<Rightarrow> (Inr (RBool b), c', h'))"

fun gen_run ::
  "('a, 'h) chan_ops \<Rightarrow> 'a operation list \<Rightarrow> 'a chan \<Rightarrow> 'h \<Rightarrow>
   (js_error + ret) list \<times> 'a chan \<times> 'h" where
  "gen_run ops [] c h = ([], c, h)"
| "gen_run ops (m # ms) c h =
     (case gen_call ops m c h of
        (Inl e, c', h') \<Rightarrow> ([Inl e], c', h')
      | (Inr r, c', h') \<Rightarrow>
          (case gen_run ops ms c' h' of (rs, c'', h'') \<Rightarrow> (Inr r # rs, c'', h'')))"

text \<open>The promises of \<open>JS_Promise\<close>, which fulfil with the value they are given.\<close>

definition simple_ops :: "('a, 'a jsval store) chan_ops" where
  "simple_ops =
     \<lparr>op_Promise_resolve = Promise_resolve, op_alloc = (\<lambda>h. (length h, h @ [Pending])),
      op_resolve = resolve_fn\<rparr>"

text \<open>
  The part of the state that decides what \<open>put\<close> and \<open>close\<close> return and what is
  buffered: the flag, the buffer and the number of waiters; and the channel reduced to
  it. \<open>bool_of\<close> reads the boolean a call returned; \<open>take\<close> returns none.
\<close>

definition control :: "'a chan \<Rightarrow> bool \<times> 'a jsval list \<times> nat" where
  "control c = (isClosed c, messageQueue c, length (resolveQueue c))"

fun ctl_call ::
  "'a operation \<Rightarrow> bool \<times> 'a jsval list \<times> nat \<Rightarrow> bool option \<times> bool \<times> 'a jsval list \<times> nat" where
  "ctl_call (Put v) (cl, mq, w) =
     (if cl then (Some False, cl, mq, w)
      else if 0 < w then (Some True, cl, mq, w - 1) else (Some True, cl, mq @ [v], w))"
| "ctl_call Take (cl, mq, w) =
     (if mq \<noteq> [] then (None, cl, tl mq, w) else if cl then (None, cl, mq, w)
      else (None, cl, mq, Suc w))"
| "ctl_call Close (cl, mq, w) = (Some (\<not> cl), True, mq, w)"

fun ctl_run ::
  "'a operation list \<Rightarrow> bool \<times> 'a jsval list \<times> nat \<Rightarrow>
   bool option list \<times> bool \<times> 'a jsval list \<times> nat" where
  "ctl_run [] s = ([], s)"
| "ctl_run (m # ms) s =
     (case ctl_call m s of (b, s') \<Rightarrow> (case ctl_run ms s' of (bs, s'') \<Rightarrow> (b # bs, s'')))"

definition bool_of :: "js_error + ret \<Rightarrow> bool option" where
  "bool_of r = (case r of Inr (RBool b) \<Rightarrow> Some b | _ \<Rightarrow> None)"

section \<open>The instance of plain promises\<close>

lemmas gen_defs = gen_put_def gen_take_def gen_close_def

lemma simple_ops_sel [simp]:
  "op_Promise_resolve simple_ops = Promise_resolve"
  "op_alloc simple_ops = (\<lambda>h. (length h, h @ [Pending]))"
  "op_resolve simple_ops = resolve_fn"
  by (simp_all add: simple_ops_def)

lemma gen_new_Promise_simple: "gen_new_Promise simple_ops = new_Promise"
  by (simp add: gen_new_Promise_def new_Promise_def fun_eq_iff)

lemma gen_put_simple: "gen_put simple_ops v c h = put v c h"
  by (simp add: gen_put_def put_def split: prod.splits option.splits)

lemma gen_take_simple: "gen_take simple_ops c h = take_chan c h"
  by (simp add: gen_take_def take_chan_def gen_new_Promise_simple split: prod.splits)

lemma gen_close_simple: "gen_close simple_ops c h = close c h"
  by (simp add: gen_close_def close_def resolve_closed_def [abs_def] Let_def)

lemma gen_call_simple: "gen_call simple_ops m c h = call m c h"
  by (cases m) (simp_all only: gen_call.simps call.simps gen_put_simple gen_take_simple gen_close_simple)

lemma gen_run_simple: "gen_run simple_ops ms c h = run ms c h"
  by (induction ms arbitrary: c h) (simp_all only: gen_run.simps run.simps gen_call_simple)

section \<open>Branches\<close>

lemma gen_put_closed: "isClosed c \<Longrightarrow> gen_put ops v c h = (Inr False, c, h)"
  by (simp add: gen_put_def)

lemma gen_put_handoff:
  "\<not> isClosed c \<Longrightarrow> resolveQueue c = r # rs \<Longrightarrow>
   gen_put ops v c h = (Inr True, c\<lparr>resolveQueue := rs\<rparr>, op_resolve ops r v h)"
  by (simp add: gen_put_def)

lemma gen_put_buffer:
  "\<not> isClosed c \<Longrightarrow> resolveQueue c = [] \<Longrightarrow>
   gen_put ops v c h = (Inr True, c\<lparr>messageQueue := messageQueue c @ [v]\<rparr>, h)"
  by (simp add: gen_put_def push_def)

lemma gen_take_drained:
  "isClosed c \<Longrightarrow> messageQueue c = [] \<Longrightarrow>
   gen_take ops c h =
     (fst (op_Promise_resolve ops CLOSED h), c, snd (op_Promise_resolve ops CLOSED h))"
  by (simp add: gen_take_def split: prod.splits)

lemma gen_take_buffered:
  "messageQueue c = m # ms \<Longrightarrow>
   gen_take ops c h =
     (fst (op_Promise_resolve ops m h), c\<lparr>messageQueue := ms\<rparr>, snd (op_Promise_resolve ops m h))"
  by (simp add: gen_take_def of_shifted_def split: prod.splits)

lemma gen_take_wait:
  "\<not> isClosed c \<Longrightarrow> messageQueue c = [] \<Longrightarrow>
   gen_take ops c h =
     (fst (op_alloc ops h), c\<lparr>resolveQueue := resolveQueue c @ [fst (op_alloc ops h)]\<rparr>,
      snd (op_alloc ops h))"
  by (simp add: gen_take_def gen_new_Promise_def push_def split: prod.splits)

lemma gen_close_closed: "isClosed c \<Longrightarrow> gen_close ops c h = (False, c, h)"
  by (simp add: gen_close_def)

lemma gen_close_open:
  "\<not> isClosed c \<Longrightarrow>
   gen_close ops c h =
     (True, c\<lparr>isClosed := True\<rparr>, foldl (\<lambda>h r. op_resolve ops r CLOSED h) h (resolveQueue c))"
  by (simp add: gen_close_def snd_array_map Let_def)

lemmas gen_put_simps = gen_put_closed gen_put_handoff gen_put_buffer
lemmas gen_take_simps = gen_take_drained gen_take_buffered gen_take_wait
lemmas gen_close_simps = gen_close_closed gen_close_open

section \<open>Calls and runs\<close>

lemma gen_put_returns: "ret_of (gen_put ops v c h) = Inr (\<not> isClosed c)"
  by (cases c rule: producer_cases) (simp_all add: gen_put_simps)

lemma gen_close_returns: "ret_of (gen_close ops c h) = (\<not> isClosed c)"
  by (cases "isClosed c") (simp_all add: gen_close_simps)

lemma gen_put_total: "\<exists>b. ret_of (gen_put ops v c h) = Inr b"
  by (simp add: gen_put_returns)

lemma gen_call_total: "\<exists>r. ret_of (gen_call ops m c h) = Inr r"
proof (cases m)
  case (Put v)
  with gen_put_total [of ops v c h] show ?thesis by (auto split: prod.splits)
qed (simp_all split: prod.splits)

lemma gen_run_Nil: "gen_run ops [] c h = ([], c, h)"
  by simp

lemma gen_run_Cons:
  "gen_run ops (m # ms) c h =
     (ret_of (gen_call ops m c h) #
        ret_of (gen_run ops ms (chan_of (gen_call ops m c h)) (store_of (gen_call ops m c h))),
      chan_of (gen_run ops ms (chan_of (gen_call ops m c h)) (store_of (gen_call ops m c h))),
      store_of (gen_run ops ms (chan_of (gen_call ops m c h)) (store_of (gen_call ops m c h))))"
  using gen_call_total [of ops m c h] by (auto split: prod.splits sum.splits)

lemma gen_call_sel:
  "gen_call ops (Put v) c h =
     (map_sum id RBool (ret_of (gen_put ops v c h)), chan_of (gen_put ops v c h),
      store_of (gen_put ops v c h))"
  "gen_call ops Take c h =
     (Inr (RPromise (ret_of (gen_take ops c h))), chan_of (gen_take ops c h),
      store_of (gen_take ops c h))"
  "gen_call ops Close c h =
     (Inr (RBool (ret_of (gen_close ops c h))), chan_of (gen_close ops c h),
      store_of (gen_close ops c h))"
  by (simp_all split: prod.splits)

declare gen_call.simps [simp del]
declare gen_run.simps(2) [simp del]

lemma gen_run_append:
  "gen_run ops (ms @ ns) c h =
     (ret_of (gen_run ops ms c h) @
        ret_of (gen_run ops ns (chan_of (gen_run ops ms c h)) (store_of (gen_run ops ms c h))),
      chan_of (gen_run ops ns (chan_of (gen_run ops ms c h)) (store_of (gen_run ops ms c h))),
      store_of (gen_run ops ns (chan_of (gen_run ops ms c h)) (store_of (gen_run ops ms c h))))"
  by (induction ms arbitrary: c h) (simp_all add: gen_run_Cons)

lemma gen_run_snoc:
  "gen_run ops (ms @ [m]) c h =
     (ret_of (gen_run ops ms c h) @
        [ret_of (gen_call ops m (chan_of (gen_run ops ms c h)) (store_of (gen_run ops ms c h)))],
      chan_of (gen_call ops m (chan_of (gen_run ops ms c h)) (store_of (gen_run ops ms c h))),
      store_of (gen_call ops m (chan_of (gen_run ops ms c h)) (store_of (gen_run ops ms c h))))"
  by (simp add: gen_run_append gen_run_Cons)

lemmas gen_run_simps = gen_run_Nil gen_run_Cons

section \<open>The control state\<close>

lemma control_put:
  "control (chan_of (gen_put ops v c h)) = snd (ctl_call (Put v) (control c))"
  "ret_of (gen_put ops v c h) = Inr (the (fst (ctl_call (Put v) (control c))))"
  by (cases c rule: producer_cases; simp add: gen_put_simps control_def)+

lemma control_take:
  "control (chan_of (gen_take ops c h)) = snd (ctl_call Take (control c))"
  by (cases c rule: consumer_cases) (simp_all add: gen_take_simps control_def)

lemma control_close:
  "control (chan_of (gen_close ops c h)) = snd (ctl_call Close (control c))"
  "ret_of (gen_close ops c h) = (\<not> isClosed c)"
  by (cases "isClosed c"; simp add: gen_close_simps control_def)+

lemma control_call:
  "control (chan_of (gen_call ops m c h)) = snd (ctl_call m (control c))"
  "bool_of (ret_of (gen_call ops m c h)) = fst (ctl_call m (control c))"
proof -
  show "control (chan_of (gen_call ops m c h)) = snd (ctl_call m (control c))"
    by (cases m) (simp_all add: gen_call_sel control_put control_take control_close)
  show "bool_of (ret_of (gen_call ops m c h)) = fst (ctl_call m (control c))"
    by (cases m) (simp_all add: gen_call_sel control_put control_close bool_of_def control_def)
qed

lemma ctl_run_Cons:
  "ctl_run (m # ms) s =
     (fst (ctl_call m s) # fst (ctl_run ms (snd (ctl_call m s))), snd (ctl_run ms (snd (ctl_call m s))))"
  by (simp split: prod.splits)

declare ctl_run.simps(2) [simp del]

lemma control_run:
  "map bool_of (ret_of (gen_run ops ms c h)) = fst (ctl_run ms (control c)) \<and>
   control (chan_of (gen_run ops ms c h)) = snd (ctl_run ms (control c))"
proof (induction ms arbitrary: c h)
  case Nil
  show ?case by simp
next
  case (Cons m ms)
  from Cons [of "chan_of (gen_call ops m c h)" "store_of (gen_call ops m c h)"]
  show ?case by (simp add: gen_run_Cons ctl_run_Cons control_call)
qed

text \<open>
  The channel over the interface is the channel of the code,
  and what it returns and buffers does not depend on the promises. With the promises
  of \<open>JS_Promise\<close> a sequence of calls is the \<open>run\<close> of \<open>Channel_System\<close>; and for every
  implementation of the interface and every store, the booleans that the calls
  return, and the closed flag, the buffer and the number of waiters they leave, are
  those of the run of the control machine \<open>ctl_run\<close>.
\<close>

lemma control_independent:
  "gen_run simple_ops ms c h0 = run ms c h0 \<and>
   map bool_of (ret_of (gen_run ops ms c h)) = fst (ctl_run ms (control c)) \<and>
   control (chan_of (gen_run ops ms c h)) = snd (ctl_run ms (control c))"
  by (simp add: gen_run_simple control_run)

end
