(* ===== verification/JS_Promise_Full.thy ===== *)
theory JS_Promise_Full
  imports JS_Promise
begin

text \<open>
  Promises as they behave when a value is itself a promise. A resolve function that
  is given a promise does not fulfil with it: its promise adopts the other one and
  settles as that one does, and a promise given to itself is rejected with a
  \<open>TypeError\<close>. \<open>Promise.resolve\<close> of a promise returns that very promise. The
  parameter \<open>thn\<close> of the operations tells which values are promises. \<open>root\<close> follows
  adoptions to the promise that decides the outcome; adoptions can form a cycle, on
  which no promise ever settles, so \<open>root\<close> is partial and \<open>None\<close> is "settles never".
  Objects with a \<open>then\<close> method that are not promises run code of their own; they are
  the subject of \<open>JS_Promise_Jobs\<close>. The jobs that carry a settlement along an adoption
  are abstracted to its result.
\<close>

section \<open>States of a promise\<close>

text \<open>
  A promise is pending, fulfilled, rejected with a reason, or locked in to follow
  another promise. \<open>SelfResolution\<close> is the \<open>TypeError\<close> of resolving a promise with
  itself.
\<close>

datatype 'v reason = SelfResolution | Reason 'v

datatype 'v pstate = PPending | PFulfilled 'v | PRejected "'v reason" | PFollows promise

type_synonym 'v pstore = "'v pstate list"

section \<open>Operations\<close>

definition Promise_resolve_full ::
  "('v \<Rightarrow> promise option) \<Rightarrow> 'v \<Rightarrow> 'v pstore \<Rightarrow> promise \<times> 'v pstore" where
  "Promise_resolve_full thn x h =
     (case thn x of Some q \<Rightarrow> (q, h) | None \<Rightarrow> (length h, h @ [PFulfilled x]))"

definition alloc_full :: "'v pstore \<Rightarrow> promise \<times> 'v pstore" where
  "alloc_full h = (length h, h @ [PPending])"

definition resolve_full ::
  "('v \<Rightarrow> promise option) \<Rightarrow> resolver \<Rightarrow> 'v \<Rightarrow> 'v pstore \<Rightarrow> 'v pstore" where
  "resolve_full thn p x h =
     (if p < length h \<and> h ! p = PPending then
        (case thn x of
           None \<Rightarrow> h[p := PFulfilled x]
         | Some q \<Rightarrow> if q = p then h[p := PRejected SelfResolution] else h[p := PFollows q])
      else h)"

text \<open>
  The promise at the end of the adoptions that start at \<open>p\<close>, and what a caller who
  awaits \<open>p\<close> gets: still waiting, a value, or an exception.
\<close>

partial_function (option) root :: "'v pstore \<Rightarrow> promise \<Rightarrow> promise option" where
  "root h p =
     (if p < length h then (case h ! p of PFollows q \<Rightarrow> root h q | _ \<Rightarrow> Some p) else Some p)"

datatype 'v outcome = Waiting | Resolved 'v | Thrown "'v reason"

definition state_outcome :: "'v pstate \<Rightarrow> 'v outcome" where
  "state_outcome s =
     (case s of PFulfilled v \<Rightarrow> Resolved v | PRejected e \<Rightarrow> Thrown e | _ \<Rightarrow> Waiting)"

definition outcome_of :: "'v pstore \<Rightarrow> promise \<Rightarrow> 'v outcome option" where
  "outcome_of h p =
     map_option (\<lambda>r. if r < length h then state_outcome (h ! r) else Waiting) (root h p)"

text \<open>
  The adoptions of a store as a relation (\<open>(q, p)\<close> when \<open>p\<close> follows \<open>q\<close>), the order
  in which stores evolve (a promise that is not pending is never written again),
  stores whose adoptions point into the store, and the embedding of the stores of
  \<open>JS_Promise\<close>.
\<close>

definition follows :: "'v pstore \<Rightarrow> (promise \<times> promise) set" where
  "follows h = {(q, p). p < length h \<and> h ! p = PFollows q}"

definition pstore_le :: "'v pstore \<Rightarrow> 'v pstore \<Rightarrow> bool" where
  "pstore_le h h' \<longleftrightarrow>
     length h \<le> length h' \<and> (\<forall>p<length h. h ! p \<noteq> PPending \<longrightarrow> h' ! p = h ! p)"

definition store_ok :: "'v pstore \<Rightarrow> bool" where
  "store_ok h = list_all (\<lambda>s. case s of PFollows q \<Rightarrow> q < length h | _ \<Rightarrow> True) h"

definition lift_settle :: "'v settle \<Rightarrow> 'v pstate" where
  "lift_settle s = (case s of Pending \<Rightarrow> PPending | Fulfilled v \<Rightarrow> PFulfilled v)"

section \<open>Following\<close>

lemma root_out: "\<not> p < length h \<Longrightarrow> root h p = Some p"
  by (simp add: root.simps)

lemma root_step: "p < length h \<Longrightarrow> h ! p = PFollows q \<Longrightarrow> root h p = root h q"
  by (subst root.simps) simp

lemma root_end: "p < length h \<Longrightarrow> \<forall>q. h ! p \<noteq> PFollows q \<Longrightarrow> root h p = Some p"
  by (subst root.simps) (simp split: pstate.splits)

lemma finite_follows: "finite (follows h)"
proof -
  have "follows h \<subseteq> (\<lambda>p. (case h ! p of PFollows q \<Rightarrow> q | _ \<Rightarrow> 0, p)) ` {..<length h}"
    by (auto simp: follows_def image_iff)
  then show ?thesis by (rule finite_surj [rotated]) simp
qed

lemma wf_follows: "acyclic (follows h) \<Longrightarrow> wf (follows h)"
  by (rule finite_acyclic_wf [OF finite_follows])

lemma follows_functional: "(q, p) \<in> follows h \<Longrightarrow> (q', p) \<in> follows h \<Longrightarrow> q = q'"
  by (simp add: follows_def)

lemma root_terminates:
  assumes "acyclic (follows h)"
  shows "\<exists>r. root h p = Some r \<and> (r < length h \<longrightarrow> (\<forall>q. h ! r \<noteq> PFollows q))"
proof (induction p rule: wf_induct_rule [OF wf_follows [OF assms]])
  case (1 p)
  show ?case
  proof (cases "p < length h \<and> (\<exists>q. h ! p = PFollows q)")
    case True
    then obtain q where q: "p < length h" "h ! p = PFollows q" by blast
    then have "(q, p) \<in> follows h" by (simp add: follows_def)
    from 1 [OF this] q show ?thesis by (simp add: root_step)
  next
    case False
    then show ?thesis by (cases "p < length h") (auto simp: root_end root_out)
  qed
qed

lemma on_cycle_next:
  assumes "(p, p) \<in> (follows h)\<^sup>+" and "p < length h" and "h ! p = PFollows q"
  shows "(q, q) \<in> (follows h)\<^sup>+"
proof -
  from assms(1) obtain z where z: "(p, z) \<in> (follows h)\<^sup>*" "(z, p) \<in> follows h"
    by (auto dest: tranclD2)
  from assms(2,3) have "(q, p) \<in> follows h" by (simp add: follows_def)
  with z(2) have "z = q" by (rule follows_functional)
  with z(1) \<open>(q, p) \<in> follows h\<close> show ?thesis by (auto intro: rtrancl_into_trancl2)
qed

lemma on_cycle_follows:
  "(p, p) \<in> (follows h)\<^sup>+ \<Longrightarrow> p < length h \<and> (\<exists>q. h ! p = PFollows q)"
  by (auto dest!: tranclD2 simp: follows_def)

lemma root_Some_acyclic:
  assumes ret: "root h p = Some r"
  shows "(p, p) \<notin> (follows h)\<^sup>+"
proof (rule root.raw_induct [where P = "\<lambda>h p r. (p, p) \<notin> (follows h)\<^sup>+", OF _ ret])
  fix f h p r
  assume IH: "\<And>h p r. f h p = Some r \<Longrightarrow> (p, p) \<notin> (follows h)\<^sup>+"
    and eq: "(if p < length h then case h ! p of PFollows q \<Rightarrow> f h q | _ \<Rightarrow> Some p
             else Some p) = Some r"
  show "(p, p) \<notin> (follows h)\<^sup>+"
  proof
    assume cyc: "(p, p) \<in> (follows h)\<^sup>+"
    from on_cycle_follows [OF cyc] obtain q where q: "p < length h" "h ! p = PFollows q"
      by blast
    with eq have "f h q = Some r" by simp
    from IH [OF this] on_cycle_next [OF cyc q] show False by simp
  qed
qed

lemma root_cycle: "(p, p) \<in> (follows h)\<^sup>+ \<Longrightarrow> root h p = None"
  using root_Some_acyclic [of h p] by (cases "root h p") auto

section \<open>Settlement is final\<close>

lemma pstore_le_refl [simp]: "pstore_le h h"
  by (simp add: pstore_le_def)

lemma pstore_le_trans: "pstore_le h h' \<Longrightarrow> pstore_le h' h'' \<Longrightarrow> pstore_le h h''"
  by (auto simp: pstore_le_def)

lemma pstore_le_snoc [simp]: "pstore_le h (h @ [x])"
  by (simp add: pstore_le_def nth_append)

lemma length_resolve_full [simp]: "length (resolve_full thn p x h) = length h"
  by (simp add: resolve_full_def split: option.splits)

lemma nth_resolve_full_other: "q \<noteq> p \<Longrightarrow> resolve_full thn p x h ! q = h ! q"
  by (simp add: resolve_full_def split: option.splits)

lemma resolve_full_settled: "h ! p \<noteq> PPending \<Longrightarrow> resolve_full thn p x h = h"
  by (simp add: resolve_full_def)

lemma pstore_le_resolve_full [simp]: "pstore_le h (resolve_full thn p x h)"
  by (auto simp: pstore_le_def resolve_full_def nth_list_update split: option.splits)

lemma pstore_le_alloc [simp]: "pstore_le h (snd (alloc_full h))"
  by (simp add: alloc_full_def)

lemma pstore_le_Promise_resolve [simp]: "pstore_le h (snd (Promise_resolve_full thn x h))"
  by (simp add: Promise_resolve_full_def split: option.splits)

lemma root_stable:
  assumes ret: "root h p = Some r" and le: "pstore_le h h'"
  shows "r < length h \<longrightarrow> h ! r \<noteq> PPending \<longrightarrow> root h' p = Some r"
proof (rule root.raw_induct
    [where P = "\<lambda>h0 p r. h0 = h \<longrightarrow> r < length h \<longrightarrow> h ! r \<noteq> PPending \<longrightarrow> root h' p = Some r",
      OF _ ret, THEN mp])
  fix f h0 p r
  assume IH: "\<And>h0 p r. f h0 p = Some r \<Longrightarrow>
      h0 = h \<longrightarrow> r < length h \<longrightarrow> h ! r \<noteq> PPending \<longrightarrow> root h' p = Some r"
    and eq: "(if p < length h0 then case h0 ! p of PFollows q \<Rightarrow> f h0 q | _ \<Rightarrow> Some p
             else Some p) = Some r"
  show "h0 = h \<longrightarrow> r < length h \<longrightarrow> h ! r \<noteq> PPending \<longrightarrow> root h' p = Some r"
  proof (intro impI)
    assume h0: "h0 = h" and r: "r < length h" "h ! r \<noteq> PPending"
    show "root h' p = Some r"
    proof (cases "p < length h")
      case False
      with eq h0 r show ?thesis by simp
    next
      case True
      show ?thesis
      proof (cases "\<exists>q. h ! p = PFollows q")
        case True
        then obtain q where q: "h ! p = PFollows q" by blast
        with eq h0 \<open>p < length h\<close> have "f h q = Some r" by simp
        from IH [OF this] r have "root h' q = Some r" by simp
        moreover from le q \<open>p < length h\<close> have "p < length h'" "h' ! p = PFollows q"
          by (auto simp: pstore_le_def)
        ultimately show ?thesis by (simp add: root_step)
      next
        case False
        with eq h0 \<open>p < length h\<close> have "r = p" by (auto split: pstate.splits)
        with le r False have "p < length h'" "\<forall>q. h' ! p \<noteq> PFollows q"
          by (auto simp: pstore_le_def)
        with \<open>r = p\<close> show ?thesis by (simp add: root_end)
      qed
    qed
  qed
qed simp

lemma outcome_stable:
  assumes "outcome_of h p = Some out" and "out \<noteq> Waiting" and "pstore_le h h'"
  shows "outcome_of h' p = Some out"
proof -
  from assms(1,2) obtain r where r: "root h p = Some r" "r < length h" "state_outcome (h ! r) = out"
    by (auto simp: outcome_of_def split: if_splits)
  with assms(2) have np: "h ! r \<noteq> PPending"
    by (auto simp: state_outcome_def)
  with root_stable [OF r(1) assms(3)] r(2) have "root h' p = Some r" by simp
  moreover from assms(3) r(2) np have "r < length h'" "h' ! r = h ! r"
    by (auto simp: pstore_le_def)
  ultimately show ?thesis using r(3) by (simp add: outcome_of_def)
qed

lemma root_defined_back:
  assumes ret: "root h' p = Some r" and le: "pstore_le h h'"
  shows "\<exists>r0. root h p = Some r0"
proof (rule root.raw_induct
    [where P = "\<lambda>h0 p r. h0 = h' \<longrightarrow> (\<exists>r0. root h p = Some r0)", OF _ ret, THEN mp])
  fix f h0 p r
  assume IH: "\<And>h0 p r. f h0 p = Some r \<Longrightarrow> h0 = h' \<longrightarrow> (\<exists>r0. root h p = Some r0)"
    and eq: "(if p < length h0 then case h0 ! p of PFollows q \<Rightarrow> f h0 q | _ \<Rightarrow> Some p
             else Some p) = Some r"
  show "h0 = h' \<longrightarrow> (\<exists>r0. root h p = Some r0)"
  proof
    assume h0: "h0 = h'"
    show "\<exists>r0. root h p = Some r0"
    proof (cases "p < length h \<and> (\<exists>q. h ! p = PFollows q)")
      case False
      then show ?thesis by (cases "p < length h") (auto simp: root_end root_out)
    next
      case True
      then obtain q where q: "p < length h" "h ! p = PFollows q" by blast
      with le have "p < length h'" "h' ! p = PFollows q" by (auto simp: pstore_le_def)
      with eq h0 have "f h' q = Some r" by simp
      from IH [OF this] q show ?thesis by (simp add: root_step)
    qed
  qed
qed simp

lemma never_settles_stable: "root h p = None \<Longrightarrow> pstore_le h h' \<Longrightarrow> root h' p = None"
  using root_defined_back [of h' p _ h] by (cases "root h' p") auto

section \<open>Stores without adoption\<close>

lemma lift_settle_simps [simp]:
  "lift_settle Pending = PPending" "lift_settle (Fulfilled v) = PFulfilled v"
  by (simp_all add: lift_settle_def)

lemma lift_eq_PPending [simp]: "lift_settle s = PPending \<longleftrightarrow> s = Pending"
  by (cases s) simp_all

lemma lift_neq_PFollows [simp]: "lift_settle s \<noteq> PFollows q"
  by (cases s) simp_all

lemma resolve_full_lift:
  "thn x = None \<Longrightarrow>
   resolve_full thn p x (map lift_settle h) = map lift_settle (resolve_fn p x h)"
  by (auto simp: resolve_full_def resolve_fn_def map_update)

lemma Promise_resolve_full_lift:
  "thn x = None \<Longrightarrow>
   Promise_resolve_full thn x (map lift_settle h) =
     (fst (Promise_resolve x h), map lift_settle (snd (Promise_resolve x h)))"
  by (simp add: Promise_resolve_full_def Promise_resolve_def)

lemma alloc_full_lift: "alloc_full (map lift_settle h) = (length h, map lift_settle (h @ [Pending]))"
  by (simp add: alloc_full_def)

lemma root_lift: "root (map lift_settle h) p = Some p"
  by (cases "p < length h") (simp_all add: root_end root_out)

lemma outcome_lift:
  "outcome_of (map lift_settle h) p =
     Some (case await p h of Some v \<Rightarrow> Resolved v | None \<Rightarrow> Waiting)"
  by (cases "p < length h")
    (auto simp: outcome_of_def root_lift await_def state_outcome_def split: settle.splits)

section \<open>Well-formed stores\<close>

lemma store_ok_iff:
  "store_ok h \<longleftrightarrow> (\<forall>p<length h. \<forall>q. h ! p = PFollows q \<longrightarrow> q < length h)"
  by (auto simp: store_ok_def list_all_length split: pstate.splits)

lemma store_ok_snoc:
  "store_ok h \<Longrightarrow> (\<forall>q. x = PFollows q \<longrightarrow> q \<le> length h) \<Longrightarrow> store_ok (h @ [x])"
  by (auto simp: store_ok_iff nth_append less_Suc_eq)

lemma store_ok_resolve_full:
  "store_ok h \<Longrightarrow> (\<forall>q. thn x = Some q \<longrightarrow> q < length h) \<Longrightarrow> store_ok (resolve_full thn p x h)"
  by (auto simp: store_ok_iff resolve_full_def nth_list_update split: option.splits if_splits)

lemma store_ok_settle_all:
  "store_ok h \<Longrightarrow> thn x = None \<Longrightarrow> store_ok (foldl (\<lambda>h r. resolve_full thn r x h) h rs)"
  by (induction rs arbitrary: h) (simp_all add: store_ok_resolve_full)

lemma length_foldl_resolve_full [simp]:
  "length (foldl (\<lambda>h r. resolve_full thn r x h) h rs) = length h"
  by (induction rs arbitrary: h) simp_all

lemma root_in_store:
  assumes ret: "root h p = Some r" and ok: "store_ok h"
  shows "p < length h \<longrightarrow> r < length h"
proof (rule root.raw_induct
    [where P = "\<lambda>h0 p r. h0 = h \<longrightarrow> p < length h \<longrightarrow> r < length h", OF _ ret, THEN mp])
  fix f h0 p r
  assume IH: "\<And>h0 p r. f h0 p = Some r \<Longrightarrow> h0 = h \<longrightarrow> p < length h \<longrightarrow> r < length h"
    and eq: "(if p < length h0 then case h0 ! p of PFollows q \<Rightarrow> f h0 q | _ \<Rightarrow> Some p
             else Some p) = Some r"
  show "h0 = h \<longrightarrow> p < length h \<longrightarrow> r < length h"
  proof (intro impI)
    assume h0: "h0 = h" and p: "p < length h"
    show "r < length h"
    proof (cases "\<exists>q. h ! p = PFollows q")
      case True
      then obtain q where q: "h ! p = PFollows q" by blast
      with ok p have "q < length h" by (auto simp: store_ok_iff)
      moreover from eq h0 p q have "f h q = Some r" by simp
      ultimately show ?thesis using IH by blast
    next
      case False
      with eq h0 p show ?thesis by (auto split: pstate.splits)
    qed
  qed
qed simp

section \<open>Termination\<close>



end
