(* ===== verification/Channel_Thenable.thy ===== *)
theory Channel_Thenable
  imports Channel_Generic JS_Promise_Full
begin

text \<open>
  The channel when a producer puts a promise. \<open>put\<close> takes any value, so also a
  promise; the resolve function of a waiting consumer then adopts it, and
  \<open>Promise.resolve\<close> of a buffered promise returns it as it is. For payloads that are
  not promises the channel behaves as in \<open>Channel\<close>, and every theorem about \<open>run\<close>
  carries over. With promise payloads a consumer can receive an exception, or wait for
  ever even after \<open>close\<close>.
\<close>

section \<open>Payloads\<close>

text \<open>A payload is a plain value or a promise of the store.\<close>

datatype 'b payload = Plain 'b | PromiseRef promise

fun thenable :: "'b payload jsval \<Rightarrow> promise option" where
  "thenable (Payload (PromiseRef p)) = Some p"
| "thenable v = None"

text \<open>The promises of \<open>JS_Promise_Full\<close> as an implementation of the interface.\<close>

definition full_ops :: "('b payload, 'b payload jsval pstore) chan_ops" where
  "full_ops =
     \<lparr>op_Promise_resolve = Promise_resolve_full thenable, op_alloc = alloc_full,
      op_resolve = resolve_full thenable\<rparr>"

text \<open>
  Calls and channels without promise payloads; calls whose promise payload exists;
  states in which every promise that is referred to exists.
\<close>

definition plain_call :: "'b payload operation \<Rightarrow> bool" where
  "plain_call m = (case m of Put v \<Rightarrow> thenable v = None | _ \<Rightarrow> True)"

definition plain_chan :: "'b payload chan \<Rightarrow> bool" where
  "plain_chan c = list_all (\<lambda>v. thenable v = None) (messageQueue c)"

definition valid_call :: "'b payload operation \<Rightarrow> 'b payload jsval pstore \<Rightarrow> bool" where
  "valid_call m h = (case m of Put v \<Rightarrow> (case thenable v of Some q \<Rightarrow> q < length h | None \<Rightarrow> True)
                     | _ \<Rightarrow> True)"

definition refs_ok :: "'b payload chan \<Rightarrow> 'b payload jsval pstore \<Rightarrow> bool" where
  "refs_ok c h \<longleftrightarrow>
     list_all (\<lambda>r. r < length h) (resolveQueue c) \<and>
     list_all (\<lambda>v. case thenable v of Some q \<Rightarrow> q < length h | None \<Rightarrow> True) (messageQueue c) \<and>
     store_ok h"

section \<open>The instance\<close>

lemma full_ops_sel [simp]:
  "op_Promise_resolve full_ops = Promise_resolve_full thenable"
  "op_alloc full_ops = alloc_full"
  "op_resolve full_ops = resolve_full thenable"
  by (simp_all add: full_ops_def)

lemma thenable_simps [simp]: "thenable CLOSED = None" "thenable Undefined = None"
  "thenable (Payload (Plain b)) = None"
  by simp_all

section \<open>Settlement is final for the channel\<close>

lemma pstore_le_foldl_resolve:
  "pstore_le h (foldl (\<lambda>h r. resolve_full thn r x h) h rs)"
proof (induction rs arbitrary: h)
  case Nil
  show ?case by simp
next
  case (Cons r rs)
  from pstore_le_trans [OF pstore_le_resolve_full Cons] show ?case by simp
qed

lemma pstore_le_full_call: "pstore_le h (store_of (gen_call full_ops m c h))"
proof (cases m)
  case (Put v)
  then show ?thesis
    by (cases c rule: producer_cases) (simp_all add: gen_call_sel gen_put_simps)
next
  case Take
  then show ?thesis
    by (cases c rule: consumer_cases) (simp_all add: gen_call_sel gen_take_simps)
next
  case Close
  then show ?thesis
    by (cases "isClosed c") (simp_all add: gen_call_sel gen_close_simps pstore_le_foldl_resolve)
qed

lemma pstore_le_full_run: "pstore_le h (store_of (gen_run full_ops ms c h))"
proof (induction ms arbitrary: c h)
  case Nil
  show ?case by simp
next
  case (Cons m ms)
  from pstore_le_trans [OF pstore_le_full_call Cons] show ?case by (simp add: gen_run_Cons)
qed

section \<open>Plain payloads\<close>

lemma foldl_resolve_lift:
  "thn x = None \<Longrightarrow>
   foldl (\<lambda>h r. resolve_full thn r x h) (map lift_settle h) rs =
     map lift_settle (settle_all x rs h)"
  by (induction rs arbitrary: h) (simp_all add: resolve_full_lift)

lemma full_put_lift:
  "thenable v = None \<Longrightarrow>
   gen_put full_ops v c (map lift_settle h) =
     (ret_of (put v c h), chan_of (put v c h), map lift_settle (store_of (put v c h)))"
  by (cases c rule: producer_cases) (simp_all add: gen_put_simps put_simps resolve_full_lift)

lemma full_take_lift:
  "plain_chan c \<Longrightarrow>
   gen_take full_ops c (map lift_settle h) =
     (ret_of (take_chan c h), chan_of (take_chan c h), map lift_settle (store_of (take_chan c h)))"
  by (cases c rule: consumer_cases)
    (simp_all add: gen_take_simps take_simps Promise_resolve_full_lift alloc_full_lift
      plain_chan_def Promise_resolve_def)

lemma full_close_lift:
  "gen_close full_ops c (map lift_settle h) =
     (ret_of (close c h), chan_of (close c h), map lift_settle (store_of (close c h)))"
  by (cases "isClosed c") (simp_all add: gen_close_simps close_simps foldl_resolve_lift)

lemma full_call_lift:
  assumes "plain_chan c" and "plain_call m"
  shows "gen_call full_ops m c (map lift_settle h) =
           (ret_of (call m c h), chan_of (call m c h), map lift_settle (store_of (call m c h)))"
  using assms
  by (cases m)
    (simp_all add: gen_call_sel full_put_lift full_take_lift full_close_lift plain_call_def
      put_returns take_returns close_returns)

lemma plain_chan_call:
  assumes "plain_chan c" and "plain_call m"
  shows "plain_chan (chan_of (call m c h))"
proof (cases m)
  case (Put v)
  with assms show ?thesis
    by (cases c rule: producer_cases) (simp_all add: put_simps plain_chan_def plain_call_def)
next
  case Take
  with assms show ?thesis
    by (cases c rule: consumer_cases) (simp_all add: take_simps plain_chan_def)
next
  case Close
  with assms show ?thesis
    by (cases "isClosed c") (simp_all add: close_simps plain_chan_def)
qed

lemma full_run_lift:
  assumes "plain_chan c" and "list_all plain_call ms"
  shows "gen_run full_ops ms c (map lift_settle h) =
           (ret_of (run ms c h), chan_of (run ms c h), map lift_settle (store_of (run ms c h)))"
  using assms
proof (induction ms arbitrary: c h)
  case Nil
  show ?case by (simp add: run_Nil)
next
  case (Cons m ms)
  from Cons.prems have m: "plain_call m" and ms: "list_all plain_call ms" by simp_all
  from plain_chan_call [OF Cons.prems(1) m] have "plain_chan (chan_of (call m c h))" .
  from Cons.IH [OF this ms] full_call_lift [OF Cons.prems(1) m]
  show ?case by (simp add: gen_run_Cons run_Cons)
qed

lemma outcome_settled:
  "p < length h \<Longrightarrow> \<forall>q. h ! p \<noteq> PFollows q \<Longrightarrow> outcome_of h p = Some (state_outcome (h ! p))"
  by (simp add: outcome_of_def root_end)

lemma outcome_step:
  "p < length h \<Longrightarrow> h ! p = PFollows q \<Longrightarrow> outcome_of h p = outcome_of h q"
  by (simp add: outcome_of_def root_step)

text \<open>
  When no promise is put, the channel over adopting promises
  and the channel of \<open>Channel\<close> agree: every sequence of calls returns the same results,
  leaves the same channel and the same store, and every promise has the outcome that
  \<open>await\<close> reads in the plain store.
\<close>

lemma plain_payloads_agree:
  assumes "list_all plain_call ms"
  shows "gen_run full_ops ms createChannel (map lift_settle h) =
           (ret_of (run ms createChannel h), chan_of (run ms createChannel h),
            map lift_settle (store_of (run ms createChannel h))) \<and>
         outcome_of (store_of (gen_run full_ops ms createChannel (map lift_settle h))) p =
           Some (case await p (store_of (run ms createChannel h)) of
                   Some v \<Rightarrow> Resolved v | None \<Rightarrow> Waiting)"
proof -
  have "plain_chan createChannel" by (simp add: plain_chan_def createChannel_def)
  from full_run_lift [OF this assms, of h] show ?thesis by (simp add: outcome_lift)
qed

section \<open>Promise payloads\<close>

lemmas full_eval = gen_run_simps gen_call_sel gen_defs gen_new_Promise_def alloc_full_def
  resolve_full_def Promise_resolve_full_def createChannel_def push_def of_shifted_def Let_def


text \<open>
  Two waiting consumers whose promises are put into the channel in crossed order
  adopt each other.
\<close>

lemma crossed_store:
  "store_of (gen_run full_ops
     [Take, Take, Put (Payload (PromiseRef (Suc (length h0)))),
      Put (Payload (PromiseRef (length h0))), Close] createChannel h0) =
   h0 @ [PFollows (Suc (length h0)), PFollows (length h0)]"
  by (simp add: full_eval nth_append list_update_append)

lemma crossed_cycle:
  "(length h0, length h0) \<in> (follows (h0 @ [PFollows (Suc (length h0)), PFollows (length h0)]))\<^sup>+"
proof -
  let ?h = "h0 @ [PFollows (Suc (length h0)), PFollows (length h0)]"
  have "(Suc (length h0), length h0) \<in> follows ?h" "(length h0, Suc (length h0)) \<in> follows ?h"
    by (simp_all add: follows_def nth_append)
  then show ?thesis by (auto intro: trancl_trans)
qed

text \<open>
  Claim C34 (liveness). After two calls of \<open>take\<close> whose promises are then put in
  crossed order, the first promise never settles: not when the channel is closed,
  and not after any further calls. \<open>close\<close> cannot reach it, as both resolvers have
  left \<open>resolveQueue\<close>.
\<close>

theorem crossed_takes_never_settle:
  "outcome_of (store_of (gen_run full_ops
     ([Take, Take, Put (Payload (PromiseRef (Suc (length h0)))),
       Put (Payload (PromiseRef (length h0))), Close] @ ns) createChannel h0)) (length h0) = None"
proof -
  let ?pre = "[Take, Take, Put (Payload (PromiseRef (Suc (length h0)))),
    Put (Payload (PromiseRef (length h0))), Close]"
  have "root (store_of (gen_run full_ops ?pre createChannel h0)) (length h0) = None"
    unfolding crossed_store by (rule root_cycle) (rule crossed_cycle)
  moreover have "pstore_le (store_of (gen_run full_ops ?pre createChannel h0))
      (store_of (gen_run full_ops (?pre @ ns) createChannel h0))"
    by (subst gen_run_append) (simp add: pstore_le_full_run)
  ultimately have "root (store_of (gen_run full_ops (?pre @ ns) createChannel h0)) (length h0) = None"
    by (rule never_settles_stable)
  then show ?thesis by (simp add: outcome_of_def)
qed



text \<open>
  With promise payloads too, no promise is settled twice: a
  promise that has a value or an exception keeps it, whatever is called on the
  channel afterwards.
\<close>

lemma settled_stays_settled:
  assumes "outcome_of (store_of (gen_run full_ops ms c h)) p = Some out" and "out \<noteq> Waiting"
  shows "outcome_of (store_of (gen_run full_ops (ms @ ns) c h)) p = Some out"
proof -
  have "pstore_le (store_of (gen_run full_ops ms c h)) (store_of (gen_run full_ops (ms @ ns) c h))"
    by (subst gen_run_append) (simp add: pstore_le_full_run)
  with assms show ?thesis by (rule outcome_stable)
qed

section \<open>References stay inside the store\<close>

lemma refs_ok_iff:
  "refs_ok c h \<longleftrightarrow>
     (\<forall>r \<in> set (resolveQueue c). r < length h) \<and>
     (\<forall>v \<in> set (messageQueue c). \<forall>q. thenable v = Some q \<longrightarrow> q < length h) \<and> store_ok h"
  by (auto simp: refs_ok_def list_all_iff split: option.splits)

lemma valid_call_Put: "valid_call (Put v) h \<longleftrightarrow> (\<forall>q. thenable v = Some q \<longrightarrow> q < length h)"
  by (auto simp: valid_call_def split: option.splits)

lemma refs_ok_put:
  assumes "refs_ok c h" and "valid_call (Put v) h"
  shows "refs_ok (chan_of (gen_put full_ops v c h)) (store_of (gen_put full_ops v c h))"
  using assms
  by (cases c rule: producer_cases)
    (auto simp: gen_put_simps refs_ok_iff valid_call_Put store_ok_resolve_full)

lemma refs_ok_take:
  assumes "refs_ok c h"
  shows "refs_ok (chan_of (gen_take full_ops c h)) (store_of (gen_take full_ops c h)) \<and>
         ret_of (gen_take full_ops c h) < length (store_of (gen_take full_ops c h))"
  using assms
  by (cases c rule: consumer_cases)
    (auto simp: gen_take_simps refs_ok_iff Promise_resolve_full_def alloc_full_def
      store_ok_snoc less_Suc_eq split: option.splits)

lemma refs_ok_close:
  assumes "refs_ok c h"
  shows "refs_ok (chan_of (gen_close full_ops c h)) (store_of (gen_close full_ops c h))"
  using assms
  by (cases "isClosed c") (auto simp: gen_close_simps refs_ok_iff store_ok_settle_all)



end
