(* ===== verification/JS_Promise_Jobs.thy ===== *)
theory JS_Promise_Jobs
  imports JS_Promise_Full "HOL-Library.While_Combinator"
begin

text \<open>
  Promises when a value has a \<open>then\<close> method of its own. A resolve function that is
  given an object reads its property \<open>then\<close> at once; when reading throws, the promise
  is rejected; when the property is a function, the promise is locked and a job is
  queued that calls the method with a new pair of resolving functions; otherwise the
  promise is fulfilled with the value. The method is code of the client: here it is a
  script of calls of its two arguments that may end with a throw. \<open>shp\<close>, a parameter
  of the operations, tells what reading \<open>then\<close> of a value gives. \<open>drain\<close> runs the jobs
  until none is left, and is \<open>None\<close> when that never happens.
\<close>

section \<open>Values with a then method\<close>

text \<open>
  What the method does with its arguments \<open>resolve\<close> and \<open>reject\<close>, call after call, and
  what reading \<open>then\<close> of a value gives: nothing callable, an exception, or a method.
\<close>

datatype 'v then_step = Resolve 'v | Reject 'v | Throw 'v

datatype 'v shape = Value | Throws 'v | Then "'v then_step list"

section \<open>Promises and their jobs\<close>

text \<open>
  A promise is pending, locked to a value whose method decides, fulfilled or rejected.
  The heap has the promises and the queue of jobs, each the promise to settle and the
  method to call.
\<close>

datatype 'v jstate = JPending | JLocked | JFulfilled 'v | JRejected 'v

record 'v heap =
  cells :: "'v jstate list"
  queue :: "(promise \<times> 'v then_step list) list"

definition empty_heap :: "'v heap" where
  "empty_heap = \<lparr>cells = [], queue = []\<rparr>"

definition reject_job :: "promise \<Rightarrow> 'v \<Rightarrow> 'v heap \<Rightarrow> 'v heap" where
  "reject_job p e H = H\<lparr>cells := (cells H)[p := JRejected e]\<rparr>"

text \<open>The resolution of promise \<open>p\<close> with \<open>x\<close>, once its resolve function has taken the call.\<close>

definition resolution :: "('v \<Rightarrow> 'v shape) \<Rightarrow> promise \<Rightarrow> 'v \<Rightarrow> 'v heap \<Rightarrow> 'v heap" where
  "resolution shp p x H =
     (case shp x of
        Value \<Rightarrow> H\<lparr>cells := (cells H)[p := JFulfilled x]\<rparr>
      | Throws e \<Rightarrow> reject_job p e H
      | Then s \<Rightarrow> H\<lparr>cells := (cells H)[p := JLocked], queue := queue H @ [(p, s)]\<rparr>)"

text \<open>The resolve function that \<open>new Promise\<close> hands to its executor: the first call counts.\<close>

definition resolve_job :: "('v \<Rightarrow> 'v shape) \<Rightarrow> resolver \<Rightarrow> 'v \<Rightarrow> 'v heap \<Rightarrow> 'v heap" where
  "resolve_job shp p x H =
     (if p < length (cells H) \<and> cells H ! p = JPending then resolution shp p x H else H)"

definition alloc_job :: "'v heap \<Rightarrow> promise \<times> 'v heap" where
  "alloc_job H = (length (cells H), H\<lparr>cells := cells H @ [JPending]\<rparr>)"

definition Promise_resolve_job :: "('v \<Rightarrow> 'v shape) \<Rightarrow> 'v \<Rightarrow> 'v heap \<Rightarrow> promise \<times> 'v heap" where
  "Promise_resolve_job shp x H =
     (length (cells H), resolution shp (length (cells H)) x (H\<lparr>cells := cells H @ [JPending]\<rparr>))"

text \<open>
  A job calls the method with resolving functions of its own, which share the flag
  \<open>d\<close>: once one of them has been called, calls of either do nothing. An exception of
  the method is passed to the reject function.
\<close>

fun run_then :: "('v \<Rightarrow> 'v shape) \<Rightarrow> promise \<Rightarrow> 'v then_step list \<Rightarrow> bool \<Rightarrow> 'v heap \<Rightarrow> 'v heap" where
  "run_then shp p [] d H = H"
| "run_then shp p (Resolve x # as) d H =
     run_then shp p as True (if d then H else resolution shp p x H)"
| "run_then shp p (Reject e # as) d H =
     run_then shp p as True (if d then H else reject_job p e H)"
| "run_then shp p (Throw e # as) d H = (if d then H else reject_job p e H)"

definition run_job :: "('v \<Rightarrow> 'v shape) \<Rightarrow> 'v heap \<Rightarrow> 'v heap" where
  "run_job shp H =
     (case queue H of [] \<Rightarrow> H | (p, s) # js \<Rightarrow> run_then shp p s False (H\<lparr>queue := js\<rparr>))"

definition drain :: "('v \<Rightarrow> 'v shape) \<Rightarrow> 'v heap \<Rightarrow> 'v heap option" where
  "drain shp H = while_option (\<lambda>H. queue H \<noteq> []) (run_job shp) H"

section \<open>What a client sees\<close>

text \<open>
  \<open>view\<close> is what awaiting a promise in a state gives. \<open>fate\<close> is what a promise that is
  resolved with \<open>x\<close> comes to: it follows the values that the methods resolve with, and
  is \<open>None\<close> when that never ends. \<open>decide\<close> is the effect of a method by its first
  action, and \<open>destiny\<close> what a promise of a heap will come to when its jobs have run.
\<close>

fun view :: "'v jstate \<Rightarrow> 'v outcome" where
  "view (JFulfilled v) = Resolved v"
| "view (JRejected e) = Thrown (Reason e)"
| "view JPending = Waiting"
| "view JLocked = Waiting"

partial_function (option) fate :: "('v \<Rightarrow> 'v shape) \<Rightarrow> 'v \<Rightarrow> 'v outcome option" where
  "fate shp x =
     (case shp x of
        Value \<Rightarrow> Some (Resolved x)
      | Throws e \<Rightarrow> Some (Thrown (Reason e))
      | Then s \<Rightarrow>
          (case s of
             [] \<Rightarrow> Some Waiting
           | a # _ \<Rightarrow>
               (case a of Resolve y \<Rightarrow> fate shp y | Reject e \<Rightarrow> Some (Thrown (Reason e))
                | Throw e \<Rightarrow> Some (Thrown (Reason e)))))"

declare fate.simps [code]

definition script_fate :: "('v \<Rightarrow> 'v shape) \<Rightarrow> 'v then_step list \<Rightarrow> 'v outcome option" where
  "script_fate shp s =
     (case s of
        [] \<Rightarrow> Some Waiting
      | a # _ \<Rightarrow>
          (case a of Resolve y \<Rightarrow> fate shp y | Reject e \<Rightarrow> Some (Thrown (Reason e))
           | Throw e \<Rightarrow> Some (Thrown (Reason e))))"

definition decide :: "('v \<Rightarrow> 'v shape) \<Rightarrow> promise \<Rightarrow> 'v then_step list \<Rightarrow> 'v heap \<Rightarrow> 'v heap" where
  "decide shp p s H =
     (case s of
        [] \<Rightarrow> H
      | a # _ \<Rightarrow>
          (case a of Resolve x \<Rightarrow> resolution shp p x H | Reject e \<Rightarrow> reject_job p e H
           | Throw e \<Rightarrow> reject_job p e H))"

definition destiny :: "('v \<Rightarrow> 'v shape) \<Rightarrow> 'v heap \<Rightarrow> promise \<Rightarrow> 'v outcome option" where
  "destiny shp H p =
     (if cells H ! p = JLocked
      then (case map_of (queue H) p of Some s \<Rightarrow> script_fate shp s | None \<Rightarrow> Some Waiting)
      else Some (view (cells H ! p)))"

text \<open>
  The jobs of a heap are for locked promises, one for each at most. \<open>heap_le\<close> is the
  order in which heaps evolve, and \<open>ranked\<close> says that a method resolves with a value
  of a lower rank only, so that no chain of them is endless; \<open>hands_on\<close> relates a
  value to the value that its method resolves with, and \<open>backlog\<close> is the work that the
  queue has left.
\<close>

definition heap_ok :: "'v heap \<Rightarrow> bool" where
  "heap_ok H \<longleftrightarrow>
     distinct (map fst (queue H)) \<and>
     list_all (\<lambda>j. fst j < length (cells H) \<and> cells H ! fst j = JLocked) (queue H)"

definition cells_le :: "'v jstate list \<Rightarrow> 'v jstate list \<Rightarrow> bool" where
  "cells_le xs ys \<longleftrightarrow>
     length xs \<le> length ys \<and>
     (\<forall>p<length xs.
        (xs ! p \<noteq> JPending \<longrightarrow> ys ! p \<noteq> JPending) \<and>
        (view (xs ! p) \<noteq> Waiting \<longrightarrow> ys ! p = xs ! p))"

definition heap_le :: "'v heap \<Rightarrow> 'v heap \<Rightarrow> bool" where
  "heap_le H H' \<longleftrightarrow> cells_le (cells H) (cells H')"

definition landing :: "('v \<Rightarrow> 'v shape) \<Rightarrow> 'v \<Rightarrow> 'v jstate" where
  "landing shp x = (case shp x of Value \<Rightarrow> JFulfilled x | Throws e \<Rightarrow> JRejected e | Then s \<Rightarrow> JLocked)"

definition ranked :: "('v \<Rightarrow> 'v shape) \<Rightarrow> ('v \<Rightarrow> nat) \<Rightarrow> bool" where
  "ranked shp rank \<longleftrightarrow> (\<forall>x y as. shp x = Then (Resolve y # as) \<longrightarrow> rank y < rank x)"

definition hands_on :: "('v \<Rightarrow> 'v shape) \<Rightarrow> ('v \<times> 'v) set" where
  "hands_on shp = {(x, y). \<exists>as. shp x = Then (Resolve y # as)}"

definition weight :: "('v \<Rightarrow> nat) \<Rightarrow> promise \<times> 'v then_step list \<Rightarrow> nat" where
  "weight rank j = (case snd j of Resolve y # _ \<Rightarrow> Suc (Suc (rank y)) | _ \<Rightarrow> 1)"

definition backlog :: "('v \<Rightarrow> nat) \<Rightarrow> 'v heap \<Rightarrow> nat" where
  "backlog rank H = sum_list (map (weight rank) (queue H))"

text \<open>
  A heap mirrors a store of \<open>JS_Promise\<close> when it has the same promises, the same of
  them are pending, and each comes to the fate of the value that the store has for
  it.
\<close>

definition due :: "('v \<Rightarrow> 'v shape) \<Rightarrow> 'v settle \<Rightarrow> 'v outcome option" where
  "due shp st = (case st of Pending \<Rightarrow> Some Waiting | Fulfilled v \<Rightarrow> fate shp v)"

definition mirrors :: "('v \<Rightarrow> 'v shape) \<Rightarrow> 'v store \<Rightarrow> 'v heap \<Rightarrow> bool" where
  "mirrors shp h H \<longleftrightarrow>
     heap_ok H \<and> length (cells H) = length h \<and>
     (\<forall>p<length h. (cells H ! p = JPending \<longleftrightarrow> h ! p = Pending) \<and>
                    destiny shp H p = due shp (h ! p))"

section \<open>The first call decides\<close>

lemma run_then_done [simp]: "run_then shp p s True H = H"
proof (induction s)
  case (Cons a s)
  then show ?case by (cases a) simp_all
qed simp

lemma run_then_decide: "run_then shp p s False H = decide shp p s H"
proof (cases s)
  case (Cons a as)
  then show ?thesis by (cases a) (simp_all add: decide_def)
qed (simp add: decide_def)

lemma first_call_decides: "run_then shp p (a # as) False H = run_then shp p [a] False H"
  by (cases a) simp_all

lemma run_job_Nil: "queue H = [] \<Longrightarrow> run_job shp H = H"
  by (simp add: run_job_def)

lemma run_job_Cons: "queue H = (p, s) # js \<Longrightarrow> run_job shp H = decide shp p s (H\<lparr>queue := js\<rparr>)"
  by (simp add: run_job_def run_then_decide)

lemma decide_simps [simp]:
  "decide shp p [] H = H"
  "decide shp p (Resolve x # as) H = resolution shp p x H"
  "decide shp p (Reject e # as) H = reject_job p e H"
  "decide shp p (Throw e # as) H = reject_job p e H"
  by (simp_all add: decide_def)

lemma script_fate_simps [simp]:
  "script_fate shp [] = Some Waiting"
  "script_fate shp (Resolve y # as) = fate shp y"
  "script_fate shp (Reject e # as) = Some (Thrown (Reason e))"
  "script_fate shp (Throw e # as) = Some (Thrown (Reason e))"
  by (simp_all add: script_fate_def)

lemma fate_simps:
  "shp x = Value \<Longrightarrow> fate shp x = Some (Resolved x)"
  "shp x = Throws e \<Longrightarrow> fate shp x = Some (Thrown (Reason e))"
  "shp x = Then s \<Longrightarrow> fate shp x = script_fate shp s"
  by (subst fate.simps, simp add: script_fate_def)+

section \<open>Cells and queue after an operation\<close>

lemma empty_heap_sel [simp]: "cells empty_heap = []" "queue empty_heap = []"
  by (simp_all add: empty_heap_def)

lemma reject_job_sel [simp]:
  "cells (reject_job p e H) = (cells H)[p := JRejected e]"
  "queue (reject_job p e H) = queue H"
  by (simp_all add: reject_job_def)

lemma cells_resolution: "cells (resolution shp p x H) = (cells H)[p := landing shp x]"
  by (simp add: resolution_def landing_def split: shape.splits)

lemma length_resolution [simp]: "length (cells (resolution shp p x H)) = length (cells H)"
  by (simp add: cells_resolution)

lemma resolution_other: "q \<noteq> p \<Longrightarrow> cells (resolution shp p x H) ! q = cells H ! q"
  by (simp add: cells_resolution)

lemma queue_resolution:
  "queue (resolution shp p x H) =
     (case shp x of Then s \<Rightarrow> queue H @ [(p, s)] | _ \<Rightarrow> queue H)"
  by (simp add: resolution_def split: shape.splits)

lemma landing_simps [simp]: "landing shp x \<noteq> JPending"
  "shp x = Value \<Longrightarrow> landing shp x = JFulfilled x"
  "shp x = Throws e \<Longrightarrow> landing shp x = JRejected e"
  "shp x = Then s \<Longrightarrow> landing shp x = JLocked"
  by (simp_all add: landing_def split: shape.splits)

lemma cells_decide:
  "cells (decide shp p s H) =
     (case s of [] \<Rightarrow> cells H
      | a # _ \<Rightarrow> (cells H)[p := (case a of Resolve x \<Rightarrow> landing shp x | Reject e \<Rightarrow> JRejected e
                                   | Throw e \<Rightarrow> JRejected e)])"
  by (simp add: decide_def cells_resolution split: list.splits then_step.splits)

lemma length_decide [simp]: "length (cells (decide shp p s H)) = length (cells H)"
  by (simp add: cells_decide split: list.splits)

lemma decide_other: "q \<noteq> p \<Longrightarrow> cells (decide shp p s H) ! q = cells H ! q"
  by (simp add: cells_decide split: list.splits)

lemma length_run_job [simp]: "length (cells (run_job shp H)) = length (cells H)"
  by (cases "queue H") (auto simp: run_job_Nil run_job_Cons)

lemma cells_resolve_job:
  "cells (resolve_job shp p x H) =
     (if p < length (cells H) \<and> cells H ! p = JPending then (cells H)[p := landing shp x]
      else cells H)"
  by (simp add: resolve_job_def cells_resolution)

lemma length_resolve_job [simp]: "length (cells (resolve_job shp p x H)) = length (cells H)"
  by (simp add: cells_resolve_job)

lemma alloc_job_sel [simp]:
  "fst (alloc_job H) = length (cells H)"
  "cells (snd (alloc_job H)) = cells H @ [JPending]"
  "queue (snd (alloc_job H)) = queue H"
  by (simp_all add: alloc_job_def)

lemma Promise_resolve_job_sel [simp]:
  "fst (Promise_resolve_job shp x H) = length (cells H)"
  "cells (snd (Promise_resolve_job shp x H)) = cells H @ [landing shp x]"
  by (simp_all add: Promise_resolve_job_def cells_resolution)

section \<open>The invariant of the heap\<close>

lemma nth_update_if: "xs[i := x] ! j = (if i = j \<and> i < length xs then x else xs ! j)"
  by (cases "i < length xs") (simp_all add: nth_list_update list_update_beyond)

lemma heap_okI:
  assumes "distinct (map fst (queue H))"
    and "\<And>p s. (p, s) \<in> set (queue H) \<Longrightarrow> p < length (cells H) \<and> cells H ! p = JLocked"
  shows "heap_ok H"
  using assms by (auto simp: heap_ok_def list_all_iff)

lemma heap_okD:
  assumes "heap_ok H" and "(p, s) \<in> set (queue H)"
  shows "p < length (cells H)" and "cells H ! p = JLocked" and "map_of (queue H) p = Some s"
  using assms by (auto simp: heap_ok_def list_all_iff)

lemma heap_ok_queued: "heap_ok H \<Longrightarrow> cells H ! p \<noteq> JLocked \<Longrightarrow> p \<notin> fst ` set (queue H)"
  by (auto simp: heap_ok_def list_all_iff)

lemma heap_ok_empty [simp]: "heap_ok empty_heap"
  by (simp add: heap_ok_def)

lemma heap_ok_write:
  assumes "heap_ok H" and "p \<notin> fst ` set (queue H)"
  shows "heap_ok (H\<lparr>cells := (cells H)[p := st]\<rparr>)"
  using assms by (fastforce simp: heap_ok_def list_all_iff nth_update_if image_iff)

lemma heap_ok_lock:
  assumes "heap_ok H" and "p \<notin> fst ` set (queue H)" and "p < length (cells H)"
  shows "heap_ok (H\<lparr>cells := (cells H)[p := JLocked], queue := queue H @ [(p, s)]\<rparr>)"
  using assms by (fastforce simp: heap_ok_def list_all_iff nth_update_if image_iff)

lemma heap_ok_resolution:
  assumes "heap_ok H" and "p \<notin> fst ` set (queue H)" and "p < length (cells H)"
  shows "heap_ok (resolution shp p x H)"
  by (cases "shp x") (simp_all add: resolution_def reject_job_def heap_ok_write heap_ok_lock assms)

lemma heap_ok_decide:
  assumes "heap_ok H" and "p \<notin> fst ` set (queue H)" and "p < length (cells H)"
  shows "heap_ok (decide shp p s H)"
  using assms
  by (auto simp: decide_def reject_job_def heap_ok_write heap_ok_resolution
      split: list.splits then_step.splits)

lemma heap_ok_pop:
  assumes "heap_ok H" and "queue H = (p, s) # js"
  shows "heap_ok (H\<lparr>queue := js\<rparr>)" and "p \<notin> fst ` set js" and "p < length (cells H)"
    and "cells H ! p = JLocked"
  using assms by (auto simp: heap_ok_def)

lemma heap_ok_run_job: "heap_ok H \<Longrightarrow> heap_ok (run_job shp H)"
proof (cases "queue H")
  case (Cons j js)
  assume ok: "heap_ok H"
  obtain p s where j: "j = (p, s)" by (cases j)
  from heap_ok_pop [OF ok Cons [unfolded j]] show ?thesis
    by (simp add: run_job_Cons [OF Cons [unfolded j]] heap_ok_decide)
qed (simp add: run_job_Nil)

lemma heap_ok_resolve_job: "heap_ok H \<Longrightarrow> heap_ok (resolve_job shp p x H)"
  by (simp add: resolve_job_def heap_ok_resolution heap_ok_queued)

lemma heap_ok_alloc: "heap_ok H \<Longrightarrow> heap_ok (snd (alloc_job H))"
proof (rule heap_okI)
  assume "heap_ok H"
  then show "distinct (map fst (queue (snd (alloc_job H))))" by (simp add: heap_ok_def)
  fix p s
  assume "(p, s) \<in> set (queue (snd (alloc_job H)))"
  with \<open>heap_ok H\<close> have "p < length (cells H)" and "cells H ! p = JLocked"
    by (auto dest: heap_okD)
  then show "p < length (cells (snd (alloc_job H))) \<and> cells (snd (alloc_job H)) ! p = JLocked"
    by (simp add: nth_append)
qed

lemma heap_ok_fresh: "heap_ok H \<Longrightarrow> length (cells H) \<notin> fst ` set (queue H)"
  by (auto dest: heap_okD)

lemma heap_ok_Promise_resolve: "heap_ok H \<Longrightarrow> heap_ok (snd (Promise_resolve_job shp x H))"
proof -
  assume "heap_ok H"
  then have "heap_ok (snd (alloc_job H))" and "length (cells H) \<notin> fst ` set (queue H)"
    by (simp_all add: heap_ok_alloc heap_ok_fresh)
  then show ?thesis
    by (simp add: Promise_resolve_job_def alloc_job_def heap_ok_resolution)
qed

section \<open>Settlement is final\<close>

lemma cells_le_refl [simp]: "cells_le xs xs"
  by (simp add: cells_le_def)

lemma cells_le_trans: "cells_le xs ys \<Longrightarrow> cells_le ys zs \<Longrightarrow> cells_le xs zs"
  by (fastforce simp: cells_le_def)

lemma cells_le_update: "view (xs ! p) = Waiting \<Longrightarrow> st \<noteq> JPending \<Longrightarrow> cells_le xs (xs[p := st])"
  by (auto simp: cells_le_def nth_update_if)

lemma cells_le_snoc [simp]: "cells_le xs (xs @ [st])"
  by (simp add: cells_le_def nth_append)

lemma heap_le_refl [simp]: "heap_le H H"
  by (simp add: heap_le_def)

lemma heap_le_trans: "heap_le H H' \<Longrightarrow> heap_le H' H'' \<Longrightarrow> heap_le H H''"
  unfolding heap_le_def by (rule cells_le_trans)

lemma heap_le_resolution: "view (cells H ! p) = Waiting \<Longrightarrow> heap_le H (resolution shp p x H)"
  by (simp add: heap_le_def cells_resolution cells_le_update)

lemma heap_le_resolve_job: "heap_le H (resolve_job shp p x H)"
  by (simp add: resolve_job_def heap_le_resolution)

lemma heap_le_alloc: "heap_le H (snd (alloc_job H))"
  by (simp add: heap_le_def)

lemma heap_le_Promise_resolve: "heap_le H (snd (Promise_resolve_job shp x H))"
proof -
  have "cells_le (cells H @ [JPending]) ((cells H @ [JPending])[length (cells H) := landing shp x])"
    by (rule cells_le_update) simp_all
  with cells_le_snoc [of "cells H" JPending] show ?thesis
    unfolding heap_le_def Promise_resolve_job_def snd_conv cells_resolution
    by (auto intro: cells_le_trans)
qed

lemma heap_ok_foldl: "heap_ok H \<Longrightarrow> heap_ok (foldl (\<lambda>H r. resolve_job shp r x H) H rs)"
  by (induction rs arbitrary: H) (simp_all add: heap_ok_resolve_job)

lemma heap_le_foldl: "heap_le H (foldl (\<lambda>H r. resolve_job shp r x H) H rs)"
proof (induction rs arbitrary: H)
  case (Cons r rs)
  from heap_le_trans [OF heap_le_resolve_job Cons] show ?case by simp
qed simp

lemma heap_le_run_job: "heap_ok H \<Longrightarrow> heap_le H (run_job shp H)"
proof (cases "queue H")
  case (Cons j js)
  assume ok: "heap_ok H"
  obtain p s where j: "j = (p, s)" by (cases j)
  from heap_ok_pop [OF ok Cons [unfolded j]] have "view (cells H ! p) = Waiting" by simp
  then show ?thesis
    by (simp add: run_job_Cons [OF Cons [unfolded j]] heap_le_def cells_decide cells_le_update
        split: list.splits then_step.splits)
qed (simp add: run_job_Nil)

section \<open>What a promise comes to does not change\<close>

lemma destiny_settled: "cells H ! p \<noteq> JLocked \<Longrightarrow> destiny shp H p = Some (view (cells H ! p))"
  by (simp add: destiny_def)

lemma destiny_idle: "queue H = [] \<Longrightarrow> destiny shp H p = Some (view (cells H ! p))"
  by (simp add: destiny_def)

lemma destiny_cong:
  "cells H' ! q = cells H ! q \<Longrightarrow> map_of (queue H') q = map_of (queue H) q \<Longrightarrow>
   destiny shp H' q = destiny shp H q"
  by (simp add: destiny_def)

lemma destiny_resolution:
  assumes "p \<notin> fst ` set (queue H)" and "p < length (cells H)"
  shows "destiny shp (resolution shp p x H) q = (if q = p then fate shp x else destiny shp H q)"
proof (cases "shp x")
  case (Then s)
  from assms(1) have "map_of (queue H) p = None" by (simp add: map_of_eq_None_iff)
  with Then assms(2) show ?thesis
    by (simp add: resolution_def destiny_def fate_simps map_add_def split: option.splits)
qed (simp_all add: resolution_def reject_job_def destiny_def fate_simps nth_update_if assms(2))

lemma destiny_reject:
  assumes "p < length (cells H)"
  shows "destiny shp (reject_job p e H) q =
           (if q = p then Some (Thrown (Reason e)) else destiny shp H q)"
  using assms by (simp add: reject_job_def destiny_def)

lemma destiny_decide:
  assumes "p \<notin> fst ` set (queue H)" and "p < length (cells H)"
  shows "destiny shp (decide shp p s H) q =
           (if q = p then (if s = [] then destiny shp H p else script_fate shp s)
            else destiny shp H q)"
  using assms
  by (simp add: decide_def destiny_resolution destiny_reject split: list.splits then_step.splits)

lemma destiny_run_job:
  assumes "heap_ok H"
  shows "destiny shp (run_job shp H) q = destiny shp H q"
proof (cases "queue H")
  case (Cons j js)
  obtain p s where j: "j = (p, s)" by (cases j)
  note q = Cons [unfolded j]
  note pop = heap_ok_pop [OF assms q]
  from pop(2) have n: "map_of js p = None" by (simp add: map_of_eq_None_iff)
  from pop(2,3) have "destiny shp (run_job shp H) q =
      (if q = p then (if s = [] then destiny shp (H\<lparr>queue := js\<rparr>) p else script_fate shp s)
       else destiny shp (H\<lparr>queue := js\<rparr>) q)"
    by (simp add: run_job_Cons [OF q] destiny_decide)
  with q n pop(4) show ?thesis by (simp add: destiny_def)
qed (simp add: run_job_Nil)

lemma destiny_resolve_job:
  assumes "heap_ok H"
  shows "destiny shp (resolve_job shp p x H) q =
           (if q = p \<and> p < length (cells H) \<and> cells H ! p = JPending then fate shp x
            else destiny shp H q)"
  using heap_ok_queued [OF assms, of p] by (simp add: resolve_job_def destiny_resolution)

lemma destiny_alloc:
  "heap_ok H \<Longrightarrow> q \<le> length (cells H) \<Longrightarrow>
   destiny shp (snd (alloc_job H)) q = (if q = length (cells H) then Some Waiting else destiny shp H q)"
  by (simp add: destiny_def alloc_job_def nth_append)

lemma destiny_Promise_resolve:
  assumes "heap_ok H" and "q \<le> length (cells H)"
  shows "destiny shp (snd (Promise_resolve_job shp x H)) q =
           (if q = length (cells H) then fate shp x else destiny shp H q)"
proof -
  from assms(1) have "length (cells H) \<notin> fst ` set (queue H)"
    by (rule heap_ok_fresh)
  with destiny_alloc [OF assms, of shp] show ?thesis
    by (simp add: Promise_resolve_job_def destiny_resolution alloc_job_def)
qed

section \<open>Running the jobs\<close>

lemma drain_unfold: "drain shp H = (if queue H = [] then Some H else drain shp (run_job shp H))"
  unfolding drain_def by (subst while_option_unfold) simp

lemma drain_idle: "drain shp H = Some H' \<Longrightarrow> queue H' = []"
  unfolding drain_def by (drule while_option_stop) simp

lemma drain_rule:
  assumes "drain shp H = Some H'" and "P H" and "\<And>H. P H \<Longrightarrow> queue H \<noteq> [] \<Longrightarrow> P (run_job shp H)"
  shows "P H'"
  using assms(1) [unfolded drain_def] assms(2)
  by (rule while_option_rule [where P = P, rotated]) (rule assms(3))

lemma weight_then: "ranked shp rank \<Longrightarrow> shp y = Then s \<Longrightarrow> weight rank (p, s) < Suc (Suc (rank y))"
  by (auto simp: weight_def ranked_def split: list.splits then_step.splits)

lemma backlog_resolution:
  "ranked shp rank \<Longrightarrow> backlog rank (resolution shp p y H) < backlog rank H + Suc (Suc (rank y))"
  using weight_then [of shp rank y _ p]
  by (cases "shp y") (simp_all add: backlog_def resolution_def reject_job_def)

lemma backlog_decide:
  "ranked shp rank \<Longrightarrow> backlog rank (decide shp p s H) < backlog rank H + weight rank (p, s)"
  using backlog_resolution [of shp rank p _ H]
  by (auto simp: decide_def weight_def backlog_def split: list.splits then_step.splits)

lemma backlog_run_job:
  assumes "ranked shp rank" and "queue H \<noteq> []"
  shows "backlog rank (run_job shp H) < backlog rank H"
proof -
  from assms(2) obtain p s js where q: "queue H = (p, s) # js" by (cases "queue H") auto
  from backlog_decide [OF assms(1), of p s "H\<lparr>queue := js\<rparr>"] q show ?thesis
    by (simp add: run_job_Cons [OF q] backlog_def)
qed

lemma drain_terminates: "ranked shp rank \<Longrightarrow> \<exists>H'. drain shp H = Some H'"
  unfolding drain_def
  by (rule measure_while_option_Some [where P = "\<lambda>_. True" and f = "backlog rank"])
    (simp_all add: backlog_run_job)

lemma drain_result:
  assumes "drain shp H = Some H'" and "heap_ok H"
  shows "heap_ok H'" and "heap_le H H'" and "length (cells H') = length (cells H)"
    and "Some (view (cells H' ! q)) = destiny shp H q"
proof -
  let ?P = "\<lambda>K. heap_ok K \<and> heap_le H K \<and> length (cells K) = length (cells H) \<and>
      destiny shp K q = destiny shp H q"
  have "?P H'"
  proof (rule drain_rule [OF assms(1), where P = ?P])
    show "?P H" by (simp add: assms(2))
  next
    fix K assume "?P K"
    then show "?P (run_job shp K)"
      by (auto simp: heap_ok_run_job destiny_run_job intro: heap_le_trans heap_le_run_job)
  qed
  then show "heap_ok H'" and "heap_le H H'" and "length (cells H') = length (cells H)"
    and "Some (view (cells H' ! q)) = destiny shp H q"
    using destiny_idle [OF drain_idle [OF assms(1)], of shp q] by simp_all
qed

lemma drain_endless: "heap_ok H \<Longrightarrow> destiny shp H q = None \<Longrightarrow> drain shp H = None"
  using drain_result(4) [of shp H _ q] by (cases "drain shp H") auto

section \<open>Chains of methods\<close>

lemma fate_plain: "fate (\<lambda>x. Value) x = Some (Resolved x)"
  by (simp add: fate_simps)

lemma fate_defined: "ranked shp rank \<Longrightarrow> \<exists>out. fate shp x = Some out"
proof (induction "rank x" arbitrary: x rule: less_induct)
  case less
  show ?case
  proof (cases "shp x")
    case (Then s)
    show ?thesis
    proof (cases s)
      case (Cons a as)
      with Then less show ?thesis
        by (cases a) (auto simp: fate_simps ranked_def)
    qed (simp add: fate_simps Then)
  qed (simp_all add: fate_simps)
qed

lemma on_cycle_then: "(x, x) \<in> (hands_on shp)\<^sup>+ \<Longrightarrow> \<exists>y as. shp x = Then (Resolve y # as)"
  by (auto dest!: tranclD simp: hands_on_def)

lemma on_cycle_step:
  assumes "(x, x) \<in> (hands_on shp)\<^sup>+" and "shp x = Then (Resolve y # as)"
  shows "(y, y) \<in> (hands_on shp)\<^sup>+"
proof -
  from tranclD [OF assms(1)] obtain z
    where "(x, z) \<in> hands_on shp" and z: "(z, x) \<in> (hands_on shp)\<^sup>*" by blast
  with assms(2) have "z = y" and "(x, y) \<in> hands_on shp" by (simp_all add: hands_on_def)
  with z show ?thesis by (auto intro: rtrancl_into_trancl1)
qed

lemma fate_acyclic:
  assumes "fate shp x = Some out"
  shows "(x, x) \<notin> (hands_on shp)\<^sup>+"
proof -
  let ?P = "\<lambda>s y (r :: 'a outcome). (y, y) \<notin> (hands_on s)\<^sup>+"
  have "(case (shp, x) of (s, y) \<Rightarrow> ?P s y) out"
  proof (rule fate.raw_induct [where P = ?P])
    show "(case (shp, x) of (s, y) \<Rightarrow> fate s y) = Some out" using assms by simp
  next
    fix f s y r
    assume IH: "\<And>s x r. f s x = Some r \<Longrightarrow> ?P s x r"
      and eq: "(case s y of Value \<Rightarrow> Some (Resolved y) | Throws e \<Rightarrow> Some (Thrown (Reason e))
            | Then u \<Rightarrow>
                (case u of [] \<Rightarrow> Some Waiting
                 | a # _ \<Rightarrow>
                     (case a of Resolve z \<Rightarrow> f s z | Reject e \<Rightarrow> Some (Thrown (Reason e))
                      | Throw e \<Rightarrow> Some (Thrown (Reason e))))) = Some r"
    show "?P s y r"
    proof
      assume c: "(y, y) \<in> (hands_on s)\<^sup>+"
      from on_cycle_then [OF c] obtain z as where z: "s y = Then (Resolve z # as)" by blast
      with eq have "f s z = Some r" by simp
      from IH [OF this] on_cycle_step [OF c z] show False by simp
    qed
  qed
  then show ?thesis by simp
qed

lemma fate_cycle: "(x, x) \<in> (hands_on shp)\<^sup>+ \<Longrightarrow> fate shp x = None"
  using fate_acyclic [of shp x] by (cases "fate shp x") auto

lemma fate_endless: "shp t = Then (Resolve t # as) \<Longrightarrow> fate shp t = None"
  by (rule fate_cycle) (auto simp: hands_on_def)

section \<open>Heaps that mirror a store\<close>

lemma due_simps [simp]:
  "due shp Pending = Some Waiting" "due shp (Fulfilled v) = fate shp v"
  by (simp_all add: due_def)

lemma mirrorsI:
  assumes "heap_ok H" and "length (cells H) = length h"
    and "\<And>p. p < length h \<Longrightarrow> cells H ! p = JPending \<longleftrightarrow> h ! p = Pending"
    and "\<And>p. p < length h \<Longrightarrow> destiny shp H p = due shp (h ! p)"
  shows "mirrors shp h H"
  using assms by (simp add: mirrors_def)

lemma mirrorsD:
  assumes "mirrors shp h H"
  shows "heap_ok H" and "length (cells H) = length h"
    and "p < length h \<Longrightarrow> cells H ! p = JPending \<longleftrightarrow> h ! p = Pending"
    and "p < length h \<Longrightarrow> destiny shp H p = due shp (h ! p)"
  using assms by (simp_all add: mirrors_def)

lemma mirrors_empty [simp]: "mirrors shp [] empty_heap"
  by (simp add: mirrors_def)

lemma mirrors_alloc:
  assumes "mirrors shp h H"
  shows "mirrors shp (h @ [Pending]) (snd (alloc_job H))"
  using mirrorsD [OF assms]
  by (intro mirrorsI) (auto simp: heap_ok_alloc destiny_alloc nth_append less_Suc_eq)

lemma mirrors_Promise_resolve:
  assumes "mirrors shp h H"
  shows "mirrors shp (h @ [Fulfilled x]) (snd (Promise_resolve_job shp x H))"
  using mirrorsD [OF assms]
  by (intro mirrorsI)
    (auto simp: heap_ok_Promise_resolve destiny_Promise_resolve nth_append less_Suc_eq)

lemma mirrors_resolve:
  assumes "mirrors shp h H"
  shows "mirrors shp (resolve_fn p x h) (resolve_job shp p x H)"
proof (cases "p < length h \<and> h ! p = Pending")
  case True
  with mirrorsD [OF assms] show ?thesis
    by (intro mirrorsI)
      (auto simp: heap_ok_resolve_job destiny_resolve_job resolve_fn_def cells_resolve_job
        nth_update_if)
next
  case False
  with mirrorsD [OF assms] have "resolve_fn p x h = h" and "resolve_job shp p x H = H"
    by (auto simp: resolve_fn_def resolve_job_def)
  with assms show ?thesis by simp
qed

lemma mirrors_settle_all:
  "mirrors shp h H \<Longrightarrow>
   mirrors shp (settle_all x rs h) (foldl (\<lambda>H r. resolve_job shp r x H) H rs)"
  by (induction rs arbitrary: h H) (simp_all add: settle_all_def mirrors_resolve)

lemma mirrors_run_job:
  assumes "mirrors shp h H"
  shows "mirrors shp h (run_job shp H)"
proof (intro mirrorsI)
  note m = mirrorsD [OF assms]
  show "heap_ok (run_job shp H)" and "length (cells (run_job shp H)) = length h"
    using m(1,2) by (simp_all add: heap_ok_run_job)
  fix p assume p: "p < length h"
  from m(4) [OF p] show "destiny shp (run_job shp H) p = due shp (h ! p)"
    by (simp add: destiny_run_job [OF m(1)])
  from heap_le_run_job [OF m(1), of shp] m(2) p
  have "cells H ! p \<noteq> JPending \<longrightarrow> cells (run_job shp H) ! p \<noteq> JPending"
    by (simp add: heap_le_def cells_le_def)
  moreover have "cells H ! p = JPending \<longrightarrow> cells (run_job shp H) ! p = JPending"
  proof (cases "queue H")
    case (Cons j js)
    obtain q s where j: "j = (q, s)" by (cases j)
    from heap_ok_pop(4) [OF m(1) Cons [unfolded j]] show ?thesis
      by (cases "p = q") (auto simp: run_job_Cons [OF Cons [unfolded j]] decide_other)
  qed (simp add: run_job_Nil)
  ultimately show "cells (run_job shp H) ! p = JPending \<longleftrightarrow> h ! p = Pending"
    using m(3) [OF p] by blast
qed

lemma mirrors_drain:
  assumes "mirrors shp h H" and "drain shp H = Some H'"
  shows "mirrors shp h H'"
  by (rule drain_rule [OF assms(2), where P = "mirrors shp h"]) (simp_all add: assms(1) mirrors_run_job)

lemma mirrors_idle:
  assumes "mirrors shp h H" and "queue H = []" and "p < length h"
  shows "Some (view (cells H ! p)) = (case await p h of None \<Rightarrow> Some Waiting | Some v \<Rightarrow> fate shp v)"
  using mirrorsD(4) [OF assms(1,3)] assms(3)
  by (simp add: destiny_idle [OF assms(2)] await_def due_def split: settle.splits)

end
