(* ===== verification/Channel_Foreign.thy ===== *)
theory Channel_Foreign
  imports Channel_Generic JS_Promise_Jobs
begin

text \<open>
  The channel when a producer puts an object that has a \<open>then\<close> method. \<open>put\<close> hands the
  value to the resolve function of a waiting consumer, and \<open>take\<close> gives a buffered
  value to \<open>Promise.resolve\<close>; both lock the promise of the consumer and queue a job
  that calls the method. The calls of the channel return as they do for any value;
  what the consumer receives is decided by the method, in a later job. \<open>play\<close> runs
  calls of the channel and jobs in any order. Its states mirror those of \<open>run\<close> on the
  calls alone: every promise comes to the fate of the value that \<open>run\<close> delivers to
  it. A value whose chain of methods has no end keeps the queue of jobs busy for
  ever.
\<close>

section \<open>The channel over promises with jobs\<close>

text \<open>
  \<open>shp\<close> tells what reading \<open>then\<close> of a payload gives; \<open>undefined\<close> and the sentinel
  \<open>CLOSED\<close>, a symbol, are no objects.
\<close>

definition shape_of :: "('a \<Rightarrow> 'a jsval shape) \<Rightarrow> 'a jsval \<Rightarrow> 'a jsval shape" where
  "shape_of shp v = (case v of Payload a \<Rightarrow> shp a | _ \<Rightarrow> Value)"

definition job_ops :: "('a \<Rightarrow> 'a jsval shape) \<Rightarrow> ('a, 'a jsval heap) chan_ops" where
  "job_ops shp =
     \<lparr>op_Promise_resolve = Promise_resolve_job (shape_of shp), op_alloc = alloc_job,
      op_resolve = resolve_job (shape_of shp)\<rparr>"

text \<open>What happens: a call of the channel, or the oldest job of the queue runs.\<close>

datatype 'a event = Call "'a operation" | Job

fun play ::
  "('a \<Rightarrow> 'a jsval shape) \<Rightarrow> 'a event list \<Rightarrow> 'a chan \<Rightarrow> 'a jsval heap \<Rightarrow>
   (js_error + ret) list \<times> 'a chan \<times> 'a jsval heap" where
  "play shp [] c H = ([], c, H)"
| "play shp (Job # es) c H = play shp es c (run_job (shape_of shp) H)"
| "play shp (Call m # es) c H =
     (case gen_call (job_ops shp) m c H of
        (Inl e, c', H') \<Rightarrow> ([Inl e], c', H')
      | (Inr r, c', H') \<Rightarrow>
          (case play shp es c' H' of (rs, c'', H'') \<Rightarrow> (Inr r # rs, c'', H'')))"

fun calls_of :: "'a event list \<Rightarrow> 'a operation list" where
  "calls_of [] = []"
| "calls_of (Call m # es) = m # calls_of es"
| "calls_of (Job # es) = calls_of es"

text \<open>
  A result over heaps agrees with one over stores: the same value is returned, the
  channel is the same and the heap mirrors the store.
\<close>

definition agrees ::
  "('a \<Rightarrow> 'a jsval shape) \<Rightarrow> 'r \<times> 'a chan \<times> 'a jsval heap \<Rightarrow> 'r \<times> 'a chan \<times> 'a jsval store \<Rightarrow> bool" where
  "agrees shp X Y \<longleftrightarrow>
     ret_of X = ret_of Y \<and> chan_of X = chan_of Y \<and> mirrors (shape_of shp) (store_of Y) (store_of X)"

text \<open>
  Two families of objects, for examples: \<open>countdown n\<close> has a method that resolves
  with \<open>countdown (n - 1)\<close> and then calls \<open>reject\<close>, and \<open>countdown 0\<close> is a plain value;
  the method of \<open>ouroboros\<close> resolves with the object itself. \<open>level\<close> is a rank for
  the first family.
\<close>

definition countdown :: "nat \<Rightarrow> nat jsval shape" where
  "countdown n = (if n = 0 then Value else Then [Resolve (Payload (n - 1)), Reject (Payload 9)])"

definition level :: "nat jsval \<Rightarrow> nat" where
  "level v = (case v of Payload n \<Rightarrow> n | _ \<Rightarrow> 0)"

definition ouroboros :: "unit \<Rightarrow> unit jsval shape" where
  "ouroboros u = Then [Resolve (Payload u)]"

section \<open>The instance\<close>

lemma job_ops_sel [simp]:
  "op_Promise_resolve (job_ops shp) = Promise_resolve_job (shape_of shp)"
  "op_alloc (job_ops shp) = alloc_job"
  "op_resolve (job_ops shp) = resolve_job (shape_of shp)"
  by (simp_all add: job_ops_def)

lemma shape_of_simps [simp]:
  "shape_of shp (Payload a) = shp a" "shape_of shp CLOSED = Value" "shape_of shp Undefined = Value"
  by (simp_all add: shape_of_def)

lemma agreesI:
  "ret_of X = ret_of Y \<Longrightarrow> chan_of X = chan_of Y \<Longrightarrow>
   mirrors (shape_of shp) (store_of Y) (store_of X) \<Longrightarrow> agrees shp X Y"
  by (simp add: agrees_def)

lemma agreesD:
  assumes "agrees shp X Y"
  shows "ret_of X = ret_of Y" and "chan_of X = chan_of Y"
    and "mirrors (shape_of shp) (store_of Y) (store_of X)"
  using assms by (simp_all add: agrees_def)

section \<open>Every call agrees\<close>

lemma job_put:
  "mirrors (shape_of shp) h H \<Longrightarrow> agrees shp (gen_put (job_ops shp) v c H) (put v c h)"
  by (cases c rule: producer_cases)
    (simp_all add: agrees_def gen_put_simps put_simps mirrors_resolve)

lemma job_take:
  assumes "mirrors (shape_of shp) h H"
  shows "agrees shp (gen_take (job_ops shp) c H) (take_chan c h)"
  using mirrorsD(2) [OF assms]
  by (cases c rule: consumer_cases)
    (simp_all add: agrees_def gen_take_simps take_simps mirrors_alloc mirrors_Promise_resolve assms)

lemma job_close:
  "mirrors (shape_of shp) h H \<Longrightarrow> agrees shp (gen_close (job_ops shp) c H) (close c h)"
  by (cases "isClosed c") (simp_all add: agrees_def gen_close_simps close_simps mirrors_settle_all)

lemma job_call:
  assumes "mirrors (shape_of shp) h H"
  shows "agrees shp (gen_call (job_ops shp) m c H) (call m c h)"
proof (cases m)
  case (Put v)
  with agreesD [OF job_put [OF assms, of v c]] put_returns [of v c h] show ?thesis
    by (simp add: agrees_def gen_call_sel)
next
  case Take
  with agreesD [OF job_take [OF assms, of c]] take_returns [of c h] show ?thesis
    by (simp add: agrees_def gen_call_sel)
next
  case Close
  with agreesD [OF job_close [OF assms, of c]] close_returns [of c h] show ?thesis
    by (simp add: agrees_def gen_call_sel)
qed

section \<open>Calls and jobs in any order\<close>

lemma play_Call:
  "play shp (Call m # es) c H =
     (ret_of (gen_call (job_ops shp) m c H) #
        ret_of (play shp es (chan_of (gen_call (job_ops shp) m c H))
                  (store_of (gen_call (job_ops shp) m c H))),
      chan_of (play shp es (chan_of (gen_call (job_ops shp) m c H))
                 (store_of (gen_call (job_ops shp) m c H))),
      store_of (play shp es (chan_of (gen_call (job_ops shp) m c H))
                  (store_of (gen_call (job_ops shp) m c H))))"
  using gen_call_total [of "job_ops shp" m c H] by (auto split: prod.splits sum.splits)

declare play.simps(3) [simp del]

lemma play_agrees:
  "mirrors (shape_of shp) h H \<Longrightarrow> agrees shp (play shp es c H) (run (calls_of es) c h)"
proof (induction es arbitrary: c h H)
  case Nil
  then show ?case by (simp add: agrees_def run_Nil)
next
  case (Cons e es)
  show ?case
  proof (cases e)
    case (Call m)
    note a = agreesD [OF job_call [OF Cons.prems, of m c]]
    from agreesD [OF Cons.IH [OF a(3), of "chan_of (call m c h)"]] a(1,2) Call show ?thesis
      by (simp add: agrees_def play_Call run_Cons)
  next
    case Job
    with Cons.IH [OF mirrors_run_job [OF Cons.prems], of c] show ?thesis by simp
  qed
qed

lemma job_call_ok: "heap_ok H \<Longrightarrow> heap_ok (store_of (gen_call (job_ops shp) m c H))"
proof (cases m)
  case (Put v)
  assume "heap_ok H"
  with Put show ?thesis
    by (cases c rule: producer_cases) (simp_all add: gen_call_sel gen_put_simps heap_ok_resolve_job)
next
  case Take
  assume "heap_ok H"
  with Take show ?thesis
    by (cases c rule: consumer_cases)
      (simp_all add: gen_call_sel gen_take_simps heap_ok_alloc heap_ok_Promise_resolve)
next
  case Close
  assume "heap_ok H"
  with Close show ?thesis
    by (cases "isClosed c") (simp_all add: gen_call_sel gen_close_simps heap_ok_foldl)
qed

lemma job_call_le: "heap_le H (store_of (gen_call (job_ops shp) m c H))"
proof (cases m)
  case (Put v)
  then show ?thesis
    by (cases c rule: producer_cases) (simp_all add: gen_call_sel gen_put_simps heap_le_resolve_job)
next
  case Take
  then show ?thesis
    by (cases c rule: consumer_cases)
      (simp_all add: gen_call_sel gen_take_simps heap_le_alloc heap_le_Promise_resolve)
next
  case Close
  then show ?thesis
    by (cases "isClosed c") (simp_all add: gen_call_sel gen_close_simps heap_le_foldl)
qed

lemma play_ok: "heap_ok H \<Longrightarrow> heap_ok (store_of (play shp es c H))"
proof (induction es arbitrary: c H)
  case (Cons e es)
  then show ?case by (cases e) (simp_all add: play_Call job_call_ok heap_ok_run_job)
qed simp

lemma play_le: "heap_ok H \<Longrightarrow> heap_le H (store_of (play shp es c H))"
proof (induction es arbitrary: c H)
  case (Cons e es)
  show ?case
  proof (cases e)
    case (Call m)
    from heap_le_trans [OF job_call_le Cons.IH [OF job_call_ok [OF Cons.prems]]] Call
    show ?thesis by (simp add: play_Call)
  next
    case Job
    from heap_le_trans [OF heap_le_run_job [OF Cons.prems] Cons.IH [OF heap_ok_run_job [OF Cons.prems]]]
      Job
    show ?thesis by simp
  qed
qed simp

lemma play_append:
  "play shp (es @ fs) c H =
     (ret_of (play shp es c H) @
        ret_of (play shp fs (chan_of (play shp es c H)) (store_of (play shp es c H))),
      chan_of (play shp fs (chan_of (play shp es c H)) (store_of (play shp es c H))),
      store_of (play shp fs (chan_of (play shp es c H)) (store_of (play shp es c H))))"
proof (induction es arbitrary: c H)
  case (Cons e es)
  then show ?case by (cases e) (simp_all add: play_Call)
qed simp

lemma settles_once:
  assumes "heap_ok H" and "p < length (cells (store_of (play shp es c H)))"
    and "view (cells (store_of (play shp es c H)) ! p) \<noteq> Waiting"
  shows "cells (store_of (play shp (es @ fs) c H)) ! p = cells (store_of (play shp es c H)) ! p"
  using play_le [OF play_ok [OF assms(1), of shp es c], of shp fs "chan_of (play shp es c H)"]
    assms(2,3)
  by (simp add: play_append heap_le_def cells_le_def)

lemma play_mirrors:
  "mirrors (shape_of shp) (store_of (run (calls_of es) createChannel []))
     (store_of (play shp es createChannel empty_heap))"
  by (rule agreesD(3) [OF play_agrees]) simp

lemmas job_eval = play_Call gen_call_sel gen_defs gen_new_Promise_def alloc_job_def
  resolve_job_def Promise_resolve_job_def resolution_def run_job_def createChannel_def push_def
  of_shifted_def Let_def

lemma ranked_countdown: "ranked (shape_of countdown) level"
  by (auto simp: ranked_def shape_of_def countdown_def level_def split: jsval.splits if_splits)

lemma fate_ouroboros: "fate (shape_of ouroboros) (Payload u) = None"
  by (rule fate_endless [of _ _ "[]"]) (simp add: ouroboros_def)

section \<open>Methods and getters that throw\<close>

lemma thrown_then_rejects:
  assumes "shp a = Throws e \<or> shp a = Then (Throw e # as)"
  shows "play shp [Call Take, Call (Put (Payload a)), Job] createChannel empty_heap =
           ([Inr (RPromise 0), Inr (RBool True)], createChannel, \<lparr>cells = [JRejected e], queue = []\<rparr>)"
  using assms by (auto simp: job_eval heap.equality)

section \<open>What the consumers receive\<close>








end
