(* ===== verification/Channel_Reentrant.thy ===== *)
theory Channel_Reentrant
  imports Channel_System
begin

text \<open>
  Calls of the channel from inside a call of the channel. When a promise is resolved
  with an object, \<^verbatim>\<open>resolve\<close> reads the property \<^verbatim>\<open>then\<close> of the object before it
  settles the promise. If the property has a getter, the getter runs at that point:
  inside \<^verbatim>\<open>resolveQueue.shift()(value)\<close> of \<^verbatim>\<open>put\<close>, and inside
  \<^verbatim>\<open>Promise.resolve(messageQueue.shift())\<close> of \<^verbatim>\<open>take\<close>. The getter may call \<^verbatim>\<open>put\<close>,
  \<^verbatim>\<open>take\<close> and \<^verbatim>\<open>close\<close> of the same channel, while the outer call has changed the
  variables of the channel and has yet to settle its promise.

  Here a value is an object with a program, the calls that its getter makes; the
  getter returns nothing that can be called, so the promise is then fulfilled with the
  object. \<open>begin_put\<close> and \<open>begin_take\<close> are \<^verbatim>\<open>put\<close> and \<^verbatim>\<open>take\<close> of \<^verbatim>\<open>src/index.js\<close> up to
  the point where the getter runs, and \<open>rrun\<close> runs a program with the getters. The
  theory shows that \<open>rrun\<close> ends, that it leaves the channel and the store as the
  atomic calls of \<open>Channel_System\<close> do when they are made in the order in which the
  calls began, and that it is \<open>run\<close> when no value has a getter that calls the channel.
\<close>

section \<open>Objects with a getter\<close>

text \<open>
  An object has a label, which tells objects apart, and the program of the getter of
  its property \<^verbatim>\<open>then\<close>. \<open>Undefined\<close> and the symbol \<open>CLOSED\<close> are no objects, and
  \<^verbatim>\<open>resolve\<close> reads no property of them.
\<close>

datatype 'a obj = Obj (label: 'a) (on_then: "'a obj operation list")

type_synonym 'a prog = "'a obj operation list"

fun then_getter :: "'a obj jsval \<Rightarrow> 'a prog" where
  "then_getter (Payload (Obj a prog)) = prog"
| "then_getter Undefined = []"
| "then_getter CLOSED = []"

section \<open>A call up to the getter\<close>

text \<open>
  A call either is done, with its result, or it has reached \<^verbatim>\<open>resolve(value)\<close>: then it
  holds the result it will return, the value, and the promise it will fulfil with the
  value when the getter has returned. In \<open>begin_put\<close> the resolver has left
  \<open>resolveQueue\<close> by then, and in \<open>begin_take\<close> the message has left \<open>messageQueue\<close> and
  the new promise exists. \<^verbatim>\<open>close\<close> resolves with the symbol \<open>CLOSED\<close> and never pauses.
\<close>

datatype 'v pause = Done "js_error + ret" | Getter "js_error + ret" 'v resolver

definition begin_put ::
  "'v jsval \<Rightarrow> 'v chan \<Rightarrow> 'v jsval store \<Rightarrow> 'v jsval pause \<times> 'v chan \<times> 'v jsval store" where
  "begin_put v c h =
     (if isClosed c then (Done (Inr (RBool False)), c, h)
      else if truthy (length (resolveQueue c)) then
        (case shift (resolveQueue c) of
           (None, rq) \<Rightarrow> (Done (Inl TypeError), c\<lparr>resolveQueue := rq\<rparr>, h)
         | (Some resolve, rq) \<Rightarrow> (Getter (Inr (RBool True)) v resolve, c\<lparr>resolveQueue := rq\<rparr>, h))
      else (Done (Inr (RBool True)), c\<lparr>messageQueue := push (messageQueue c) v\<rparr>, h))"

definition begin_take ::
  "'v chan \<Rightarrow> 'v jsval store \<Rightarrow> 'v jsval pause \<times> 'v chan \<times> 'v jsval store" where
  "begin_take c h =
     (if isClosed c \<and> \<not> truthy (length (messageQueue c)) then
        (case Promise_resolve CLOSED h of (p, h') \<Rightarrow> (Done (Inr (RPromise p)), c, h'))
      else if truthy (length (messageQueue c)) then
        (case shift (messageQueue c) of (m, mq) \<Rightarrow>
           (Getter (Inr (RPromise (length h))) (of_shifted m) (length h),
            c\<lparr>messageQueue := mq\<rparr>, h @ [Pending]))
      else (case new_Promise (\<lambda>resolve c. c\<lparr>resolveQueue := push (resolveQueue c) resolve\<rparr>) c h of
        (p, c', h') \<Rightarrow> (Done (Inr (RPromise p)), c', h')))"

fun begin_call ::
  "'v operation \<Rightarrow> 'v chan \<Rightarrow> 'v jsval store \<Rightarrow> 'v jsval pause \<times> 'v chan \<times> 'v jsval store" where
  "begin_call (Put v) c h = begin_put v c h"
| "begin_call Take c h = begin_take c h"
| "begin_call Close c h = (case close c h of (b, c', h') \<Rightarrow> (Done (Inr (RBool b)), c', h'))"

section \<open>Programs with getters\<close>

text \<open>
  \<open>rrun\<close> runs a program call by call. When a call pauses, the program of the getter
  runs on the channel as the call has left it; then the call fulfils its promise, and
  the program goes on. \<open>rrun\<close> returns the results of the calls of the program, and
  the log of all calls, those of the getters included, in the order in which they
  began. The recursion is not structural: a \<^verbatim>\<open>take\<close> runs the getter of a value that it
  finds in the buffer. The measure \<open>potential\<close> counts the program and the values in
  the buffer, with the programs inside them.
\<close>

definition vsize :: "'a obj jsval \<Rightarrow> nat" where
  "vsize = size_jsval (size_obj (\<lambda>_. 0))"

definition osize :: "'a obj operation \<Rightarrow> nat" where
  "osize = size_operation (size_obj (\<lambda>_. 0))"

definition psize :: "'a prog \<Rightarrow> nat" where
  "psize = size_list osize"

definition buffered :: "'a obj chan \<Rightarrow> nat" where
  "buffered c = sum_list (map vsize (messageQueue c))"

definition potential :: "'a prog \<Rightarrow> 'a obj chan \<Rightarrow> nat" where
  "potential ms c = psize ms + buffered c"

function rrun :: "'a prog \<Rightarrow> 'a obj chan \<Rightarrow> 'a obj jsval store \<Rightarrow>
    ((js_error + ret) list \<times> 'a prog) \<times> 'a obj chan \<times> 'a obj jsval store" where
  "rrun [] c h = (([], []), c, h)"
| "rrun (m # ms) c h =
     (case begin_call m c h of
        (Done r, c1, h1) \<Rightarrow>
          (case rrun ms c1 h1 of ((rs, l), c2, h2) \<Rightarrow> ((r # rs, m # l), c2, h2))
      | (Getter r v p, c1, h1) \<Rightarrow>
          (case rrun (then_getter v) c1 h1 of ((gs, lg), c2, h2) \<Rightarrow>
             (case rrun ms c2 (resolve_fn p v h2) of
                ((rs, l), c3, h3) \<Rightarrow> ((r # rs, m # lg @ l), c3, h3))))"
  by pat_completeness auto

abbreviation rets_of :: "('r \<times> 'l) \<times> 'c \<times> 'h \<Rightarrow> 'r" where
  "rets_of x \<equiv> fst (ret_of x)"

abbreviation log_of :: "('r \<times> 'l) \<times> 'c \<times> 'h \<Rightarrow> 'l" where
  "log_of x \<equiv> snd (ret_of x)"

section \<open>Paused calls and plain values\<close>

text \<open>
  The promises of paused calls, oldest call last: \<open>settle_stack\<close> fulfils them as
  the calls will, and \<open>locked\<close> says that they are pending, in no queue, and distinct.
  A value is \<open>plain\<close> when its getter calls nothing.
\<close>

fun settle_stack :: "(promise \<times> 'v) list \<Rightarrow> 'v store \<Rightarrow> 'v store" where
  "settle_stack [] h = h"
| "settle_stack ((p, v) # ls) h = settle_stack ls (resolve_fn p v h)"

definition locked :: "'v chan \<Rightarrow> 'v jsval store \<Rightarrow> (promise \<times> 'v jsval) list \<Rightarrow> bool" where
  "locked c h ls \<longleftrightarrow>
     distinct (map fst ls) \<and> list_all (\<lambda>(p, v). pending h p \<and> p \<notin> set (resolveQueue c)) ls"

definition plain :: "'a obj jsval \<Rightarrow> bool" where
  "plain v \<longleftrightarrow> then_getter v = []"

fun plain_op :: "'a obj operation \<Rightarrow> bool" where
  "plain_op (Put v) = plain v"
| "plain_op Take = True"
| "plain_op Close = True"

section \<open>A call up to its pause, branch by branch\<close>

lemma begin_put_closed: "isClosed c \<Longrightarrow> begin_call (Put v) c h = (Done (Inr (RBool False)), c, h)"
  by (simp add: begin_put_def)

lemma begin_put_handoff:
  "\<not> isClosed c \<Longrightarrow> resolveQueue c = r # rs \<Longrightarrow>
   begin_call (Put v) c h = (Getter (Inr (RBool True)) v r, c\<lparr>resolveQueue := rs\<rparr>, h)"
  by (simp add: begin_put_def)

lemma begin_put_buffer:
  "\<not> isClosed c \<Longrightarrow> resolveQueue c = [] \<Longrightarrow>
   begin_call (Put v) c h = (Done (Inr (RBool True)), c\<lparr>messageQueue := messageQueue c @ [v]\<rparr>, h)"
  by (simp add: begin_put_def push_def)

lemma begin_take_drained:
  "isClosed c \<Longrightarrow> messageQueue c = [] \<Longrightarrow>
   begin_call Take c h = (Done (Inr (RPromise (length h))), c, h @ [Fulfilled CLOSED])"
  by (simp add: begin_take_def Promise_resolve_def)

lemma begin_take_buffered:
  "messageQueue c = v # vs \<Longrightarrow>
   begin_call Take c h =
     (Getter (Inr (RPromise (length h))) v (length h), c\<lparr>messageQueue := vs\<rparr>, h @ [Pending])"
  by (simp add: begin_take_def of_shifted_def)

lemma begin_take_wait:
  "\<not> isClosed c \<Longrightarrow> messageQueue c = [] \<Longrightarrow>
   begin_call Take c h =
     (Done (Inr (RPromise (length h))), c\<lparr>resolveQueue := resolveQueue c @ [length h]\<rparr>, h @ [Pending])"
  by (simp add: begin_take_def new_Promise_def push_def)

lemma begin_close_closed:
  "isClosed c \<Longrightarrow> begin_call Close c h = (Done (Inr (RBool False)), c, h)"
  by (simp add: close_simps)

lemma begin_close_open:
  "\<not> isClosed c \<Longrightarrow>
   begin_call Close c h =
     (Done (Inr (RBool True)), c\<lparr>isClosed := True\<rparr>, settle_all CLOSED (resolveQueue c) h)"
  by (simp add: close_simps)

lemmas begin_simps = begin_put_closed begin_put_handoff begin_put_buffer begin_take_drained
  begin_take_buffered begin_take_wait begin_close_closed begin_close_open

declare begin_call.simps [simp del]

lemma begin_cases [case_names closed_put handoff buffer drained buffered wait closed_close open_close]:
  obtains (closed_put) v where "m = Put v" and "isClosed c"
  | (handoff) v r rs where "m = Put v" and "\<not> isClosed c" and "resolveQueue c = r # rs"
  | (buffer) v where "m = Put v" and "\<not> isClosed c" and "resolveQueue c = []"
  | (drained) "m = Take" and "isClosed c" and "messageQueue c = []"
  | (buffered) v vs where "m = Take" and "messageQueue c = v # vs"
  | (wait) "m = Take" and "\<not> isClosed c" and "messageQueue c = []"
  | (closed_close) "m = Close" and "isClosed c"
  | (open_close) "m = Close" and "\<not> isClosed c"
  by (cases m; cases "isClosed c"; cases "resolveQueue c"; cases "messageQueue c") auto

section \<open>The measure of a run\<close>

lemma psize_simps [simp]: "psize [] = 0" "psize (m # ms) = osize m + psize ms + 1"
  by (simp_all add: psize_def)

lemma psize_getter: "psize (then_getter v) < vsize v"
  by (cases v rule: then_getter.cases) (simp_all add: vsize_def psize_def osize_def)

lemma begin_done:
  "begin_call m c h = (Done r, c1, h1) \<Longrightarrow> buffered c1 \<le> osize m + buffered c"
  by (cases m c rule: begin_cases) (auto simp: begin_simps buffered_def osize_def vsize_def)

lemma begin_getter:
  "begin_call m c h = (Getter r v p, c1, h1) \<Longrightarrow>
   psize (then_getter v) + buffered c1 < osize m + buffered c"
  using psize_getter [of v]
  by (cases m c rule: begin_cases) (auto simp: begin_simps buffered_def osize_def vsize_def)

lemma rrun_estimate:
  assumes "rrun_dom (ms, c, h)"
  shows "buffered (chan_of (rrun ms c h)) \<le> potential ms c"
  using assms
proof (induction rule: rrun.pinduct)
  case (1 c h)
  then show ?case by (simp add: rrun.psimps potential_def)
next
  case (2 m ms c h)
  obtain q c1 h1 where b: "begin_call m c h = (q, c1, h1)" by (cases "begin_call m c h")
  show ?case
  proof (cases q)
    case (Done r)
    with 2(2) [of q "(c1, h1)" r c1 h1] b begin_done [of m c h r c1 h1] 2(1) show ?thesis
      by (auto simp: rrun.psimps potential_def split: prod.splits)
  next
    case (Getter r v p)
    obtain gs c2 h2 where g: "rrun (then_getter v) c1 h1 = (gs, c2, h2)"
      by (cases "rrun (then_getter v) c1 h1")
    from 2(3) [of q "(c1, h1)" r v p c1 h1] b Getter g
    have "buffered c2 \<le> potential (then_getter v) c1" by simp
    moreover from 2(4) [of q "(c1, h1)" r v p c1 h1 gs "(c2, h2)" "fst gs" "snd gs" c2 h2] b Getter g
    have "buffered (chan_of (rrun ms c2 (resolve_fn p v h2))) \<le> potential ms c2" by simp
    ultimately show ?thesis
      using b Getter g begin_getter [of m c h r v p c1 h1] 2(1)
      by (auto simp: rrun.psimps potential_def split: prod.splits)
  qed
qed

termination rrun
proof (relation "measure (\<lambda>(ms, c, h). potential ms c)", goal_cases)
  case 1
  show ?case by simp
next
  case (2 m ms c h x y r c1 h1)
  with begin_done [of m c h r c1 h1] show ?case by (auto simp: potential_def)
next
  case (3 m ms c h x y r v p c1 h1)
  with begin_getter [of m c h r v p c1 h1] show ?case by (auto simp: potential_def)
next
  case (4 m ms c h x y r v p c1 h1 gl y' gs lg c2 h2)
  then have g: "rrun (then_getter v) c1 h1 = (gl, c2, h2)"
    and b: "begin_call m c h = (Getter r v p, c1, h1)"
    and d: "rrun_dom (then_getter v, c1, h1)" by auto
  from rrun_estimate [OF d] g begin_getter [OF b] show ?case by (simp add: potential_def)
qed


declare rrun.simps(2) [simp del]

lemma rrun_Done:
  "begin_call m c h = (Done r, c1, h1) \<Longrightarrow>
   rrun (m # ms) c h =
     ((r # rets_of (rrun ms c1 h1), m # log_of (rrun ms c1 h1)),
      chan_of (rrun ms c1 h1), store_of (rrun ms c1 h1))"
  by (simp add: rrun.simps(2) split: prod.splits)

lemma rrun_Getter:
  "begin_call m c h = (Getter r v p, c1, h1) \<Longrightarrow> rrun (then_getter v) c1 h1 = (gl, c2, h2) \<Longrightarrow>
   rrun (m # ms) c h =
     ((r # rets_of (rrun ms c2 (resolve_fn p v h2)),
       m # snd gl @ log_of (rrun ms c2 (resolve_fn p v h2))),
      chan_of (rrun ms c2 (resolve_fn p v h2)), store_of (rrun ms c2 (resolve_fn p v h2)))"
  by (simp add: rrun.simps(2) split: prod.splits)

section \<open>A paused call and the atomic call\<close>

text \<open>
  A call that pauses has done all of the atomic call but the settlement of one promise;
  that promise is pending and its resolver is in no queue.
\<close>

lemma resolve_fn_new: "resolve_fn (length h) v (h @ [Pending]) = h @ [Fulfilled v]"
  by (simp add: resolve_fn_def)

lemma begin_call_Done: "begin_call m c h = (Done r, c1, h1) \<Longrightarrow> call m c h = (r, c1, h1)"
  by (cases m c rule: begin_cases) (auto simp: begin_simps op_simps)

lemma begin_call_Getter:
  "begin_call m c h = (Getter r v p, c1, h1) \<Longrightarrow> call m c h = (r, c1, resolve_fn p v h1)"
  by (cases m c rule: begin_cases) (auto simp: begin_simps op_simps resolve_fn_new)

lemma begin_call_locks:
  assumes "chan_inv c h" and "begin_call m c h = (Getter r v p, c1, h1)"
  shows "pending h1 p" and "p \<notin> set (resolveQueue c1)"
proof -
  from assms(1) have w: "waiters_ok c h" by (simp add: chan_inv_def)
  from assms show "pending h1 p"
    by (cases m c rule: begin_cases)
      (auto simp: begin_simps pending_snoc dest: waiters_pending [where r = p])
  from assms(2) w waiters_lt [OF w, of "length h"] show "p \<notin> set (resolveQueue c1)"
    by (cases m c rule: begin_cases) (auto simp: begin_simps waiters_ok_def)
qed

section \<open>Promises that wait for a getter\<close>

lemma resolve_fn_commute:
  "p \<noteq> q \<Longrightarrow> resolve_fn q w (resolve_fn p v h) = resolve_fn p v (resolve_fn q w h)"
  by (auto simp: resolve_fn_def list_update_swap)

lemma settle_all_commute:
  "p \<notin> set rs \<Longrightarrow> settle_all w rs (resolve_fn p v h) = resolve_fn p v (settle_all w rs h)"
proof (induction rs arbitrary: h)
  case Nil
  show ?case by simp
next
  case (Cons r rs)
  then have "resolve_fn r w (resolve_fn p v h) = resolve_fn p v (resolve_fn r w h)"
    by (intro resolve_fn_commute) auto
  with Cons show ?case by simp
qed

lemma begin_call_commute:
  assumes "pending h p" and "p \<notin> set (resolveQueue c)"
  shows "begin_call m c (resolve_fn p v h) =
    (fst (begin_call m c h), chan_of (begin_call m c h), resolve_fn p v (store_of (begin_call m c h)))"
  using assms pending_lt [OF assms(1)]
  by (cases m c rule: begin_cases) (simp_all add: begin_simps resolve_fn_snoc settle_all_commute)

lemma begin_call_frame:
  assumes "pending h p" and "p \<notin> set (resolveQueue c)" and "begin_call m c h = (q, c1, h1)"
  shows "pending h1 p" and "p \<notin> set (resolveQueue c1)" and "q = Getter r w p' \<Longrightarrow> p' \<noteq> p"
  using assms pending_lt [OF assms(1)]
  by (cases m c rule: begin_cases; auto simp: begin_simps pending_snoc pending_settle_all)+

section \<open>The stack of paused calls\<close>

text \<open>
  While a getter runs, the call that reads it is paused, and so are the calls that
  were paused when that call was made. Each paused call holds a promise that it
  settles when it goes on. These promises are pending, in no queue, and distinct.
\<close>

lemma locked_Nil [simp]: "locked c h []"
  by (simp add: locked_def)

lemma locked_Cons:
  "locked c h ((p, v) # ls) \<longleftrightarrow>
     pending h p \<and> p \<notin> set (resolveQueue c) \<and> p \<notin> fst ` set ls \<and> locked c h ls"
  by (auto simp: locked_def)

lemma length_settle_stack [simp]: "length (settle_stack ls h) = length h"
  by (induction ls h rule: settle_stack.induct) simp_all

lemma pending_settle_stack:
  "pending (settle_stack ls h) q \<longleftrightarrow> pending h q \<and> q \<notin> fst ` set ls"
  by (induction ls h rule: settle_stack.induct) (auto simp: pending_resolve_fn)

lemma settle_stack_commute:
  "p \<notin> fst ` set ls \<Longrightarrow> settle_stack ls (resolve_fn p v h) = resolve_fn p v (settle_stack ls h)"
proof (induction ls h rule: settle_stack.induct)
  case (1 h)
  show ?case by simp
next
  case (2 q w ls h)
  then have "resolve_fn q w (resolve_fn p v h) = resolve_fn p v (resolve_fn q w h)"
    by (intro resolve_fn_commute) auto
  with 2 show ?case by simp
qed

lemma locked_resolve: "locked c h ls \<Longrightarrow> p \<notin> fst ` set ls \<Longrightarrow> locked c (resolve_fn p v h) ls"
  by (force simp: locked_def list_all_iff pending_resolve_fn)

lemma locked_begin:
  assumes "locked c h ls" and "begin_call m c h = (q, c1, h1)"
  shows "locked c1 h1 ls" and "q = Getter r w p \<Longrightarrow> p \<notin> fst ` set ls"
  using assms begin_call_frame [OF _ _ assms(2)]
  by (fastforce simp: locked_def list_all_iff)+

lemma begin_call_stack:
  "locked c h ls \<Longrightarrow>
   begin_call m c (settle_stack ls h) =
     (fst (begin_call m c h), chan_of (begin_call m c h),
      settle_stack ls (store_of (begin_call m c h)))"
proof (induction ls h rule: settle_stack.induct)
  case (1 h)
  show ?case by simp
next
  case (2 p v ls h)
  then have "locked c (resolve_fn p v h) ls" and "pending h p" and "p \<notin> set (resolveQueue c)"
    by (simp_all add: locked_Cons locked_resolve)
  with "2.IH" begin_call_commute [of h p c m v] show ?case by simp
qed

lemma reaches_chan_inv: "reaches h0 c h \<Longrightarrow> chan_inv c h"
  by (erule reaches_invariant) (simp_all add: chan_inv_create chan_inv_call)

lemma run_call:
  "chan_of (run (L @ [m]) c0 h0) = chan_of (call m (chan_of (run L c0 h0)) (store_of (run L c0 h0)))"
  "store_of (run (L @ [m]) c0 h0) = store_of (call m (chan_of (run L c0 h0)) (store_of (run L c0 h0)))"
  by (simp_all add: run_snoc)

lemma done_step:
  assumes "locked c h ls" and "chan_of (run L createChannel h0) = c"
    and "store_of (run L createChannel h0) = settle_stack ls h"
    and b: "begin_call m c h = (Done x, c1, h1)"
  shows "locked c1 h1 ls" and "chan_of (run (L @ [m]) createChannel h0) = c1"
    and "store_of (run (L @ [m]) createChannel h0) = settle_stack ls h1"
proof -
  from begin_call_stack [OF assms(1), of m] b
  have "begin_call m c (settle_stack ls h) = (Done x, c1, settle_stack ls h1)" by simp
  from begin_call_Done [OF this] run_call [of L m createChannel h0] assms(2,3)
  show "chan_of (run (L @ [m]) createChannel h0) = c1"
    and "store_of (run (L @ [m]) createChannel h0) = settle_stack ls h1" by simp_all
  from locked_begin(1) [OF assms(1) b] show "locked c1 h1 ls" .
qed

lemma getter_step:
  assumes "locked c h ls" and "chan_of (run L createChannel h0) = c"
    and "store_of (run L createChannel h0) = settle_stack ls h"
    and b: "begin_call m c h = (Getter x w p, c1, h1)"
  shows "locked c1 h1 ((p, w) # ls)" and "chan_of (run (L @ [m]) createChannel h0) = c1"
    and "store_of (run (L @ [m]) createChannel h0) = settle_stack ((p, w) # ls) h1"
proof -
  note new = locked_begin(2) [OF assms(1) b refl]
  from begin_call_stack [OF assms(1), of m] b
  have bs: "begin_call m c (settle_stack ls h) = (Getter x w p, c1, settle_stack ls h1)" by simp
  from begin_call_Getter [OF bs] run_call [of L m createChannel h0] assms(2,3) new
  show "chan_of (run (L @ [m]) createChannel h0) = c1"
    and "store_of (run (L @ [m]) createChannel h0) = settle_stack ((p, w) # ls) h1"
    by (simp_all add: settle_stack_commute)
  from reaches_run [of h0 L] assms(2,3) have "chan_inv c (settle_stack ls h)"
    by (auto dest: reaches_chan_inv)
  from begin_call_locks [OF this bs] locked_begin(1) [OF assms(1) b] new
  show "locked c1 h1 ((p, w) # ls)" by (simp add: locked_Cons pending_settle_stack)
qed

lemma rrun_stack:
  "locked c h ls \<Longrightarrow> chan_of (run L createChannel h0) = c \<Longrightarrow>
   store_of (run L createChannel h0) = settle_stack ls h \<Longrightarrow>
   chan_of (run (L @ log_of (rrun ms c h)) createChannel h0) = chan_of (rrun ms c h) \<and>
   store_of (run (L @ log_of (rrun ms c h)) createChannel h0) =
     settle_stack ls (store_of (rrun ms c h)) \<and>
   locked (chan_of (rrun ms c h)) (store_of (rrun ms c h)) ls"
proof (induction ms c h arbitrary: ls L rule: rrun.induct)
  case (1 c h)
  then show ?case by simp
next
  case (2 m ms c h)
  obtain q c1 h1 where b: "begin_call m c h = (q, c1, h1)" by (cases "begin_call m c h")
  show ?case
  proof (cases q)
    case (Done x)
    from "2.IH"(1) [OF b [symmetric] Done refl done_step [OF "2.prems" b [unfolded Done]]]
      rrun_Done [of m c h x c1 h1 ms] b Done
    show ?thesis by simp
  next
    case (Getter x w p)
    obtain gl c2 h2 where g: "rrun (then_getter w) c1 h1 = (gl, c2, h2)"
      by (cases "rrun (then_getter w) c1 h1")
    from "2.IH"(2) [OF b [symmetric] Getter refl getter_step [OF "2.prems" b [unfolded Getter]]] g
    have "chan_of (run ((L @ [m]) @ snd gl) createChannel h0) = c2"
      and "store_of (run ((L @ [m]) @ snd gl) createChannel h0) = settle_stack ls (resolve_fn p w h2)"
      and "locked c2 (resolve_fn p w h2) ls"
      by (simp_all add: locked_Cons locked_resolve)
    from "2.IH"(3) [OF b [symmetric] Getter refl g [symmetric] _ refl this(3,1,2), of "fst gl" "snd gl"]
      rrun_Getter [of m c h x w p c1 h1 gl c2 h2 ms] b Getter g
    show ?thesis by simp
  qed
qed

section \<open>Results and bounds\<close>

lemma begin_call_total:
  "\<exists>x. fst (begin_call m c h) = Done (Inr x) \<or> (\<exists>v p. fst (begin_call m c h) = Getter (Inr x) v p)"
  by (cases m c rule: begin_cases) (simp_all add: begin_simps)

lemma rrun_total: "\<exists>rs. rets_of (rrun ms c h) = map Inr rs \<and> length rs = length ms"
proof (induction ms c h rule: rrun.induct)
  case (1 c h)
  show ?case by simp
next
  case (2 m ms c h)
  obtain q c1 h1 where b: "begin_call m c h = (q, c1, h1)" by (cases "begin_call m c h")
  show ?case
  proof (cases q)
    case (Done x)
    from "2.IH"(1) [OF b [symmetric] Done refl]
    obtain rs where rs: "rets_of (rrun ms c1 h1) = map Inr rs" "length rs = length ms" by blast
    from begin_call_total [of m c h] b Done obtain y where "x = Inr y" by auto
    with rs rrun_Done [of m c h x c1 h1 ms] b Done
    have "rets_of (rrun (m # ms) c h) = map Inr (y # rs) \<and> length (y # rs) = length (m # ms)"
      by simp
    then show ?thesis by blast
  next
    case (Getter x w p)
    obtain gl c2 h2 where g: "rrun (then_getter w) c1 h1 = (gl, c2, h2)"
      by (cases "rrun (then_getter w) c1 h1")
    from "2.IH"(3) [OF b [symmetric] Getter refl g [symmetric] _ refl, of "fst gl" "snd gl"]
    obtain rs where rs: "rets_of (rrun ms c2 (resolve_fn p w h2)) = map Inr rs" "length rs = length ms"
      by auto
    from begin_call_total [of m c h] b Getter obtain y where "x = Inr y" by auto
    with rs rrun_Getter [of m c h x w p c1 h1 gl c2 h2 ms] b Getter g
    have "rets_of (rrun (m # ms) c h) = map Inr (y # rs) \<and> length (y # rs) = length (m # ms)"
      by simp
    then show ?thesis by blast
  qed
qed

lemma rrun_bound:
  "length (log_of (rrun ms c h)) + buffered (chan_of (rrun ms c h)) \<le> potential ms c"
proof (induction ms c h rule: rrun.induct)
  case (1 c h)
  show ?case by (simp add: potential_def)
next
  case (2 m ms c h)
  obtain q c1 h1 where b: "begin_call m c h = (q, c1, h1)" by (cases "begin_call m c h")
  show ?case
  proof (cases q)
    case (Done x)
    with "2.IH"(1) [OF b [symmetric] Done refl] begin_done [of m c h x c1 h1]
      rrun_Done [of m c h x c1 h1 ms] b
    show ?thesis by (simp add: potential_def)
  next
    case (Getter x w p)
    obtain gl c2 h2 where g: "rrun (then_getter w) c1 h1 = (gl, c2, h2)"
      by (cases "rrun (then_getter w) c1 h1")
    from "2.IH"(2) [OF b [symmetric] Getter refl] g
    have "length (snd gl) + buffered c2 \<le> potential (then_getter w) c1" by simp
    with "2.IH"(3) [OF b [symmetric] Getter refl g [symmetric] _ refl, of "fst gl" "snd gl"]
      begin_getter [of m c h x w p c1 h1] rrun_Getter [of m c h x w p c1 h1 gl c2 h2 ms] b Getter g
    show ?thesis by (simp add: potential_def)
  qed
qed

section \<open>Values without a getter\<close>

lemma begin_plain:
  assumes "plain_op m" and "list_all plain (messageQueue c)" and "begin_call m c h = (q, c1, h1)"
  shows "list_all plain (messageQueue c1)" and "q = Getter x w p \<Longrightarrow> plain w"
  using assms by (cases m c rule: begin_cases; auto simp: begin_simps)+

lemma rrun_plain:
  "list_all plain_op ms \<Longrightarrow> list_all plain (messageQueue c) \<Longrightarrow>
   rrun ms c h = ((ret_of (run ms c h), ms), chan_of (run ms c h), store_of (run ms c h))"
proof (induction ms arbitrary: c h)
  case Nil
  show ?case by (simp add: run_Nil)
next
  case (Cons m ms)
  obtain q c1 h1 where b: "begin_call m c h = (q, c1, h1)" by (cases "begin_call m c h")
  from Cons.prems have m: "plain_op m" and ms: "list_all plain_op ms" by simp_all
  note p = begin_plain [OF m Cons.prems(2) b]
  show ?case
  proof (cases q)
    case (Done x)
    with b begin_call_Done [of m c h x c1 h1] Cons.IH [OF ms p(1), of h1]
    show ?thesis by (simp add: rrun_Done run_Cons)
  next
    case (Getter x w r)
    with p(2) have "rrun (then_getter w) c1 h1 = (([], []), c1, h1)" by (simp add: plain_def)
    with b Getter begin_call_Getter [of m c h x w r c1 h1] Cons.IH [OF ms p(1), of "resolve_fn r w h1"]
    show ?thesis by (simp add: rrun_Getter run_Cons)
  qed
qed

lemma plain_reentrant_is_run:
  "list_all plain_op ms \<Longrightarrow>
   rrun ms createChannel h0 =
     ((ret_of (run ms createChannel h0), ms),
      chan_of (run ms createChannel h0), store_of (run ms createChannel h0))"
  by (rule rrun_plain) (simp_all add: createChannel_def)

lemma reentrant_calls_bounded: "length (log_of (rrun ms createChannel h0)) \<le> psize ms"
  using rrun_bound [of ms createChannel h0] by (simp add: potential_def buffered_def createChannel_def)

section \<open>Re-entrant runs are runs of their logs\<close>

text \<open>
  Claim C19 (safety). Calls of the channel from the getter of a value do no harm. A
  program whose values have getters that call the channel, to any depth, leaves the
  channel and the store as the atomic calls of its log do, made one after the other
  on a new channel; so it reaches no state that atomic calls do not reach, and the
  invariant of the channel holds when it ends. No call of it throws.
\<close>

theorem reentrant_linearises:
  "chan_of (rrun ms createChannel h0) =
     chan_of (run (log_of (rrun ms createChannel h0)) createChannel h0) \<and>
   store_of (rrun ms createChannel h0) =
     store_of (run (log_of (rrun ms createChannel h0)) createChannel h0) \<and>
   chan_inv (chan_of (rrun ms createChannel h0)) (store_of (rrun ms createChannel h0)) \<and>
   (\<exists>rs. rets_of (rrun ms createChannel h0) = map Inr rs \<and> length rs = length ms)"
proof -
  from rrun_stack [of createChannel h0 "[]" "[]" h0 ms]
  have eq: "chan_of (run (log_of (rrun ms createChannel h0)) createChannel h0) =
      chan_of (rrun ms createChannel h0)"
    "store_of (run (log_of (rrun ms createChannel h0)) createChannel h0) =
      store_of (rrun ms createChannel h0)"
    by (simp_all add: run_Nil)
  from reaches_chan_inv [OF reaches_run [of h0 "log_of (rrun ms createChannel h0)"]] eq
  have "chan_inv (chan_of (rrun ms createChannel h0)) (store_of (rrun ms createChannel h0))"
    by simp
  with eq rrun_total [of ms createChannel h0] show ?thesis by simp
qed

text \<open>
  The scenario in which the order of the statements of \<^verbatim>\<open>put\<close> matters. A consumer
  waits; \<^verbatim>\<open>put\<close> is called with an object whose getter takes and then puts a second
  object. The getter runs when the resolver of the consumer has left the queue, so its
  \<^verbatim>\<open>take\<close> waits at the front of the queue and its \<^verbatim>\<open>put\<close> serves that \<^verbatim>\<open>take\<close>: both
  promises are fulfilled, each with its object.
\<close>

lemma take_inside_put:
  "rrun [Take, Put (Payload (Obj (1::nat) [Take, Put (Payload (Obj 2 []))]))] createChannel [] =
     (([Inr (RPromise 0), Inr (RBool True)],
       [Take, Put (Payload (Obj 1 [Take, Put (Payload (Obj 2 []))])), Take, Put (Payload (Obj 2 []))]),
      createChannel,
      [Fulfilled (Payload (Obj 1 [Take, Put (Payload (Obj 2 []))])), Fulfilled (Payload (Obj 2 []))])"
  by (simp add: rrun.simps(2) begin_call.simps begin_put_def begin_take_def eval_simps)

end
