(* ===== verification/Channel_Order.thy ===== *)
theory Channel_Order
  imports Channel_Generic
begin

text \<open>
  The order in which promises are settled. The store of \<open>JS_Promise\<close> says what each
  promise holds, not when it got it; here the store carries a log of the promises
  that resolve functions have fulfilled, in the order of the calls. A consumer that
  awaits its promise is resumed when the promise is settled, so the log is the order
  in which waiting consumers are made ready to run. The channel over this store
  behaves as the channel of \<open>Channel\<close>, and its log is the list of the takes that had
  to wait, in the order of the takes, less those still waiting.
\<close>

section \<open>A store with a log\<close>

type_synonym 'v lstore = "'v store \<times> promise list"

definition log_Promise_resolve :: "'v \<Rightarrow> 'v lstore \<Rightarrow> promise \<times> 'v lstore" where
  "log_Promise_resolve v s = (case Promise_resolve v (fst s) of (p, h') \<Rightarrow> (p, (h', snd s)))"

definition log_alloc :: "'v lstore \<Rightarrow> promise \<times> 'v lstore" where
  "log_alloc s = (length (fst s), (fst s @ [Pending], snd s))"

definition log_resolve :: "resolver \<Rightarrow> 'v \<Rightarrow> 'v lstore \<Rightarrow> 'v lstore" where
  "log_resolve r v s =
     (resolve_fn r v (fst s), if pending (fst s) r then snd s @ [r] else snd s)"

text \<open>The logging promises as an implementation of the interface.\<close>

definition log_ops :: "('a, 'a jsval lstore) chan_ops" where
  "log_ops =
     \<lparr>op_Promise_resolve = log_Promise_resolve, op_alloc = log_alloc, op_resolve = log_resolve\<rparr>"

text \<open>
  The promises of the calls of \<open>take\<close> that find the channel open and its buffer empty,
  when the store holds \<open>p\<close> promises and the control state is \<open>s\<close>; and the resolvers
  of a channel that are still to be called.
\<close>

fun waiting_takes ::
  "promise \<Rightarrow> 'a operation list \<Rightarrow> bool \<times> 'a jsval list \<times> nat \<Rightarrow> promise list" where
  "waiting_takes p [] s = []"
| "waiting_takes p (Take # ms) s =
     (if \<not> fst s \<and> fst (snd s) = [] then [p] else []) @
     waiting_takes (Suc p) ms (snd (ctl_call Take s))"
| "waiting_takes p (Put v # ms) s = waiting_takes p ms (snd (ctl_call (Put v) s))"
| "waiting_takes p (Close # ms) s = waiting_takes p ms (snd (ctl_call Close s))"

definition unserved :: "'a chan \<Rightarrow> resolver list" where
  "unserved c = (if isClosed c then [] else resolveQueue c)"

section \<open>The instance\<close>

lemma log_ops_sel [simp]:
  "op_Promise_resolve log_ops = log_Promise_resolve"
  "op_alloc log_ops = log_alloc"
  "op_resolve log_ops = log_resolve"
  by (simp_all add: log_ops_def)

lemma log_resolve_sel [simp]:
  "fst (log_resolve r v s) = resolve_fn r v (fst s)"
  "snd (log_resolve r v s) = (if pending (fst s) r then snd s @ [r] else snd s)"
  by (simp_all add: log_resolve_def)

lemma log_alloc_sel [simp]:
  "fst (log_alloc s) = length (fst s)" "snd (log_alloc s) = (fst s @ [Pending], snd s)"
  by (simp_all add: log_alloc_def)

lemma log_Promise_resolve_sel [simp]:
  "fst (log_Promise_resolve v s) = length (fst s)"
  "snd (log_Promise_resolve v s) = (fst s @ [Fulfilled v], snd s)"
  by (simp_all add: log_Promise_resolve_def Promise_resolve_def)

section \<open>The log of a close\<close>

lemma foldl_log_resolve:
  "distinct rs \<Longrightarrow> list_all (pending h) rs \<Longrightarrow>
   foldl (\<lambda>s r. log_resolve r v s) (h, l) rs = (settle_all v rs h, l @ rs)"
proof (induction rs arbitrary: h l)
  case Nil
  show ?case by simp
next
  case (Cons r rs)
  from Cons.prems have "list_all (pending (resolve_fn r v h)) rs"
    by (auto simp: list_all_iff pending_resolve_fn)
  with Cons.prems Cons.IH [of "resolve_fn r v h" "l @ [r]"] show ?case
    by (simp add: log_resolve_def)
qed

section \<open>Logging changes nothing\<close>

lemma log_call_fst:
  "chan_inv c (fst s) \<Longrightarrow>
   ret_of (gen_call log_ops m c s) = ret_of (call m c (fst s)) \<and>
   chan_of (gen_call log_ops m c s) = chan_of (call m c (fst s)) \<and>
   fst (store_of (gen_call log_ops m c s)) = store_of (call m c (fst s))"
proof (cases m)
  case (Put v)
  then show ?thesis
    by (cases c rule: producer_cases) (simp_all add: gen_call_sel gen_put_simps put_simps)
next
  case Take
  then show ?thesis
    by (cases c rule: consumer_cases) (simp_all add: gen_call_sel gen_take_simps take_simps)
next
  case Close
  assume "chan_inv c (fst s)"
  then have "\<not> isClosed c \<Longrightarrow> distinct (resolveQueue c) \<and> list_all (pending (fst s)) (resolveQueue c)"
    by (simp add: inv_defs)
  with Close show ?thesis
    by (cases "isClosed c"; cases s)
      (simp_all add: gen_call_sel gen_close_simps close_simps foldl_log_resolve)
qed

lemma log_call_chan_inv:
  "chan_inv c (fst s) \<Longrightarrow>
   chan_inv (chan_of (gen_call log_ops m c s)) (fst (store_of (gen_call log_ops m c s)))"
  using chan_inv_call [of c "fst s" m] by (simp add: log_call_fst)

lemma log_run_fst:
  "chan_inv c (fst s) \<Longrightarrow>
   ret_of (gen_run log_ops ms c s) = ret_of (run ms c (fst s)) \<and>
   chan_of (gen_run log_ops ms c s) = chan_of (run ms c (fst s)) \<and>
   fst (store_of (gen_run log_ops ms c s)) = store_of (run ms c (fst s))"
proof (induction ms arbitrary: c s)
  case Nil
  show ?case by (simp add: run_Nil)
next
  case (Cons m ms)
  from Cons.IH [OF log_call_chan_inv [OF Cons.prems, of m]] log_call_fst [OF Cons.prems, of m]
  show ?case by (simp add: gen_run_Cons run_Cons)
qed

section \<open>The log is the takes that waited\<close>

lemma log_call_snd:
  assumes "chan_inv c (fst s)"
  shows "snd (store_of (gen_call log_ops m c s)) @ unserved (chan_of (gen_call log_ops m c s)) =
           snd s @ unserved c @
           (if m = Take \<and> \<not> isClosed c \<and> messageQueue c = [] then [length (fst s)] else [])"
proof (cases m)
  case (Put v)
  show ?thesis
  proof (cases c rule: producer_cases)
    case (handoff r rs)
    with assms have "pending (fst s) r" by (auto dest: waiters_pending)
    with handoff Put show ?thesis by (simp add: gen_call_sel gen_put_simps unserved_def)
  qed (simp_all add: Put gen_call_sel gen_put_simps unserved_def)
next
  case Take
  then show ?thesis
    by (cases c rule: consumer_cases) (auto simp: gen_call_sel gen_take_simps unserved_def)
next
  case Close
  from assms have "\<not> isClosed c \<Longrightarrow> distinct (resolveQueue c) \<and> list_all (pending (fst s)) (resolveQueue c)"
    by (simp add: inv_defs)
  with Close show ?thesis
    by (cases "isClosed c"; cases s)
      (simp_all add: gen_call_sel gen_close_simps foldl_log_resolve unserved_def)
qed

lemma waiting_takes_step:
  "waiting_takes p (m # ms) (control c) =
     (if m = Take \<and> \<not> isClosed c \<and> messageQueue c = [] then [p] else []) @
     waiting_takes (if m = Take then Suc p else p) ms (snd (ctl_call m (control c)))"
  by (cases m) (simp_all add: control_def)

lemma length_log_call:
  "length (fst (store_of (gen_call log_ops m c s))) =
     (if m = Take then Suc (length (fst s)) else length (fst s))"
proof (cases m)
  case (Put v)
  then show ?thesis
    by (cases c rule: producer_cases) (simp_all add: gen_call_sel gen_put_simps)
next
  case Take
  then show ?thesis
    by (cases c rule: consumer_cases) (simp_all add: gen_call_sel gen_take_simps)
next
  case Close
  have "length (fst (foldl (\<lambda>s r. log_resolve r v s) s rs)) = length (fst s)" for v rs
    by (induction rs arbitrary: s) simp_all
  with Close show ?thesis
    by (cases "isClosed c") (simp_all add: gen_call_sel gen_close_simps)
qed

lemma log_run_snd:
  assumes "chan_inv c (fst s)"
  shows "snd (store_of (gen_run log_ops ms c s)) @ unserved (chan_of (gen_run log_ops ms c s)) =
           snd s @ unserved c @ waiting_takes (length (fst s)) ms (control c)"
  using assms
proof (induction ms arbitrary: c s)
  case Nil
  show ?case by simp
next
  case (Cons m ms)
  from Cons.IH [OF log_call_chan_inv [OF Cons.prems, of m]] log_call_snd [OF Cons.prems, of m]
  show ?case
    by (simp add: gen_run_Cons waiting_takes_step control_call length_log_call
        del: waiting_takes.simps)
qed

lemma waiting_takes_ge: "q \<in> set (waiting_takes p ms s) \<Longrightarrow> p \<le> q"
  by (induction p ms s rule: waiting_takes.induct) (auto split: if_splits)

lemma sorted_waiting_takes: "sorted_wrt (<) (waiting_takes p ms s)"
  by (induction p ms s rule: waiting_takes.induct)
    (auto simp: sorted_wrt_append dest: waiting_takes_ge)

text \<open>
  Claim C28 (safety). Waiting consumers are settled in the order of their calls of
  \<open>take\<close>. A channel that logs the promises its resolve functions fulfil returns and
  stores what the channel of \<open>Channel\<close> does; its log, followed by the resolvers still
  queued on an open channel, is the list of the takes that had to wait, in the order
  they were made; so the log is in increasing order of promises, also within one
  \<open>close\<close>.
\<close>

theorem settled_in_take_order:
  "ret_of (gen_run log_ops ms createChannel (h0, [])) = ret_of (run ms createChannel h0) \<and>
   fst (store_of (gen_run log_ops ms createChannel (h0, []))) = store_of (run ms createChannel h0) \<and>
   snd (store_of (gen_run log_ops ms createChannel (h0, []))) @
     unserved (chan_of (run ms createChannel h0)) =
     waiting_takes (length h0) ms (False, [], 0) \<and>
   sorted_wrt (<) (snd (store_of (gen_run log_ops ms createChannel (h0, []))))"
proof -
  have inv: "chan_inv createChannel (fst (h0, []))"
    by (simp add: chan_inv_create)
  from log_run_fst [OF inv, of ms]
  have c: "chan_of (gen_run log_ops ms createChannel (h0, [])) = chan_of (run ms createChannel h0)"
    by simp
  have ctl: "control createChannel = (False, [], 0)" and un: "unserved createChannel = []"
    by (simp_all add: control_def unserved_def createChannel_def)
  from log_run_snd [OF inv, of ms]
  have eq: "snd (store_of (gen_run log_ops ms createChannel (h0, []))) @
      unserved (chan_of (run ms createChannel h0)) = waiting_takes (length h0) ms (False, [], 0)"
    unfolding c ctl un by simp
  from sorted_waiting_takes [of "length h0" ms "(False, [], 0)"]
  have "sorted_wrt (<) (snd (store_of (gen_run log_ops ms createChannel (h0, []))))"
    unfolding eq [symmetric] by (simp add: sorted_wrt_append)
  with eq log_run_fst [OF inv, of ms] show ?thesis by simp
qed

end
