(* ===== verification/Channel_Docs.thy ===== *)
theory Channel_Docs
  imports Channel_System
begin

text \<open>
  What the documentation comments of \<^verbatim>\<open>src/index.js\<close> promise, as predicates on a call
  (the state before it and its result), and the proof that the code keeps them.
\<close>

section \<open>The comments\<close>

text \<open>
  \<open>put\<close>: "True if the value was put onto the channel. If the channel is closed no
  value is put onto the channel, and false is returned." A value is on the channel
  when it is at the end of the buffer or a waiting consumer has received it.
\<close>

definition on_channel ::
  "'a jsval \<Rightarrow> 'a chan \<Rightarrow> 'a jsval store \<Rightarrow> 'a chan \<Rightarrow> 'a jsval store \<Rightarrow> bool" where
  "on_channel v c h c' h' \<longleftrightarrow>
     messageQueue c' = messageQueue c @ [v] \<or>
     (\<exists>w \<in> set (resolveQueue c). await w h = None \<and> await w h' = Some v)"

definition put_doc ::
  "'a jsval \<Rightarrow> 'a chan \<Rightarrow> 'a jsval store \<Rightarrow> (js_error + bool) \<times> 'a chan \<times> 'a jsval store \<Rightarrow> bool" where
  "put_doc v c h res \<longleftrightarrow>
     (ret_of res = Inr True \<longrightarrow> on_channel v c h (chan_of res) (store_of res)) \<and>
     (isClosed c \<longrightarrow> ret_of res = Inr False \<and> \<not> on_channel v c h (chan_of res) (store_of res))"

text \<open>
  \<open>take\<close>: "A promise is returned that will resolve to a value from the channel when
  one is available. If the channel is closed, and the channel has finished draining
  the returned promise resolved the CLOSED. If the channel becomes closed while the
  promise is still unfulfilled, the promise is resolved with CLOSED."
\<close>

definition take_doc ::
  "'a chan \<Rightarrow> 'a jsval store \<Rightarrow> promise \<times> 'a chan \<times> 'a jsval store \<Rightarrow> bool" where
  "take_doc c h res \<longleftrightarrow>
     (messageQueue c \<noteq> [] \<longrightarrow> await (ret_of res) (store_of res) = Some (hd (messageQueue c))) \<and>
     (isClosed c \<and> messageQueue c = [] \<longrightarrow> await (ret_of res) (store_of res) = Some CLOSED) \<and>
     (await (ret_of res) (store_of res) = None \<longrightarrow>
        await (ret_of res) (store_of (close (chan_of res) (store_of res))) = Some CLOSED)"

text \<open>
  \<open>close\<close>: "Any outstanding take()s that are awaiting another value from the channel
  will have their promises resolved with CLOSED. True if the channel was closed,
  false if the channel was already closed."
\<close>

definition close_doc ::
  "'a chan \<Rightarrow> 'a jsval store \<Rightarrow> bool \<times> 'a chan \<times> 'a jsval store \<Rightarrow> bool" where
  "close_doc c h res \<longleftrightarrow>
     isClosed (chan_of res) \<and>
     (\<forall>w \<in> set (resolveQueue c). await w h = None \<longrightarrow> await w (store_of res) = Some CLOSED) \<and>
     ret_of res = (\<not> isClosed c)"

text \<open>
  \<open>createChannel\<close>: "Creates a simple channel based-upon promises. The size of the
  channel's buffer is unbounded [...]. The new channel." A new channel is open, holds
  no value and has no consumer waiting; and however many values \<open>vs\<close> producers put on
  it, every one is accepted and the buffer holds them all.
\<close>

definition createChannel_doc :: "'a chan \<Rightarrow> 'a jsval store \<Rightarrow> 'a jsval list \<Rightarrow> bool" where
  "createChannel_doc c h vs \<longleftrightarrow>
     \<not> isClosed c \<and> messageQueue c = [] \<and> resolveQueue c = [] \<and>
     ret_of (run (map Put vs) c h) = map (\<lambda>v. Inr (RBool True)) vs \<and>
     messageQueue (chan_of (run (map Put vs) c h)) = vs"

section \<open>The code keeps them\<close>

lemma run_puts:
  "\<not> isClosed c \<Longrightarrow> resolveQueue c = [] \<Longrightarrow>
   run (map Put vs) c h =
     (map (\<lambda>v. Inr (RBool True)) vs, c\<lparr>messageQueue := messageQueue c @ vs\<rparr>, h)"
  by (induction vs arbitrary: c) (simp_all add: run_simps put_buffer)

lemma createChannel_meets_doc: "createChannel_doc createChannel h vs"
  by (simp add: createChannel_doc_def run_puts createChannel_def)

lemma put_meets_doc: "chan_inv c h \<Longrightarrow> put_doc v c h (put v c h)"
proof (cases c rule: producer_cases)
  case closed
  then show ?thesis by (auto simp: put_doc_def on_channel_def put_simps)
next
  case (handoff r rs)
  assume "chan_inv c h"
  with handoff have "pending h r" by (auto dest: waiters_pending)
  with handoff show ?thesis
    by (auto simp: put_doc_def on_channel_def put_simps await_resolve_fn await_pending)
next
  case buffer
  then show ?thesis by (simp add: put_doc_def on_channel_def put_simps)
qed

lemma take_meets_doc: "take_doc c h (take_chan c h)"
  by (cases c rule: consumer_cases)
    (auto simp: take_doc_def take_simps await_snoc close_open await_settle_all pending_def
      nth_append)

lemma close_meets_doc: "chan_inv c h \<Longrightarrow> close_doc c h (close c h)"
proof (cases "isClosed c")
  case True
  assume "chan_inv c h"
  with True show ?thesis
    by (auto simp: close_doc_def close_simps inv_defs list_all_iff await_fulfilled)
next
  case False
  assume "chan_inv c h"
  with False show ?thesis
    by (auto simp: close_doc_def close_simps await_settle_all dest: waiters_pending)
qed

text \<open>
  Claim C31 (functional). In every state that satisfies the invariant of the channel,
  \<open>put\<close>, \<open>take\<close> and \<open>close\<close> do what their documentation comments say, and so does
  \<open>createChannel\<close> in every store.
\<close>

theorem documented_behaviour:
  assumes "chan_inv c h"
  shows "put_doc v c h (put v c h) \<and> take_doc c h (take_chan c h) \<and> close_doc c h (close c h) \<and>
    createChannel_doc createChannel h0 vs"
  using assms by (simp add: put_meets_doc take_meets_doc close_meets_doc createChannel_meets_doc)

theorem documented_behaviour_witness:
  "chan_inv \<lparr>isClosed = False, messageQueue = [], resolveQueue = [0]\<rparr> [Pending :: nat jsval settle] \<and>
   put_doc (Payload (1::nat)) \<lparr>isClosed = False, messageQueue = [], resolveQueue = [0]\<rparr> [Pending]
     (put (Payload 1) \<lparr>isClosed = False, messageQueue = [], resolveQueue = [0]\<rparr> [Pending]) \<and>
   close_doc \<lparr>isClosed = False, messageQueue = [], resolveQueue = [0]\<rparr> [Pending :: nat jsval settle]
     (close \<lparr>isClosed = False, messageQueue = [], resolveQueue = [0]\<rparr> [Pending]) \<and>
   createChannel_doc createChannel [] [Payload (1::nat), CLOSED]"
  using documented_behaviour [of "\<lparr>isClosed = False, messageQueue = [], resolveQueue = [0]\<rparr>"
      "[Pending :: nat jsval settle]" "Payload (1::nat)" "[]" "[Payload (1::nat), CLOSED]"]
  by (simp add: inv_defs pending_def)

end
