(* ===== verification/Channel_Tests.thy ===== *)
theory Channel_Tests
  imports Channel_System
begin

text \<open>
  The test suite of the repository (\<open>src/__tests__/tests.js\<close>), as definitions that
  evaluate: the harness (\<open>expect(...).toBe\<close>, \<open>await\<close>, \<open>Promise.all\<close>,
  \<open>instanceof Promise\<close>, \<open>beforeEach\<close>), one definition per \<open>it\<close> block, and the
  theorem that every test passes on the model of the channel. An \<open>await\<close> on a promise
  that is still pending would let the test time out; it is the result \<open>TimedOut\<close>.
\<close>

section \<open>The harness\<close>

datatype test_result = Passed | Failed | TimedOut

definition expect_toBe :: "'x \<Rightarrow> 'x \<Rightarrow> test_result \<Rightarrow> test_result" where
  "expect_toBe actual wanted rest = (if actual = wanted then rest else Failed)"

definition awaiting :: "'v option \<Rightarrow> ('v \<Rightarrow> test_result) \<Rightarrow> test_result" where
  "awaiting settled rest = (case settled of None \<Rightarrow> TimedOut | Some v \<Rightarrow> rest v)"

definition Promise_all :: "promise list \<Rightarrow> 'v store \<Rightarrow> 'v list option" where
  "Promise_all ps h = those (map (\<lambda>p. await p h) ps)"

definition instanceof_Promise :: "ret \<Rightarrow> 'v store \<Rightarrow> bool" where
  "instanceof_Promise r h = (case r of RPromise p \<Rightarrow> p < length h | RBool b \<Rightarrow> False)"

definition promise_of :: "js_error + ret \<Rightarrow> promise" where
  "promise_of r = (case r of Inr (RPromise p) \<Rightarrow> p | _ \<Rightarrow> 0)"

text \<open>The messages of the tests are string literals.\<close>

type_synonym msg = string

definition beforeEach :: "msg chan \<times> msg jsval store" where
  "beforeEach = (createChannel, [])"

definition script :: "msg operation list \<Rightarrow> (js_error + ret) list \<times> msg chan \<times> msg jsval store" where
  "script ms = run ms (fst beforeEach) (snd beforeEach)"

section \<open>The tests\<close>

definition test_put_empty :: test_result where
  "test_put_empty =
     expect_toBe (ret_of (script [Put (Payload ''msg'')]) ! 0) (Inr (RBool True)) Passed"

definition test_put_nonempty :: test_result where
  "test_put_nonempty =
     expect_toBe (ret_of (script [Put (Payload ''msg1''), Put (Payload ''msg2'')]) ! 1)
       (Inr (RBool True)) Passed"

definition test_put_waiting :: test_result where
  "test_put_waiting =
     expect_toBe (ret_of (script [Take, Put (Payload ''msg'')]) ! 1) (Inr (RBool True)) Passed"

definition test_put_closed :: test_result where
  "test_put_closed =
     expect_toBe (ret_of (script [Close, Put (Payload ''msg'')]) ! 1) (Inr (RBool False)) Passed"

definition test_take_promise :: test_result where
  "test_take_promise =
     expect_toBe
       (case ret_of (script [Take]) ! 0 of
          Inl e \<Rightarrow> False | Inr r \<Rightarrow> instanceof_Promise r (store_of (script [Take])))
       True Passed"

definition test_take_buffered :: test_result where
  "test_take_buffered =
     (let s = script [Put (Payload ''msg''), Take]
      in awaiting (await (promise_of (ret_of s ! 1)) (store_of s)) (\<lambda>v. Passed))"

definition test_take_buffered_closed :: test_result where
  "test_take_buffered_closed =
     (let s = script [Put (Payload ''msg''), Close, Take]
      in awaiting (await (promise_of (ret_of s ! 2)) (store_of s)) (\<lambda>v. Passed))"

definition test_take_closed :: test_result where
  "test_take_closed =
     (let s = script [Close, Take]
      in awaiting (await (promise_of (ret_of s ! 1)) (store_of s))
           (\<lambda>v. expect_toBe v CLOSED Passed))"

definition test_close_open :: test_result where
  "test_close_open = expect_toBe (ret_of (script [Close]) ! 0) (Inr (RBool True)) Passed"

definition test_close_closed :: test_result where
  "test_close_closed =
     expect_toBe (ret_of (script [Close, Close]) ! 1) (Inr (RBool False)) Passed"

definition test_close_resolves :: test_result where
  "test_close_resolves =
     (let s = script [Take, Take, Take, Close];
          queuedTakes = map promise_of (take 3 (ret_of s))
      in expect_toBe (ret_of s ! 3) (Inr (RBool True))
           (awaiting (Promise_all queuedTakes (store_of s)) (\<lambda>vs. Passed)))"

definition test_suite :: "test_result list" where
  "test_suite =
     [test_put_empty, test_put_nonempty, test_put_waiting, test_put_closed,
      test_take_promise, test_take_buffered, test_take_buffered_closed, test_take_closed,
      test_close_open, test_close_closed, test_close_resolves]"

section \<open>The suite passes\<close>

lemmas test_defs = test_put_empty_def test_put_nonempty_def test_put_waiting_def
  test_put_closed_def test_take_promise_def test_take_buffered_def
  test_take_buffered_closed_def test_take_closed_def test_close_open_def
  test_close_closed_def test_close_resolves_def

lemmas harness_defs = expect_toBe_def awaiting_def Promise_all_def instanceof_Promise_def
  promise_of_def beforeEach_def script_def

lemma tests_pass:
  "test_put_empty = Passed" "test_put_nonempty = Passed" "test_put_waiting = Passed"
  "test_put_closed = Passed" "test_take_promise = Passed" "test_take_buffered = Passed"
  "test_take_buffered_closed = Passed" "test_take_closed = Passed"
  "test_close_open = Passed" "test_close_closed = Passed" "test_close_resolves = Passed"
  by (simp_all add: test_defs harness_defs eval_simps)


end
