(* ===== verification/Spec2Isabelle.thy ===== *)
theory Spec2Isabelle
  imports Channel_Spec Channel_Lifecycle Channel_Dynamic Channel_Pipeline Channel_Thenable
    Channel_Foreign Channel_Reentrant Channel_Order Channel_Docs Channel_Tests
begin

text \<open>
  \<^bold>\<open>The program.\<close> \<^verbatim>\<open>src/index.js\<close> is a promise-based channel for one JavaScript
  thread. \<^verbatim>\<open>createChannel()\<close> makes a closure over three variables, \<^verbatim>\<open>isClosed\<close>,
  \<^verbatim>\<open>messageQueue\<close> and \<^verbatim>\<open>resolveQueue\<close>, and returns a frozen object with the methods
  \<^verbatim>\<open>put\<close>, \<^verbatim>\<open>take\<close> and \<^verbatim>\<open>close\<close>. A producer calls \<^verbatim>\<open>put(value)\<close>: the value goes to
  the consumer that has waited longest, or into the buffer. A consumer calls \<^verbatim>\<open>take()\<close>
  and gets a promise: of the oldest buffered value, of the sentinel \<^verbatim>\<open>CLOSED\<close> when the
  channel is closed and drained, or a pending one whose resolve function joins
  \<^verbatim>\<open>resolveQueue\<close>. \<^verbatim>\<open>close()\<close> sets the flag and resolves every waiting consumer with
  \<^verbatim>\<open>CLOSED\<close>. The methods use \<^verbatim>\<open>Array.prototype.push\<close>, \<^verbatim>\<open>shift\<close> and \<^verbatim>\<open>map\<close>, the
  truth value of \<^verbatim>\<open>length\<close>, \<^verbatim>\<open>Promise.resolve\<close> and \<^verbatim>\<open>new Promise\<close>.
  \<^verbatim>\<open>src/__tests__/tests.js\<close> is the test suite: eleven tests on a fresh channel each.

  \<^bold>\<open>The theories.\<close>

  \<^item> \<open>Channel_Prelude\<close>: the collections of theorems (\<open>js_defs\<close>, \<open>chan_defs\<close>, \<open>inv_defs\<close>,
    \<open>hist_simps\<close>), the types \<open>promise\<close> and \<open>resolver\<close>, the projections \<open>ret_of\<close>,
    \<open>chan_of\<close>, \<open>store_of\<close> of what an operation returns, and the facts on lists
    that the components share.
  \<^item> \<open>JS_Array\<close>: \<open>push\<close>, \<open>shift\<close>, \<open>truthy\<close>, \<open>array_map\<close>, the built-ins of arrays
    as the channel calls them. \<open>shift\<close> of an empty array is \<open>None\<close> (JavaScript's
    \<^verbatim>\<open>undefined\<close>). Lemmas: the first-in first-out discipline of \<open>push\<close> and \<open>shift\<close>,
    and \<open>array_map\<close> with an effect as a left fold.
  \<^item> \<open>JS_Promise\<close>: the promises. The store is the list of the states (\<open>Pending\<close>,
    \<open>Fulfilled v\<close>) of all promises ever made, a promise is its index, and a resolve
    function is the index of the promise it settles. \<open>Promise_resolve\<close>, \<open>new_Promise\<close>
    (which runs its executor at once, as JavaScript does), \<open>resolve_fn\<close>, \<open>await\<close>.
    Lemmas: a resolve function acts once; the store only grows in the order
    \<open>store_le\<close> (a settled promise keeps its value, a promise never disappears).
  \<^item> \<open>Channel\<close>: the channel of \<^verbatim>\<open>src/index.js\<close>. The record \<open>chan\<close> holds the three
    variables of the closure; \<open>createChannel\<close>, \<open>put\<close>, \<open>take_chan\<close> (\<^verbatim>\<open>take\<close>) and \<open>close\<close>
    follow the code statement by statement, each taking the channel and the store and
    returning its result with both updated. Values are \<open>jsval\<close>: \<open>Undefined\<close>, the
    sentinel \<open>CLOSED\<close>, or a payload. \<open>put\<close> returns \<open>js_error + bool\<close>, because
    \<^verbatim>\<open>resolveQueue.shift()(value)\<close> would throw a \<^verbatim>\<open>TypeError\<close> on an empty queue; the
    lemmas show that branch is never taken. Lemmas: one equation per branch of each
    operation, what each returns, the frame of each (which promises it can touch),
    the invariant \<open>chan_inv\<close> (buffer and waiters never both non-empty; the waiters
    are distinct, pending while the channel is open and fulfilled with \<open>CLOSED\<close> once
    it is closed) and its preservation, and the behaviour of each operation as its
    caller sees it.
  \<^item> \<open>Channel_System\<close>: the object \<^verbatim>\<open>{put, take, close}\<close> as the datatype \<open>operation\<close>
    with \<open>call\<close>; \<open>run\<close>, a sequence of calls, which is how one thread interleaves
    producers and consumers; \<open>reaches\<close>, the states a client can bring a channel to;
    the history of a sequence of calls (\<open>accepted_of\<close>, \<open>n_takes\<close>, \<open>open_takes_of\<close>,
    \<open>closes\<close>) and the relation \<open>tracks\<close> between a history and a state. Lemmas:
    \<open>run_tracks\<close>, the state and every promise as a function of the calls made, and
    what follows from it.
  \<^item> \<open>Channel_Spec\<close>: the channel of sections 3 and 4 of the specification
    (\<open>spec_put\<close>, \<open>spec_take\<close>, \<open>spec_close\<close>, whose close empties the waiters), the
    abstraction function from the code's state and the refinement lemmas.
  \<^item> \<open>Channel_Lifecycle\<close>: the phases of a channel (open, draining, inert) with the
    labelled transition relation \<open>phase_step\<close> between them, the linear order of the
    phases, and the lemmas that every call is a step, that a channel never reopens and
    that a closed channel answers from its buffer alone.
  \<^item> \<open>Channel_World\<close>: programs over several channels, each made by its own call of
    \<open>createChannel\<close>, that share the store of promises: \<open>world_call\<close>, \<open>world_run\<close>, the
    calls (\<open>calls_on\<close>) and promises (\<open>taken_on\<close>) of one channel in a program, the
    invariant \<open>world_inv\<close> and the lemmas that channels do not interfere.
  \<^item> \<open>Channel_Dynamic\<close>: programs whose steps also call \<open>createChannel\<close> (\<open>dyn_step\<close>,
    \<open>dyn_run\<close>), and the lemma that such a program does what the program of
    \<open>Channel_World\<close> does that has the same calls and all the channels from the start.
  \<^item> \<open>Channel_Generic\<close>: the interface of promises as the record \<open>promise_ops\<close>, and
    \<open>gen_put\<close>, \<open>gen_take\<close>, \<open>gen_close\<close>, the functions of \<^verbatim>\<open>src/index.js\<close> over any
    implementation of it. Lemmas: with the promises of \<open>JS_Promise\<close> they are \<open>put\<close>,
    \<open>take_chan\<close> and \<open>close\<close>; the results and the buffer are those of the control
    machine \<open>ctl_run\<close>, whatever the promises do.
  \<^item> \<open>JS_Promise_Full\<close>: promises that are given promises. A promise is pending,
    fulfilled, rejected, or follows another promise (\<open>pstate\<close>); \<open>resolve_full\<close> adopts a
    promise and rejects a promise resolved with itself, \<open>Promise_resolve_full\<close> returns
    a promise unchanged; \<open>root\<close> follows adoptions and \<open>outcome_of\<close> is what \<open>await\<close>
    yields. Lemmas: following terminates unless adoptions form a cycle, and on a cycle
    it does not; a settled promise and a cycle stay as they are.
  \<^item> \<open>Channel_Thenable\<close>: the channel over \<open>JS_Promise_Full\<close>, with payloads that are
    plain values or promises. Lemmas: without promise payloads it is the channel of
    \<open>Channel\<close>; a promise that is put reaches the consumer as that promise; putting a
    consumer's own promise rejects it; crossed promises never settle; references
    stay inside the store.
  \<^item> \<open>JS_Promise_Jobs\<close>: promises that are given objects with a \<^verbatim>\<open>then\<close> method of
    their own. The parameter \<open>shp\<close> says what reading \<^verbatim>\<open>then\<close> of a value gives
    (\<open>shape\<close>: nothing callable, an exception, or a method, which is a list of calls
    of its two arguments and throws, \<open>then_step\<close>). The \<open>heap\<close> holds the promises
    (pending, locked, fulfilled, rejected) and the queue of jobs; \<open>resolve_job\<close> locks
    a promise and queues the job that calls the method, \<open>run_then\<close> is the call with
    the flag that the two resolving functions share, \<open>run_job\<close> runs the oldest job
    and \<open>drain\<close> runs jobs until none is left. \<open>fate\<close> is what a value comes to along
    its chain of methods. Lemmas: the first call of a method decides; a settled
    promise is never written again; no job changes what a promise will come to
    (\<open>destiny\<close>); the jobs end when the values are ranked, and never when a chain of
    methods is a cycle; the heap mirrors the store of \<open>JS_Promise\<close>.
  \<^item> \<open>Channel_Foreign\<close>: the channel over \<open>JS_Promise_Jobs\<close>. \<open>play\<close> runs calls of the
    channel and jobs in any order. Lemmas: the calls return and leave the channel as
    in \<open>run\<close> on the calls alone, and every promise comes to the fate of the value
    that \<open>run\<close> fulfils it with; a method or getter that throws rejects the promise of
    the consumer while \<open>put\<close> returns \<open>true\<close>; a value whose chain of methods has no
    end keeps the queue of jobs from ever becoming empty.
  \<^item> \<open>Channel_Reentrant\<close>: calls of the channel from inside a call of the channel.
    Values are objects whose property \<^verbatim>\<open>then\<close> has a getter, which \<^verbatim>\<open>resolve\<close> runs
    before it settles the promise; the getter is a program of calls on the channel.
    \<open>begin_put\<close> and \<open>begin_take\<close> are \<^verbatim>\<open>put\<close> and \<^verbatim>\<open>take\<close> up to that point, and \<open>rrun\<close>
    runs a program with the getters, to any depth. Lemmas: a paused call has done all
    of the atomic call but the settlement of one promise; a run with getters leaves
    channel and store as the atomic calls of its log do; without getters it is \<open>run\<close>.
  \<^item> \<open>Channel_Order\<close>: a store that logs the promises that resolve functions fulfil
    (\<open>log_resolve\<close>), as a third implementation of the interface. Lemmas: logging
    changes no result; the log is the list of the takes that had to wait, in order.
  \<^item> \<open>Channel_Tasks\<close>: producers and consumers as tasks on one thread. A task is a
    list of calls in which every \<open>take\<close> is awaited; \<open>step\<close> runs one call of a task
    or resumes it when its promise is settled; a schedule (\<open>exec\<close>) is any list of
    task numbers. Lemmas: every schedule keeps \<open>sys_inv\<close> (the channel is in the
    state of the sequential run of the log, every promise is held by one task), no
    value is lost or received twice, and no task waits on a closed channel.
  \<^item> \<open>Channel_Scheduler\<close>: the scheduler \<open>schedule\<close> that runs the first task that can
    run until none can, with its termination, the bound on its steps and the lemma
    that a producer that closes the channel ends every task.
  \<^item> \<open>Channel_Engine\<close>: the job queue under the tasks, as an engine runs them. The
    record \<open>engine\<close> holds the tasks, the queue of jobs, the task that runs and the
    log of the continuations that have run; \<open>tick\<close> is one step: a call of the running
    task, which queues the tasks whose promises the call settles (\<open>put_settles\<close>,
    \<open>close_settles\<close>: the resolvers that \<^verbatim>\<open>put\<close> and \<^verbatim>\<open>close\<close> call), the end of the turn
    of a task that awaits, or the start of the oldest job. Lemmas: every tick keeps
    \<open>engine_inv\<close>; the engine runs a schedule of \<open>Channel_Tasks\<close>; no wake-up is lost;
    continuations run in the order of the takes.
  \<^item> \<open>Channel_Event_Loop\<close>: the loop \<open>event_loop\<close> that runs the engine until the queue
    is empty, as a \<open>while_option\<close>, with the measure \<open>budget\<close>. Lemmas: every tick
    takes from the measure; the loop ends, within a bound, in a state in which no task
    can run; with a producer that closes the channel it ends every task; every job in
    the queue has its turn.
  \<^item> \<open>Channel_Pipeline\<close>: the channel in use, end to end: a \<open>producer\<close> that puts a list
    of values and closes, and a \<open>consumer\<close> that awaits a number of takes. Lemmas: in
    every complete run, under the scheduler and under the event loop, the consumer
    receives the values in the order in which they were put, then \<open>CLOSED\<close>.
  \<^item> \<open>Channel_Docs\<close>: the documentation comments of \<open>createChannel\<close>, \<open>put\<close>, \<open>take\<close>
    and \<open>close\<close> as predicates (\<open>createChannel_doc\<close>, \<open>put_doc\<close>, \<open>take_doc\<close>,
    \<open>close_doc\<close>) and the proof that the code keeps them.
  \<^item> \<open>Channel_Tests\<close>: the tests of \<^verbatim>\<open>src/__tests__/tests.js\<close> with their harness, and
    the theorem that they pass.
  \<^item> This theory: the properties of a channel in use, stated over sequences of calls.

  \<^bold>\<open>Bounds.\<close> No operation of the channel loops but \<^verbatim>\<open>map\<close>, which is structural
  recursion on the array, so the operations are total and need no fuel. Queues, the
  store and the sequences of calls are unbounded lists; payloads are of any type. The
  theorems hold for every sequence of calls and every initial store, so for every
  interleaving of any number of producers and consumers on one thread;
  \<open>Channel_Tasks\<close> makes the interleavings explicit, for any number of tasks and any
  schedule. The scheduler of \<open>Channel_Scheduler\<close> is a recursive function whose
  termination is proved with the measure \<open>work\<close>, the number of calls and awaits the
  tasks have left; it needs no fuel. The event loop of \<open>Channel_Event_Loop\<close> is a
  \<open>while_option\<close>, whose value is \<open>None\<close> when the loop does not end; it is proved to
  end for all programs, after at most \<open>2 * c + 2 * n\<close> ticks for \<open>n\<close> tasks with \<open>c\<close>
  calls and awaits, by the measure \<open>budget\<close>. \<open>rrun\<close> of \<open>Channel_Reentrant\<close>
  is not structurally recursive, because a take runs the getter of a value it finds
  in the buffer; it is a function with a termination proof by the measure
  \<open>potential\<close>, the size of the program and of the buffered values with the
  programs inside them, and the number of calls it makes is at most that size. Three
  functions may not return. \<open>root\<close> of \<open>JS_Promise_Full\<close>, which follows the adoptions
  between promises, is a partial function with an optional result, \<open>None\<close> being a
  promise that never settles; it returns on every store without a cycle of
  adoptions, and on a cycle it does not. \<open>fate\<close> of \<open>JS_Promise_Jobs\<close>, which follows
  the values that the methods of thenables resolve with, is a partial function of the
  same kind, and \<open>drain\<close>, the loop that runs the jobs of thenables, is a
  \<open>while_option\<close>: both return when the values are ranked (\<open>ranked\<close>, a method resolves
  with a value of a lower rank only), the loop by the measure \<open>backlog\<close>, and both are
  \<open>None\<close> when a chain of methods comes back to its start.

  \<^bold>\<open>Not modelled.\<close> A \<open>then\<close> method of a payload is modelled by the calls of its two
  arguments that it makes while it runs, and by a throw (\<open>JS_Promise_Jobs\<close>). A method
  that keeps the two functions and calls them after it has returned is not modelled:
  its promise is one that waits. A method or a getter that calls the channel is a
  caller like any other: the calls of a getter, which run inside \<^verbatim>\<open>put\<close> and \<^verbatim>\<open>take\<close>,
  are modelled in \<open>Channel_Reentrant\<close>, and the calls of a method are calls between
  jobs in \<open>play\<close>. The three models of payloads are separate: promises of the store
  (\<open>Channel_Thenable\<close>), objects with a method (\<open>Channel_Foreign\<close>) and objects with a
  getter that calls the channel (\<open>Channel_Reentrant\<close>) are not mixed in one program.
  The job queue is modelled for
  tasks that await the promises of \<open>take\<close> with plain payloads (\<open>Channel_Engine\<close>): one
  job for each continuation, queued when its promise is settled, and for the methods
  of thenables (\<open>JS_Promise_Jobs\<close>). The jobs that carry
  a settlement along an adoption between promises (\<open>Channel_Thenable\<close>) are not:
  \<open>outcome_of\<close> reads what a promise settles to, not the turn in which it does.
  Nor are the turns in which the callbacks of the test runner run (\<^verbatim>\<open>then(done)\<close>,
  \<^verbatim>\<open>Promise.all\<close>): \<open>Channel_Tests\<close> models a test by the calls it makes and the values
  its awaits yield.
  \<^verbatim>\<open>Object.freeze\<close> and the module system, beyond the fact that a client has the three
  methods and the exported \<^verbatim>\<open>CLOSED\<close> only.
\<close>

section \<open>What a consumer receives\<close>

text \<open>
  Claim C1 (functional). Correctness of the channel, from the consumer's side. After
  any sequence of calls \<open>ms\<close> on a new channel, the promise returned by the \<open>k\<close>-th call
  of \<open>take\<close> (counting from 0) is fulfilled with the \<open>k\<close>-th value that \<open>put\<close> accepted, if
  \<open>put\<close> accepted that many values before \<open>close\<close>; otherwise it is fulfilled with
  \<open>CLOSED\<close> if \<open>close\<close> was called; otherwise it is still pending. This holds whatever
  the order of the calls was, and whatever promises the store held before the channel
  was created.
\<close>

theorem take_result:
  assumes "k < n_takes ms"
  shows "await (length h0 + k) (store_of (run ms createChannel h0)) =
           (if k < length (accepted_of ms) then Some (accepted_of ms ! k)
            else if Close \<in> set ms then Some CLOSED else None)"
  using run_await [OF assms, of h0] by (simp add: take_outcome_def closes_iff)

theorem take_result_witness:
  "(1::nat) < n_takes [Take, Put (Payload (7::nat)), Take, Close] \<and>
   await 1 (store_of (run [Take, Put (Payload (7::nat)), Take, Close] createChannel []))
     = Some CLOSED"
  using take_result [of 1 "[Take, Put (Payload (7::nat)), Take, Close]" "[]"] by simp

section \<open>The invariant of reachable states\<close>

text \<open>
  Claim C3 (invariant). In every state that calls of \<open>put\<close>, \<open>take\<close> and \<open>close\<close> can
  bring a new channel to, the buffer and the queue of waiters are never both
  non-empty, no resolver is queued twice, and the promise of every queued resolver is
  pending while the channel is open and fulfilled with \<open>CLOSED\<close> when it is closed.
\<close>

theorem reachable_invariant:
  assumes "reaches h0 c h"
  shows "(messageQueue c = [] \<or> resolveQueue c = []) \<and> distinct (resolveQueue c) \<and>
         (\<forall>r \<in> set (resolveQueue c). await r h = (if isClosed c then Some CLOSED else None))"
proof -
  from assms have "chan_inv c h"
    by (rule reaches_invariant [where P = chan_inv]) (simp_all add: chan_inv_create chan_inv_call)
  then show ?thesis
    by (auto simp: inv_defs list_all_iff await_pending await_fulfilled)
qed

theorem reachable_invariant_witness:
  "reaches [] (chan_of (run [Take, Take] createChannel ([] :: nat jsval store)))
     (store_of (run [Take, Take] createChannel ([] :: nat jsval store))) \<and>
   resolveQueue (chan_of (run [Take, Take] createChannel ([] :: nat jsval store))) = [0, 1] \<and>
   await 1 (store_of (run [Take, Take] createChannel ([] :: nat jsval store))) = None"
  using reachable_invariant [OF reaches_run [of "[]" "[Take, Take]"]]
    reaches_run [of "[] :: nat jsval store" "[Take, Take]"]
  by (simp add: eval_simps)

section \<open>Order of delivery\<close>

text \<open>
  P1 of the specification. Values are delivered in the order
  they were produced: after \<open>put(v\<^sub>1), \<dots>, put(v\<^sub>m)\<close> on a new channel, the \<open>k\<close>-th of
  the next \<open>n \<le> m\<close> calls of \<open>take\<close> is fulfilled with \<open>v\<^sub>k\<close>.
\<close>

lemma fifo_order:
  assumes "k < n" and "n \<le> length vs"
  shows "await k (store_of (run (map Put vs @ replicate n Take) createChannel [])) = Some (vs ! k)"
  using run_await [of k "map Put vs @ replicate n Take" "[]"] assms
  by (simp add: take_outcome_def hist_append)

text \<open>
  Waiting consumers are served in the order they called \<open>take\<close>: after \<open>n\<close> calls of
  \<open>take\<close> on a new channel and then \<open>put(v\<^sub>1), \<dots>, put(v\<^sub>m)\<close>, the promise of the \<open>k\<close>-th
  \<open>take\<close> is fulfilled with \<open>v\<^sub>k\<close> if \<open>k < m\<close> and is pending otherwise.
\<close>

lemma waiters_served_in_order:
  assumes "k < n"
  shows "await k (store_of (run (replicate n Take @ map Put vs) createChannel [])) =
           (if k < length vs then Some (vs ! k) else None)"
  using run_await [of k "replicate n Take @ map Put vs" "[]"] assms
  by (simp add: take_outcome_def hist_append)

text \<open>
  I3 and P5 of the specification. Closing discards nothing:
  after \<open>put(v\<^sub>1), \<dots>, put(v\<^sub>m)\<close> and \<open>close\<close> on a new channel, the first \<open>m\<close> calls of
  \<open>take\<close> are fulfilled with \<open>v\<^sub>1, \<dots>, v\<^sub>m\<close> in that order and every later one with
  \<open>CLOSED\<close>.
\<close>

lemma drain_before_terminate:
  assumes "k < n"
  shows "await k (store_of (run (map Put vs @ Close # replicate n Take) createChannel [])) =
           (if k < length vs then Some (vs ! k) else Some CLOSED)"
  using run_await [of k "map Put vs @ Close # replicate n Take" "[]"] assms
  by (simp add: take_outcome_def hist_append)

section \<open>Settlement\<close>



text \<open>
  P6 of the specification. Once \<open>close\<close> has been called, every
  promise that \<open>take\<close> has returned is settled: no consumer waits for ever on a closed
  channel.
\<close>

lemma close_settles_all:
  assumes "Close \<in> set ms" and "k < n_takes ms"
  shows "\<exists>v. await (length h0 + k) (store_of (run ms createChannel h0)) = Some v"
  using run_await [OF assms(2), of h0] assms(1) by (simp add: take_outcome_def closes_iff)

text \<open>
  Claim C22 (safety). No promise is lost: a promise of the channel that is still
  pending belongs to an open channel and its resolver is in \<open>resolveQueue\<close>, so a later
  \<open>put\<close> or \<open>close\<close> will settle it.
\<close>

theorem no_lost_promise:
  assumes "length h0 \<le> p" and "pending (store_of (run ms createChannel h0)) p"
  shows "\<not> isClosed (chan_of (run ms createChannel h0)) \<and>
         p \<in> set (resolveQueue (chan_of (run ms createChannel h0)))"
proof -
  from assms obtain k where k: "p = length h0 + k" "k < n_takes ms"
    by (auto simp: pending_def length_run le_iff_add)
  with assms(2) run_settled [of k ms h0] have "expected (history (length h0) ms) k = Pending"
    by (simp add: pending_def)
  then have "\<not> closes ms" and "length (accepted_of ms) \<le> k"
    by (auto simp: expected_def split: if_splits)
  with k show ?thesis
    by (simp add: run_isClosed run_resolveQueue open_takes_of_open)
qed

theorem no_lost_promise_witness:
  "length ([] :: nat jsval store) \<le> 1 \<and>
   pending (store_of (run [Take, Take, Put (Payload (1::nat))] createChannel [])) 1 \<and>
   1 \<in> set (resolveQueue (chan_of (run [Take, Take, Put (Payload (1::nat))] createChannel [])))"
proof -
  have "pending (store_of (run [Take, Take, Put (Payload (1::nat))] createChannel [])) 1"
    by (simp add: eval_simps pending_def)
  with no_lost_promise [of "[]" 1 "[Take, Take, Put (Payload (1::nat))]"] show ?thesis by simp
qed

text \<open>
  The channel settles its own promises only: a promise that was
  in the store before the channel was made is never changed by a call on the channel.
\<close>

lemma foreign_promises_untouched:
  assumes "p < length h0"
  shows "store_of (run ms createChannel h0) ! p = h0 ! p"
proof (induction ms rule: rev_induct)
  case Nil
  show ?case by (simp add: run_Nil)
next
  case (snoc m ms)
  from assms have "p \<notin> set (resolveQueue (chan_of (run ms createChannel h0)))"
    and "p < length (store_of (run ms createChannel h0))"
    by (simp_all add: run_resolveQueue length_run)
  with snoc show ?case by (simp add: run_snoc call_frame)
qed

section \<open>The closed channel\<close>

text \<open>
  Claim C6 (functional; I2 and P4 of the specification). After \<open>close\<close>, \<open>put(v)\<close>
  returns \<open>false\<close> and has no effect: whatever calls follow, the channel and all
  promises are as if that \<open>put\<close> had not been made, so no \<open>take\<close> ever sees \<open>v\<close>.
\<close>

theorem put_after_close:
  assumes "Close \<in> set ms"
  shows "ret_of (run (ms @ [Put v]) createChannel h0) ! length ms = Inr (RBool False) \<and>
         chan_of (run (ms @ Put v # ns) createChannel h0) = chan_of (run (ms @ ns) createChannel h0) \<and>
         store_of (run (ms @ Put v # ns) createChannel h0) = store_of (run (ms @ ns) createChannel h0)"
proof -
  from assms have "isClosed (chan_of (run ms createChannel h0))"
    by (simp add: run_isClosed closes_iff)
  then show ?thesis
    by (simp add: run_append run_simps put_closed nth_append length_rets)
qed

theorem put_after_close_witness:
  "Close \<in> set [Put (Payload (1::nat)), Close] \<and>
   ret_of (run ([Put (Payload (1::nat)), Close] @ [Put (Payload 2)]) createChannel []) ! 2
     = Inr (RBool False) \<and>
   store_of (run ([Put (Payload (1::nat)), Close] @ Put (Payload 2) # [Take, Take]) createChannel [])
     = store_of (run ([Put (Payload (1::nat)), Close] @ [Take, Take]) createChannel [])"
  using put_after_close [of "[Put (Payload (1::nat)), Close]" "Payload 2" "[]" "[Take, Take]"]
  by (simp add: numeral_2_eq_2)

text \<open>
  P3 of the specification. The first \<open>close\<close> on a new channel returns \<open>true\<close>; a
  \<open>close\<close> that follows another \<open>close\<close> returns \<open>false\<close> and changes neither the
  channel nor any promise.
\<close>

lemma close_once:
  "ret_of (run [Close] createChannel h0) = [Inr (RBool True)] \<and>
   ret_of (run (ms @ [Close, Close]) createChannel h0) ! Suc (length ms) = Inr (RBool False) \<and>
   chan_of (run (ms @ [Close, Close]) createChannel h0) = chan_of (run (ms @ [Close]) createChannel h0) \<and>
   store_of (run (ms @ [Close, Close]) createChannel h0) = store_of (run (ms @ [Close]) createChannel h0)"
proof -
  have "isClosed (chan_of (run (ms @ [Close]) createChannel h0))"
    by (simp add: run_isClosed closes_snoc)
  then have "run ((ms @ [Close]) @ [Close]) createChannel h0 =
      (ret_of (run (ms @ [Close]) createChannel h0) @ [Inr (RBool False)],
       chan_of (run (ms @ [Close]) createChannel h0), store_of (run (ms @ [Close]) createChannel h0))"
    unfolding run_snoc [of "ms @ [Close]"] by (simp add: close_closed)
  then show ?thesis
    by (simp add: run_single createChannel_def close_def nth_append length_rets)
qed

section \<open>What the calls return\<close>

text \<open>
  Claim C20 (error). No call throws: whatever the state of the channel and of the
  store, every call of a sequence returns a value, so the \<open>TypeError\<close> of calling the
  result of \<open>shift()\<close> on an empty \<open>resolveQueue\<close> cannot occur.
\<close>

theorem calls_never_throw:
  "\<exists>rs. ret_of (run ms c h) = map Inr rs \<and> length rs = length ms"
proof (induction ms arbitrary: c h)
  case Nil
  show ?case by (simp add: run_Nil)
next
  case (Cons m ms)
  obtain r where r: "ret_of (call m c h) = Inr r"
    using call_total by blast
  from Cons [of "chan_of (call m c h)" "store_of (call m c h)"]
  obtain rs where "ret_of (run ms (chan_of (call m c h)) (store_of (call m c h))) = map Inr rs"
    and "length rs = length ms" by blast
  with r have "ret_of (run (m # ms) c h) = map Inr (r # rs) \<and> length (r # rs) = length (m # ms)"
    by (simp add: run_Cons)
  then show ?case by blast
qed

text \<open>
  What each call returns, from the calls before it: \<open>put\<close> and
  \<open>close\<close> return \<open>true\<close> exactly when no \<open>close\<close> came before, and each \<open>take\<close> returns
  a new promise, the next one of the store.
\<close>

lemma call_returns:
  assumes "k < length ms"
  shows "ret_of (run ms createChannel h0) ! k =
           Inr (case ms ! k of
                  Put v \<Rightarrow> RBool (Close \<notin> set (take k ms))
                | Take \<Rightarrow> RPromise (length h0 + n_takes (take k ms))
                | Close \<Rightarrow> RBool (Close \<notin> set (take k ms)))"
  using assms by (cases "ms ! k") (simp_all add: run_rets ret_at_def closes_iff)

text \<open>
  Claim C21 (functional). The state of a channel is a function of the calls made on
  it: it is closed when \<open>close\<close> was called, its buffer holds the accepted values that
  no \<open>take\<close> has received, in order, and \<open>resolveQueue\<close> holds the resolvers of the
  promises returned while the channel was open that no \<open>put\<close> has served, in order.
\<close>

theorem state_of_history:
  "chan_of (run ms createChannel h0) =
     \<lparr>isClosed = (Close \<in> set ms),
      messageQueue = drop (n_takes ms) (accepted_of ms),
      resolveQueue = [length h0 + length (accepted_of ms)..<length h0 + open_takes_of ms]\<rparr>"
  by (rule chan.equality) (simp_all add: run_isClosed closes_iff run_resolveQueue run_messageQueue)

section \<open>The sentinel\<close>

text \<open>
  Claim C25 (functional; a divergence from the specification). The sentinel is
  exported and \<open>put\<close> accepts it as it accepts any value, so a producer can make a consumer receive
  \<open>CLOSED\<close> from a channel that is open: in a history without \<open>close\<close>, a \<open>put(CLOSED)\<close> after
  the calls \<open>ms\<close> fulfils the promise of the consumer whose turn it is with \<open>CLOSED\<close>, as soon as
  that consumer has called \<open>take\<close>, and the channel is still open.
\<close>

theorem sentinel_can_be_put:
  assumes "Close \<notin> set (ms @ ns)"
    and "length (accepted_of ms) < n_takes (ms @ Put CLOSED # ns)"
  shows "await (length h0 + length (accepted_of ms))
           (store_of (run (ms @ Put CLOSED # ns) createChannel h0)) = Some CLOSED \<and>
         \<not> isClosed (chan_of (run (ms @ Put CLOSED # ns) createChannel h0))"
  using assms run_await [OF assms(2), of h0]
  by (simp add: take_outcome_def accepted_of_append closes_iff run_isClosed)

theorem sentinel_can_be_put_witness:
  "Close \<notin> set ([Take] @ []) \<and>
   length (accepted_of [Take :: nat operation]) < n_takes ([Take] @ Put CLOSED # []) \<and>
   await 0 (store_of (run [Take, Put CLOSED] createChannel ([] :: nat jsval store))) = Some CLOSED \<and>
   \<not> isClosed (chan_of (run [Take, Put CLOSED] createChannel ([] :: nat jsval store)))"
  using sentinel_can_be_put [of "[Take]" "[]" "[]"] by simp

section \<open>The scenario of the specification\<close>

text \<open>
  The end-to-end scenario of section 8 of the specification:
  on a new channel \<open>take\<close> returns a pending promise; after \<open>put(x)\<close> it is fulfilled
  with \<open>x\<close>; \<open>close\<close> then returns \<open>true\<close>, the next \<open>take\<close> is fulfilled with \<open>CLOSED\<close> and
  \<open>put(y)\<close> returns \<open>false\<close>.
\<close>

lemma end_to_end_scenario:
  "await 0 (store_of (run [Take] createChannel [])) = None \<and>
   ret_of (run [Take, Put (Payload x), Close, Take, Put (Payload y)] createChannel []) =
     [Inr (RPromise 0), Inr (RBool True), Inr (RBool True), Inr (RPromise 1), Inr (RBool False)] \<and>
   map (\<lambda>p. await p (store_of (run [Take, Put (Payload x), Close, Take, Put (Payload y)]
     createChannel []))) [0, 1] = [Some (Payload x), Some CLOSED]"
  by (simp add: eval_simps)

section \<open>Sizes\<close>

text \<open>
  The sizes of the queues and of the store after any sequence of calls on a new
  channel: the buffer holds the accepted values that no \<open>take\<close> has received,
  \<open>resolveQueue\<close> the resolvers of the takes made while open that no value
  has served, and the store grows by one promise for every \<open>take\<close>. The buffer never
  holds more values than calls were made, and it has no capacity: after \<open>n\<close> calls of
  \<open>put\<close> it holds \<open>n\<close> values.
\<close>

lemma buffer_bounds:
  "length (messageQueue (chan_of (run ms createChannel h0))) = length (accepted_of ms) - n_takes ms \<and>
   length (resolveQueue (chan_of (run ms createChannel h0))) =
     open_takes_of ms - length (accepted_of ms) \<and>
   length (store_of (run ms createChannel h0)) = length h0 + n_takes ms \<and>
   length (messageQueue (chan_of (run ms createChannel h0))) \<le> length ms \<and>
   length (messageQueue (chan_of (run (map Put vs) createChannel h0))) = length vs"
  using length_accepted_of_le [of ms]
  by (simp add: run_messageQueue run_resolveQueue length_run)

end
